(* ===== verification/Prelude.thy ===== *)
theory Prelude
  imports Main "HOL-Library.Word" "HOL-Library.Multiset" "HOL-Library.Monad_Syntax"
    "HOL-Library.Code_Target_Nat"
begin

text \<open>
  Shared ground of the development: the machine types of the C sources, byte order, the
  memory of one C object with its loads and stores, the decimal and hexadecimal output of
  \<open>printf\<close>, and the reachable states of a step relation with the rule that proves an
  invariant of them. The host is a little-endian machine with 32-bit \<open>int\<close>, as the
  sources assume wherever they mix \<open>htons\<close> with pointer casts.
\<close>

unbundle bit_operations_syntax

named_theorems mem_simps "loads, stores and lengths of C objects"
named_theorems mem_eval "evaluation of loads and stores on explicit objects"
named_theorems word_eval "bytes and words as numbers"
named_theorems cksum_simps "one's complement arithmetic"
named_theorems inv_intros "invariants of initial states and of steps"

section \<open>Machine types and byte order\<close>

type_synonym u8 = "8 word"
type_synonym u16 = "16 word"
type_synonym u32 = "32 word"
type_synonym i32 = "32 word"

definition le16 :: "u8 \<Rightarrow> u8 \<Rightarrow> u16" where
  "le16 lo hi = push_bit 8 (ucast hi) OR ucast lo"

definition lo8 :: "u16 \<Rightarrow> u8" where
  "lo8 w = ucast w"

definition hi8 :: "u16 \<Rightarrow> u8" where
  "hi8 w = ucast (drop_bit 8 w)"

text \<open>The C library's \<open>htons\<close> and \<open>htonl\<close> on a little-endian host.\<close>

definition htons :: "u16 \<Rightarrow> u16" where
  "htons w = le16 (hi8 w) (lo8 w)"

definition byte_of :: "u32 \<Rightarrow> nat \<Rightarrow> u8" where
  "byte_of w k = ucast (drop_bit (8 * k) w)"

definition le32 :: "u8 \<Rightarrow> u8 \<Rightarrow> u8 \<Rightarrow> u8 \<Rightarrow> u32" where
  "le32 a b c d = ucast a OR push_bit 8 (ucast b) OR push_bit 16 (ucast c)
     OR push_bit 24 (ucast d)"

definition htonl :: "u32 \<Rightarrow> u32" where
  "htonl w = le32 (byte_of w 3) (byte_of w 2) (byte_of w 1) (byte_of w 0)"

lemma u8_bound: "unat (w :: u8) < 256" and u16_bound: "unat (w' :: u16) < 65536"
  and u32_bound: "unat (w'' :: u32) < 4294967296"
  using unsigned_less [of w] unsigned_less [of w'] unsigned_less [of w''] by simp_all

lemma unat_ucast_8_16: "unat (ucast (w :: u8) :: u16) = unat w"
  by (simp add: unsigned_ucast_eq take_bit_nat_eq_self less_trans [OF u8_bound])

lemma unat_ucast_16_32: "unat (ucast (w :: u16) :: u32) = unat w"
  by (simp add: unsigned_ucast_eq take_bit_nat_eq_self less_trans [OF u16_bound])

lemma unat_ucast_32_16: "unat (ucast (w :: u32) :: u16) = unat w mod 65536"
  by (simp add: unsigned_ucast_eq take_bit_eq_mod)

lemma unat_le16: "unat (le16 a b) = unat a + 256 * unat b"
proof -
  have "push_bit 8 (ucast b :: u16) AND ucast a = 0"
    by (rule bit_word_eqI) (auto simp: bit_simps dest: bit_imp_le_length)
  then have "le16 a b = push_bit 8 (ucast b) + ucast a"
    by (simp add: le16_def disjunctive_add_eq_or)
  then show ?thesis
    using u8_bound [of a] u8_bound [of b]
    by (simp add: push_bit_eq_mult unat_word_ariths unat_ucast_8_16)
qed

lemma le16_parts [simp]: "lo8 (le16 a b) = a" "hi8 (le16 a b) = b"
  by (rule bit_word_eqI; auto simp: lo8_def hi8_def le16_def bit_simps
      dest: bit_imp_le_length)+

lemma le16_lo8_hi8 [simp]: "le16 (lo8 w) (hi8 w) = w"
  by (rule bit_word_eqI) (auto simp: lo8_def hi8_def le16_def bit_simps)

lemma unat_parts: "unat w = unat (lo8 w) + 256 * unat (hi8 w)"
  using unat_le16 [of "lo8 w" "hi8 w"] by simp

lemma htons_le16 [simp]: "htons (le16 a b) = le16 b a"
  by (simp add: htons_def)

lemma htons_htons [simp]: "htons (htons w) = w"
  by (simp add: htons_def)

lemma lo8_htons [simp]: "lo8 (htons w) = hi8 w" and hi8_htons [simp]: "hi8 (htons w) = lo8 w"
  by (simp_all add: htons_def)

lemma byte_of_le32 [simp]:
  "byte_of (le32 a b c d) 0 = a" "byte_of (le32 a b c d) (Suc 0) = b"
  "byte_of (le32 a b c d) 2 = c" "byte_of (le32 a b c d) 3 = d"
  by (rule bit_word_eqI; auto simp: byte_of_def le32_def bit_simps dest: bit_imp_le_length)+

section \<open>The memory of one C object\<close>

text \<open>
  An object (a packet, a buffer, an array) is the list of its bytes and a pointer into it is
  a byte offset. A load or a store outside the object is undefined behaviour of the C program
  and is the value \<open>None\<close>; 16- and 32-bit accesses are little-endian and, as in the packed
  structs of the sources, need no alignment.
\<close>

definition load8 :: "u8 list \<Rightarrow> nat \<Rightarrow> u8 option" where
  "load8 mem p = (if p < length mem then Some (mem ! p) else None)"

definition load16 :: "u8 list \<Rightarrow> nat \<Rightarrow> u16 option" where
  "load16 mem p =
     (if p + 1 < length mem then Some (le16 (mem ! p) (mem ! (p + 1))) else None)"

definition store8 :: "nat \<Rightarrow> u8 \<Rightarrow> u8 list \<Rightarrow> u8 list option" where
  "store8 p v mem = (if p < length mem then Some (mem[p := v]) else None)"

definition store16 :: "nat \<Rightarrow> u16 \<Rightarrow> u8 list \<Rightarrow> u8 list option" where
  "store16 p v mem =
     (if p + 1 < length mem then Some (mem[p := lo8 v, p + 1 := hi8 v]) else None)"

definition store32 :: "nat \<Rightarrow> u32 \<Rightarrow> u8 list \<Rightarrow> u8 list option" where
  "store32 p v mem =
     (if p + 3 < length mem
      then Some (mem[p := byte_of v 0, p + 1 := byte_of v 1, p + 2 := byte_of v 2,
                     p + 3 := byte_of v 3])
      else None)"

lemma store_length [mem_simps]:
  "store8 p b mem = Some m \<Longrightarrow> length m = length mem"
  "store16 p h mem = Some m \<Longrightarrow> length m = length mem"
  "store32 p w mem = Some m \<Longrightarrow> length m = length mem"
  by (auto simp: store8_def store16_def store32_def split: if_splits)

lemma load16_store16:
  "store16 p v mem = Some m \<Longrightarrow> load16 m p = Some v"
  by (auto simp: store16_def load16_def nth_list_update split: if_splits)

lemma load16_store16_apart:
  "store16 p v mem = Some m \<Longrightarrow> q + 1 < p \<or> p + 1 < q \<Longrightarrow> load16 m q = load16 mem q"
  by (auto simp: store16_def load16_def nth_list_update split: if_splits)

text \<open>\<open>words_at mem p n\<close>: the \<open>n\<close> consecutive 16-bit words from offset \<open>p\<close>.\<close>

fun words_at :: "u8 list \<Rightarrow> nat \<Rightarrow> nat \<Rightarrow> u16 list" where
  "words_at mem p 0 = []"
| "words_at mem p (Suc n) = le16 (mem ! p) (mem ! (p + 1)) # words_at mem (p + 2) n"

lemma length_words_at [simp]: "length (words_at mem p n) = n"
  by (induction n arbitrary: p) auto

lemma words_at_nth: "k < n \<Longrightarrow>
    words_at mem p n ! k = le16 (mem ! (p + 2 * k)) (mem ! (p + 2 * k + 1))"
  by (induction n arbitrary: p k) (auto simp: nth_Cons split: nat.splits)

lemma words_at_update:
  assumes "q = p + 2 * k" and "k < n" and "p + 2 * n \<le> length mem"
  shows "words_at (mem[q := lo8 v, Suc q := hi8 v]) p n = (words_at mem p n)[k := v]"
proof (rule nth_equalityI)
  fix i
  assume "i < length (words_at (mem[q := lo8 v, Suc q := hi8 v]) p n)"
  then have i: "i < n" by simp
  show "words_at (mem[q := lo8 v, Suc q := hi8 v]) p n ! i = (words_at mem p n)[k := v] ! i"
  proof (cases "i = k")
    case True
    with assms show ?thesis by (simp add: words_at_nth nth_list_update)
  next
    case False
    then have "p + 2 * i \<noteq> q" "p + 2 * i \<noteq> Suc q" "Suc (p + 2 * i) \<noteq> q"
      using assms by presburger+
    with False i assms show ?thesis by (simp add: words_at_nth nth_list_update)
  qed
qed simp

text \<open>Evaluation on explicit objects, by walking to the offset.\<close>

lemma store8_eval [mem_eval]:
  "store8 0 v (b # mem) = Some (v # mem)"
  "store8 (Suc p) v (b # mem) = map_option ((#) b) (store8 p v mem)"
  "store8 (numeral k) v (b # mem) = map_option ((#) b) (store8 (pred_numeral k) v mem)"
  by (simp_all add: store8_def numeral_eq_Suc)

lemma store16_eval [mem_eval]:
  "store16 0 v (b # c # mem) = Some (lo8 v # hi8 v # mem)"
  "store16 (Suc p) v (b # mem) = map_option ((#) b) (store16 p v mem)"
  "store16 (numeral k) v (b # mem) = map_option ((#) b) (store16 (pred_numeral k) v mem)"
  by (simp_all add: store16_def numeral_eq_Suc)

lemma store32_eval [mem_eval]:
  "store32 0 v (b # c # d # e # mem) =
     Some (byte_of v 0 # byte_of v 1 # byte_of v 2 # byte_of v 3 # mem)"
  "store32 (Suc p) v (b # mem) = map_option ((#) b) (store32 p v mem)"
  "store32 (numeral k) v (b # mem) = map_option ((#) b) (store32 (pred_numeral k) v mem)"
  by (simp_all add: store32_def numeral_eq_Suc numeral_2_eq_2 numeral_3_eq_3)

lemma replicate_eval [mem_eval]: "replicate (numeral k) x = x # replicate (pred_numeral k) x"
  by (simp add: numeral_eq_Suc)

lemma words_at_shift: "words_at (b # mem) (Suc p) n = words_at mem p n"
  by (induction n arbitrary: p) simp_all

lemma words_at_eval [mem_eval]:
  "words_at mem p 0 = []"
  "words_at (b # c # mem) 0 (Suc n) = le16 b c # words_at mem 0 n"
  "words_at (b # c # mem) 0 (numeral m) = le16 b c # words_at mem 0 (pred_numeral m)"
  "words_at (b # mem) (Suc p) n = words_at mem p n"
  "words_at (b # mem) (numeral k) n = words_at mem (pred_numeral k) n"
  by (simp_all add: words_at_shift numeral_eq_Suc numeral_2_eq_2)

lemma unat_ucast_8_32: "unat (ucast (w :: u8) :: u32) = unat w"
  by (simp add: unsigned_ucast_eq take_bit_nat_eq_self less_trans [OF u8_bound])

lemma unat_le32:
  "unat (le32 a b c d) = unat a + 256 * unat b + 65536 * unat c + 16777216 * unat d"
proof -
  have "le32 a b c d = ucast a + push_bit 8 (ucast b) + push_bit 16 (ucast c) + push_bit 24 (ucast d)"
    unfolding le32_def
    by (subst disjunctive_add, auto simp: bit_simps or.assoc dest: bit_imp_le_length)+
  then show ?thesis
    using u8_bound [of a] u8_bound [of b] u8_bound [of c] u8_bound [of d]
    by (simp add: push_bit_eq_mult unat_word_ariths unat_ucast_8_32)
qed

lemma unat_drop_bit_nat: "unat (drop_bit n w) = unat w div 2 ^ n"
  by (rule trans [OF unat_drop_bit_eq drop_bit_eq_div])

lemma byte_eval [word_eval]:
  "le16 a b = word_of_nat (unat a + 256 * unat b)"
  "lo8 w = word_of_nat (unat w)"
  "hi8 w = word_of_nat (unat w div 256)"
  "byte_of x k = word_of_nat (unat x div 256 ^ k)"
  "le32 a b c d = word_of_nat (unat a + 256 * unat b + 65536 * unat c + 16777216 * unat d)"
proof -
  show "le16 a b = word_of_nat (unat a + 256 * unat b)"
    by (simp only: unat_le16 [symmetric] of_nat_unat ucast_id)
  show "lo8 w = word_of_nat (unat w)" by (simp add: lo8_def)
  show "hi8 w = word_of_nat (unat w div 256)"
  proof -
    have "hi8 w = word_of_nat (unat (drop_bit 8 w))" by (simp only: hi8_def of_nat_unat)
    then show ?thesis by (simp only: unat_drop_bit_nat) simp
  qed
  show "byte_of x k = word_of_nat (unat x div 256 ^ k)"
  proof -
    have "byte_of x k = word_of_nat (unat (drop_bit (8 * k) x))"
      by (simp only: byte_of_def of_nat_unat)
    then show ?thesis by (simp only: unat_drop_bit_nat power_mult) simp
  qed
  show "le32 a b c d = word_of_nat (unat a + 256 * unat b + 65536 * unat c + 16777216 * unat d)"
    by (simp only: unat_le32 [symmetric] of_nat_unat ucast_id)
qed

section \<open>Output\<close>

text \<open>The decimal and hexadecimal conversions of \<open>printf\<close>.\<close>

definition digit_char :: "nat \<Rightarrow> char" where
  "digit_char d = (if d < 10 then char_of (48 + d) else char_of (87 + d))"

fun nat_digits :: "nat \<Rightarrow> nat \<Rightarrow> nat list" where
  "nat_digits b n = (if n < b \<or> b < 2 then [n] else nat_digits b (n div b) @ [n mod b])"

declare nat_digits.simps [simp del]

definition dec :: "int \<Rightarrow> string" where
  "dec n = (if n < 0 then ''-'' else []) @ map digit_char (nat_digits 10 (nat \<bar>n\<bar>))"

definition hex :: "nat \<Rightarrow> string" where
  "hex n = map digit_char (nat_digits 16 n)"

definition nl :: string where
  "nl = [CHR 0x0A]"

section \<open>Reachable states\<close>

inductive reachable :: "('s \<Rightarrow> bool) \<Rightarrow> ('s \<Rightarrow> 's \<Rightarrow> bool) \<Rightarrow> 's \<Rightarrow> bool"
  for start step where
  reach_start [intro]: "start s \<Longrightarrow> reachable start step s"
| reach_step [intro]: "reachable start step s \<Longrightarrow> step s t \<Longrightarrow> reachable start step t"

lemma reachable_trans: "step\<^sup>*\<^sup>* s t \<Longrightarrow> reachable start step s \<Longrightarrow> reachable start step t"
  by (induction rule: rtranclp_induct) auto

text \<open>
  The contract every state machine of the development meets: an invariant that its initial
  states satisfy and its steps preserve. The lemmas follow for each of its interpretations.
\<close>

locale invariant_machine =
  fixes start :: "'s \<Rightarrow> bool"
    and step :: "'s \<Rightarrow> 's \<Rightarrow> bool"
    and inv :: "'s \<Rightarrow> bool"
  assumes inv_start: "start s \<Longrightarrow> inv s"
    and inv_step: "inv s \<Longrightarrow> step s t \<Longrightarrow> inv t"
begin

lemma inv_reachable: "reachable start step s \<Longrightarrow> inv s"
  by (induction rule: reachable.induct) (auto intro: inv_start inv_step)

lemma inv_run: "step\<^sup>*\<^sup>* s t \<Longrightarrow> inv s \<Longrightarrow> inv t"
  by (induction rule: rtranclp_induct) (auto intro: inv_step)

end

text \<open>
  A machine that is simulated by a more abstract one: the abstraction of an initial state is
  initial, and every step of the machine is a step of the abstract one, or invisible in it.
\<close>

locale simulation = invariant_machine start step inv
  for start :: "'s \<Rightarrow> bool" and step :: "'s \<Rightarrow> 's \<Rightarrow> bool" and inv :: "'s \<Rightarrow> bool" +
  fixes abs_of :: "'s \<Rightarrow> 'a"
    and astart :: "'a \<Rightarrow> bool"
    and astep :: "'a \<Rightarrow> 'a \<Rightarrow> bool"
  assumes abs_start: "start s \<Longrightarrow> astart (abs_of s)"
    and abs_step: "inv s \<Longrightarrow> step s t \<Longrightarrow> abs_of t = abs_of s \<or> astep (abs_of s) (abs_of t)"
begin

lemma abs_reachable: "reachable start step s \<Longrightarrow> reachable astart astep (abs_of s)"
proof (induction rule: reachable.induct)
  case (reach_start s)
  then show ?case by (auto intro: abs_start)
next
  case (reach_step s t)
  then show ?case using abs_step [OF inv_reachable [OF reach_step(1)] reach_step(2)] by (metis reachable.reach_step)
qed

lemma abs_run: "step\<^sup>*\<^sup>* s t \<Longrightarrow> inv s \<Longrightarrow> astep\<^sup>*\<^sup>* (abs_of s) (abs_of t)"
proof (induction rule: rtranclp_induct)
  case (step t u)
  have "abs_of u = abs_of t \<or> astep (abs_of t) (abs_of u)"
    by (rule abs_step [OF inv_run [OF step.hyps(1) step.prems] step.hyps(2)])
  with step show ?case by (metis rtranclp.rtrancl_into_rtrancl)
qed simp

end

text \<open>
  A machine that comes to an end: every step leaves fewer steps, and one that is not in a final
  state can make a step.
\<close>

locale ending_machine = invariant_machine start step inv
  for start :: "'s \<Rightarrow> bool" and step :: "'s \<Rightarrow> 's \<Rightarrow> bool" and inv :: "'s \<Rightarrow> bool" +
  fixes left :: "'s \<Rightarrow> nat"
    and final :: "'s \<Rightarrow> bool"
  assumes left_step: "inv s \<Longrightarrow> step s t \<Longrightarrow> left t < left s"
    and progress: "inv s \<Longrightarrow> \<not> final s \<Longrightarrow> \<exists>t. step s t"
begin

lemma run_inv: "(step ^^ n) s t \<Longrightarrow> inv s \<Longrightarrow> inv t"
  by (rule inv_run [OF relpowp_imp_rtranclp])

lemma run_bound: "(step ^^ n) s t \<Longrightarrow> inv s \<Longrightarrow> n + left t \<le> left s"
proof (induction n arbitrary: t)
  case (Suc n)
  then obtain u where u: "(step ^^ n) s u" "step u t" by (auto simp: relcompp.simps)
  have "left t < left u" by (rule left_step [OF run_inv [OF u(1) Suc.prems(2)] u(2)])
  with Suc.IH [OF u(1) Suc.prems(2)] show ?case by simp
qed simp

lemma run_ends: "inv s \<Longrightarrow> \<exists>t. step\<^sup>*\<^sup>* s t \<and> final t"
proof (induction "left s" arbitrary: s rule: less_induct)
  case less
  show ?case
  proof (cases "final s")
    case False
    then obtain t where step: "step s t" using progress less.prems by blast
    obtain u where "step\<^sup>*\<^sup>* t u" "final u"
      using less.hyps [OF left_step [OF less.prems step] inv_step [OF less.prems step]] by blast
    then show ?thesis using step by (meson converse_rtranclp_into_rtranclp)
  qed blast
qed

end

end
