(* ===== verification/Checksum.thy ===== *)
theory Checksum
  imports Prelude
begin

text \<open>
  The Internet checksum. The function \<open>checksum\<close> stands four times in the sources
  (\<open>les26_syn_storm\<close>, \<open>les27_channel_level\<close> and \<open>ping.c\<close> of \<open>les28_ping_tracert\<close> print each
  addition, \<open>tracert.c\<close> does not) and once more, over an index instead of an end pointer, as
  \<open>gen_crc16\<close> of \<open>les31_kernel_ping\<close>. The models keep the pointer comparison that ends the loop, the
  conversions between \<open>unsigned short\<close>, \<open>short\<close>, \<open>int\<close> and \<open>unsigned int\<close>, and
  the printed text; a read outside the object is \<open>None\<close>.

  The contract is the locale \<open>inet_checksum\<close>: over a region of whole words the routine
  returns the complement of the one's complement sum. What the protocols rely on (a stored
  checksum verifies, words may come in any order and any byte order, a changed word is
  noticed) is proved once from that contract and holds for all five routines.
\<close>

section \<open>The routines\<close>

text \<open>
  \<open>result = (unsigned short int) result + tickPoint[i];\<close> The cast applies to \<open>result\<close> alone;
  both operands are promoted to \<open>int\<close> and the sum is converted to \<open>unsigned int\<close>.
\<close>

definition add16 :: "u32 \<Rightarrow> u16 \<Rightarrow> u32" where
  "add16 result w = ucast (ucast result :: u16) + ucast w"

text \<open>\<open>if (result > 0xFFFF) { result -= 0x10000; result += 0x1; }\<close>\<close>

definition fold16 :: "u32 \<Rightarrow> u32" where
  "fold16 result = (if result > 0xFFFF then result - 0x10000 + 1 else result)"

text \<open>\<open>~((short int) result)\<close>, an \<open>int\<close>: the \<open>short\<close> is promoted with its sign.\<close>

definition compl_short :: "u32 \<Rightarrow> i32" where
  "compl_short result = NOT (scast (ucast result :: u16))"

text \<open>
  The loop \<open>while(&tickPoint[i] != endPoint)\<close>. \<open>verbose\<close> tells whether this copy of the
  function prints; \<open>out\<close> is what it has printed so far.
\<close>

function checksum_loop :: "bool \<Rightarrow> u8 list \<Rightarrow> nat \<Rightarrow> nat \<Rightarrow> nat \<Rightarrow> u32 \<Rightarrow> string
    \<Rightarrow> (string \<times> u32) option" where
  "checksum_loop verbose mem tickPoint endPoint i result out =
     (if tickPoint + 2 * i = endPoint then Some (out, result)
      else case load16 mem (tickPoint + 2 * i) of
        None \<Rightarrow> None
      | Some w \<Rightarrow>
          (let sum = add16 result w;
               line = hex (unat result) @ '' + '' @ hex (unat w) @ '' = '' @ hex (unat sum) @ nl
           in checksum_loop verbose mem tickPoint endPoint (Suc i) (fold16 sum)
                (if verbose then out @ line else out)))"
  by pat_completeness auto
termination
  by (relation "measure (\<lambda>(v, mem, t, e, i, r, out). length mem - (t + 2 * i))")
    (auto simp: load16_def split: if_splits)

declare checksum_loop.simps [simp del]

definition checksum_verbose :: "u8 list \<Rightarrow> nat \<Rightarrow> nat \<Rightarrow> (string \<times> u16) option" where
  "checksum_verbose mem startPoint endPoint =
     (case checksum_loop True mem startPoint endPoint 0 0 [] of
        None \<Rightarrow> None
      | Some (out, result) \<Rightarrow>
          Some (out @ ''result = '' @ hex (unat (compl_short result)) @ nl,
                ucast (compl_short result)))"

text \<open>The copies of \<open>les26_syn_storm\<close>, \<open>les27_channel_level\<close> and \<open>ping.c\<close>.\<close>

definition syn_checksum :: "u8 list \<Rightarrow> nat \<Rightarrow> nat \<Rightarrow> (string \<times> u16) option" where
  "syn_checksum = checksum_verbose"

definition eth_checksum :: "u8 list \<Rightarrow> nat \<Rightarrow> nat \<Rightarrow> (string \<times> u16) option" where
  "eth_checksum = checksum_verbose"

definition ping_checksum :: "u8 list \<Rightarrow> nat \<Rightarrow> nat \<Rightarrow> (string \<times> u16) option" where
  "ping_checksum = checksum_verbose"

text \<open>The copy of \<open>tracert.c\<close>, which prints nothing.\<close>

definition tracert_checksum :: "u8 list \<Rightarrow> nat \<Rightarrow> nat \<Rightarrow> u16 option" where
  "tracert_checksum mem startPoint endPoint =
     (case checksum_loop False mem startPoint endPoint 0 0 [] of
        None \<Rightarrow> None
      | Some (_, result) \<Rightarrow> Some (ucast (compl_short result)))"

text \<open>
  \<open>gen_crc16\<close> of the kernel module: \<open>while (i < size)\<close> over \<open>data[i]\<close>, no cast before the
  addition, and \<open>~crc\<close> cut to \<open>u16\<close> by the return type.
\<close>

function gen_crc16_loop :: "u8 list \<Rightarrow> nat \<Rightarrow> nat \<Rightarrow> nat \<Rightarrow> u32 \<Rightarrow> u32 option" where
  "gen_crc16_loop mem data sz i crc =
     (if i < sz then
        (case load16 mem (data + 2 * i) of
           None \<Rightarrow> None
         | Some w \<Rightarrow> gen_crc16_loop mem data sz (Suc i) (fold16 (crc + ucast w)))
      else Some crc)"
  by pat_completeness auto
termination
  by (relation "measure (\<lambda>(mem, d, sz, i, c). sz - i)") auto

declare gen_crc16_loop.simps [simp del]

definition gen_crc16 :: "u8 list \<Rightarrow> nat \<Rightarrow> u16 \<Rightarrow> u16 option" where
  "gen_crc16 mem data sz =
     map_option (\<lambda>crc. ucast (NOT crc)) (gen_crc16_loop mem data (unat sz) 0 0)"

section \<open>The one's complement sum\<close>

text \<open>
  The abstract value: the sum of the words with the carries added back in, that is, the
  representative in \<open>1 .. 65535\<close> modulo 65535, and 0 for the sum 0 alone.
\<close>

definition oc_norm :: "nat \<Rightarrow> nat" where
  "oc_norm n = (if n = 0 then 0 else (n - 1) mod 65535 + 1)"

definition oc_sum :: "u16 list \<Rightarrow> nat" where
  "oc_sum ws = oc_norm (sum_list (map unat ws))"

lemma oc_norm_le [cksum_simps]: "oc_norm n \<le> 65535"
  using mod_less_divisor [of 65535 "n - 1"] by (auto simp: oc_norm_def simp del: mod_less_divisor)

lemma oc_norm_small [cksum_simps]: "n \<le> 65535 \<Longrightarrow> oc_norm n = n"
  by (simp add: oc_norm_def)

lemma oc_norm_mod [cksum_simps]: "oc_norm n mod 65535 = n mod 65535"
proof (cases n)
  case (Suc m)
  then show ?thesis by (simp add: oc_norm_def mod_Suc_eq)
qed (simp add: oc_norm_def)

lemma oc_norm_eq_0 [cksum_simps]: "oc_norm n = 0 \<longleftrightarrow> n = 0"
  by (simp add: oc_norm_def)

lemma oc_norm_unique:
  "v \<le> 65535 \<Longrightarrow> v mod 65535 = n mod 65535 \<Longrightarrow> (v = 0 \<longleftrightarrow> n = 0) \<Longrightarrow> v = oc_norm n"
  using oc_norm_le [of n] oc_norm_mod [of n] oc_norm_eq_0 [of n]
  by (cases "v = 65535"; cases "oc_norm n = 65535") auto

lemma oc_norm_add: "oc_norm (oc_norm a + b) = oc_norm (a + b)"
proof (rule oc_norm_unique)
  show "oc_norm (oc_norm a + b) mod 65535 = (a + b) mod 65535"
    by (metis oc_norm_mod mod_add_left_eq)
qed (simp_all add: cksum_simps)

lemma oc_norm_full: "oc_norm n = 65535 \<longleftrightarrow> 0 < n \<and> n mod 65535 = 0"
  using oc_norm_le [of n] oc_norm_mod [of n] oc_norm_eq_0 [of n]
  by (cases "oc_norm n = 65535") (auto simp: le_less)

section \<open>The routines compute the complement of the sum\<close>

lemma unat_fold16:
  assumes "unat r \<le> 131070"
  shows "unat (fold16 r) = (if unat r > 65535 then unat r - 65535 else unat r)"
proof (cases "r > 0xFFFF")
  case True
  then have gt: "65535 < unat r" by (simp add: word_less_nat_alt)
  have "unat (r - 0xFFFF) = unat r - 65535"
    using gt by (subst unat_sub) (simp_all add: word_le_nat_alt)
  with True gt show ?thesis by (simp add: fold16_def)
next
  case False
  then show ?thesis by (simp add: fold16_def word_less_nat_alt)
qed

lemma fold16_add:
  assumes "unat r \<le> 65535"
  shows "unat (fold16 (r + ucast (w :: u16))) = oc_norm (unat r + unat w)"
proof -
  have s: "unat (r + ucast w) = unat r + unat w"
    using assms u16_bound [of w] by (simp add: unat_word_ariths unat_ucast_16_32)
  show ?thesis
  proof (cases "unat r + unat w > 65535")
    case True
    then have "(unat r + unat w - 1) mod 65535 = unat r + unat w - 1 - 65535"
      using assms u16_bound [of w] by (subst mod_if) simp
    with True show ?thesis using s assms u16_bound [of w]
      by (simp add: unat_fold16 oc_norm_def)
  next
    case False
    then show ?thesis using s by (simp add: unat_fold16 oc_norm_small)
  qed
qed

lemma add16_small: "unat r \<le> 65535 \<Longrightarrow> add16 r w = r + ucast w"
proof -
  assume "unat r \<le> 65535"
  then have "unat (ucast (ucast r :: u16) :: u32) = unat r"
    by (simp add: unat_ucast_16_32 unat_ucast_32_16)
  then have "ucast (ucast r :: u16) = r" by (rule word_unat_eq_iff [THEN iffD2])
  then show ?thesis by (simp only: add16_def)
qed

lemma compl_short_word: "ucast (compl_short r) = NOT (ucast r :: u16)"
  by (rule bit_word_eqI) (auto simp: compl_short_def bit_simps)

lemma load16_word:
  "p + 2 * n \<le> length mem \<Longrightarrow> k < n \<Longrightarrow>
     load16 mem (p + 2 * k) = Some (words_at mem p n ! k)"
  by (simp add: load16_def words_at_nth)

text \<open>
  The loop from word \<open>i\<close> on: it ends at \<open>endPoint\<close> and has added the words of the region
  to the running result, carries folded in.
\<close>

lemma checksum_loop_sum:
  assumes "p + 2 * n \<le> length mem" and "i \<le> n" and "unat r \<le> 65535"
  shows "\<exists>out' r'. checksum_loop v mem p (p + 2 * n) i r out = Some (out', r')
    \<and> unat r' = oc_norm (unat r + sum_list (map unat (drop i (words_at mem p n))))"
  using assms(2,3)
proof (induction "n - i" arbitrary: i r out)
  case 0
  then show ?case
    by (subst checksum_loop.simps) (simp add: oc_norm_small)
next
  case (Suc k)
  let ?w = "words_at mem p n ! i"
  from Suc have i: "i < n" by simp
  have r: "unat (fold16 (add16 r ?w)) = oc_norm (unat r + unat ?w)"
    using Suc.prems by (simp add: add16_small fold16_add)
  have drop: "drop i (words_at mem p n) = ?w # drop (Suc i) (words_at mem p n)"
    using i by (simp add: Cons_nth_drop_Suc)
  have step: "checksum_loop v mem p (p + 2 * n) i r out =
      checksum_loop v mem p (p + 2 * n) (Suc i) (fold16 (add16 r ?w))
        (if v then out @ hex (unat r) @ '' + '' @ hex (unat ?w) @ '' = ''
                      @ hex (unat (add16 r ?w)) @ nl else out)"
    using i by (subst checksum_loop.simps) (simp add: load16_word [OF assms(1)] Let_def)
  have "k = n - Suc i" and "Suc i \<le> n" using Suc.hyps(2) i by simp_all
  from Suc.hyps(1) [OF this, of "fold16 (add16 r ?w)"] r show ?case
    by (auto simp: step drop oc_norm_le oc_norm_add add.assoc)
qed

text \<open>The sum of the region, as it stands after the loop.\<close>

lemma checksum_loop_region:
  assumes "p + 2 * n \<le> length mem"
  obtains out r where "checksum_loop v mem p (p + 2 * n) 0 0 [] = Some (out, r)"
    and "unat r = oc_sum (words_at mem p n)"
  using checksum_loop_sum [OF assms, of 0 0 v "[]"] that by (auto simp: oc_sum_def)

lemma compl_short_sum:
  "unat r = oc_sum ws \<Longrightarrow> ucast (compl_short r) = NOT (word_of_nat (oc_sum ws) :: u16)"
proof -
  assume r: "unat r = oc_sum ws"
  have "ucast r = (word_of_nat (unat r) :: u16)" by simp
  with r show ?thesis by (simp add: compl_short_word)
qed

lemma gen_crc16_loop_sum:
  assumes "p + 2 * n \<le> length mem" and "i \<le> n" and "unat r \<le> 65535"
  shows "\<exists>r'. gen_crc16_loop mem p n i r = Some r'
    \<and> unat r' = oc_norm (unat r + sum_list (map unat (drop i (words_at mem p n))))"
  using assms(2,3)
proof (induction "n - i" arbitrary: i r)
  case 0
  then show ?case
    by (subst gen_crc16_loop.simps) (simp add: oc_norm_small)
next
  case (Suc k)
  let ?w = "words_at mem p n ! i"
  from Suc have i: "i < n" by simp
  have drop: "drop i (words_at mem p n) = ?w # drop (Suc i) (words_at mem p n)"
    using i by (simp add: Cons_nth_drop_Suc)
  have step: "gen_crc16_loop mem p n i r = gen_crc16_loop mem p n (Suc i) (fold16 (r + ucast ?w))"
    using i by (subst gen_crc16_loop.simps) (simp add: load16_word [OF assms(1)])
  have "k = n - Suc i" and "Suc i \<le> n" using Suc.hyps(2) i by simp_all
  from Suc.hyps(1) [OF this, of "fold16 (r + ucast ?w)"] Suc.prems show ?case
    by (auto simp: step drop fold16_add oc_norm_le oc_norm_add add.assoc)
qed

section \<open>The contract\<close>

text \<open>
  \<open>ck mem p e\<close> is a checksum routine over the bytes from \<open>p\<close> up to \<open>e\<close>. The length is
  below 65536 words, the range of the \<open>u16 size\<close> of \<open>gen_crc16\<close>.
\<close>

locale inet_checksum =
  fixes ck :: "u8 list \<Rightarrow> nat \<Rightarrow> nat \<Rightarrow> u16 option"
  assumes ck_region: "p + 2 * n \<le> length mem \<Longrightarrow> n < 65536 \<Longrightarrow>
    ck mem p (p + 2 * n) = Some (NOT (word_of_nat (oc_sum (words_at mem p n))))"

lemma oc_sum_le: "oc_sum ws \<le> 65535"
  by (simp add: oc_sum_def oc_norm_le)

lemma unat_compl16: "unat (NOT w :: u16) = 65535 - unat w"
proof -
  have "NOT w = - 1 - w" by (simp add: not_eq_complement)
  moreover have "unat (- 1 - w) = unat (- 1 :: u16) - unat w"
    by (rule unat_sub) simp
  moreover have "unat (- 1 :: u16) = 65535"
    by (simp add: unsigned_minus_1_eq_mask mask_eq_exp_minus_1)
  ultimately show ?thesis by simp
qed

lemma unat_oc_word [cksum_simps]: "unat (word_of_nat (oc_sum ws) :: u16) = oc_sum ws"
  using oc_sum_le [of ws] by (simp add: unsigned_of_nat take_bit_nat_eq_self)

lemma sum_list_update_nat:
  "k < length xs \<Longrightarrow> sum_list (map f (xs[k := v])) + f (xs ! k) = sum_list (map f xs) + (f v :: nat)"
proof (induction xs arbitrary: k)
  case (Cons x xs)
  then show ?case by (cases k) (auto simp: algebra_simps)
qed simp

lemma oc_norm_le_self: "oc_norm n \<le> n"
  using mod_less_eq_dividend [of "n - 1" 65535] by (auto simp: oc_norm_def)

lemma oc_norm_dvd: "65535 dvd n - oc_norm n"
  using oc_norm_mod [of n] oc_norm_le_self [of n] by (metis mod_eq_dvd_iff_nat)

lemma dvd_add_swap: "(c :: nat) dvd a + b \<Longrightarrow> c dvd a \<longleftrightarrow> c dvd b"
  by (metis dvd_add_left_iff dvd_add_right_iff)

lemma mod_add_cancel:
  "(a :: nat) mod m = 0 \<Longrightarrow> b mod m = 0 \<Longrightarrow> a + u = b + v \<Longrightarrow> u mod m = v mod m"
  using mod_add_left_eq [of a m u] mod_add_left_eq [of b m v] by simp

lemma oc_sum_mset: "mset ws = mset vs \<Longrightarrow> oc_sum ws = oc_sum vs"
proof -
  assume "mset ws = mset vs"
  then have "mset (map unat ws) = mset (map unat vs)" by simp
  then have "sum_list (map unat ws) = sum_list (map unat vs)"
    by (simp only: sum_mset_sum_list [symmetric])
  then show ?thesis by (simp add: oc_sum_def)
qed

lemma bex_set_nth: "(\<exists>x \<in> set xs. P x) \<longleftrightarrow> (\<exists>j < length xs. P (xs ! j))"
  by (metis in_set_conv_nth)

text \<open>Storing the complement of a sum over a word \<open>g\<close> of the summed region.\<close>

lemma stored_complement:
  assumes "g \<le> 65535"
  shows "oc_norm (s + (65535 - oc_norm (s + g))) = 65535 \<longleftrightarrow> g = 0 \<or> g = 65535 \<and> s \<noteq> 0"
proof -
  let ?t = "oc_norm (s + g)"
  have le: "?t \<le> 65535" "?t \<le> s + g" by (rule oc_norm_le oc_norm_le_self)+
  have "s + (65535 - ?t) + g = 65535 + (s + g - ?t)" using le by simp
  then have "65535 dvd s + (65535 - ?t) + g"
    using oc_norm_dvd [of "s + g"] by simp
  then have "65535 dvd s + (65535 - ?t) \<longleftrightarrow> 65535 dvd g" by (rule dvd_add_swap)
  also have "\<dots> \<longleftrightarrow> g = 0 \<or> g = 65535"
    using assms by (auto dest: dvd_imp_le)
  finally have dvd: "(s + (65535 - ?t)) mod 65535 = 0 \<longleftrightarrow> g = 0 \<or> g = 65535"
    by (simp only: dvd_eq_mod_eq_0)
  have "0 < s + (65535 - ?t) \<longleftrightarrow> \<not> (g = 65535 \<and> s = 0)" if "g = 0 \<or> g = 65535"
    using that le by (cases "s = 0") (auto simp: oc_norm_small)
  with dvd show ?thesis by (auto simp: oc_norm_full)
qed

lemma stored_checksum_sum:
  assumes "k < length ws"
  shows "oc_sum (ws[k := NOT (word_of_nat (oc_sum ws))]) = 65535 \<longleftrightarrow>
    ws ! k = 0 \<or> ws ! k = 0xFFFF \<and> (\<exists>j < length ws. j \<noteq> k \<and> ws ! j \<noteq> 0)"
proof -
  let ?c = "NOT (word_of_nat (oc_sum ws)) :: u16"
  let ?s = "sum_list (map unat (ws[k := 0]))"
  have "sum_list (map unat ws) = ?s + unat (ws ! k)"
    using sum_list_update_nat [OF assms, of unat 0] by simp
  moreover have "sum_list (map unat (ws[k := ?c])) = ?s + unat ?c"
    using sum_list_update_nat [of k "ws[k := 0]" unat ?c] assms by simp
  moreover have "unat ?c = 65535 - oc_sum ws"
    by (simp add: unat_compl16 unat_oc_word)
  moreover have "unat (ws ! k) \<le> 65535" using u16_bound [of "ws ! k"] by simp
  ultimately have "oc_sum (ws[k := ?c]) = 65535 \<longleftrightarrow>
      unat (ws ! k) = 0 \<or> unat (ws ! k) = 65535 \<and> ?s \<noteq> 0"
    using stored_complement [of "unat (ws ! k)" ?s] by (simp add: oc_sum_def)
  moreover have "?s \<noteq> 0 \<longleftrightarrow> (\<exists>j < length ws. j \<noteq> k \<and> ws ! j \<noteq> 0)"
  proof -
    have "?s \<noteq> 0 \<longleftrightarrow> (\<exists>x \<in> set (ws[k := 0]). x \<noteq> 0)"
      by (simp add: unat_eq_0 sum_list_eq_0_iff)
    then show ?thesis using assms by (auto simp: bex_set_nth nth_list_update)
  qed
  moreover have "unat (ws ! k) = 65535 \<longleftrightarrow> ws ! k = 0xFFFF"
    by (simp add: word_unat_eq_iff)
  ultimately show ?thesis by (simp add: unat_eq_0)
qed

lemma compl_oc_word_eq_0: "NOT (word_of_nat (oc_sum ws) :: u16) = 0 \<longleftrightarrow> oc_sum ws = 65535"
proof -
  have "NOT (word_of_nat (oc_sum ws) :: u16) = 0 \<longleftrightarrow> 65535 - oc_sum ws = 0"
    by (simp add: word_unat_eq_iff unat_compl16 unat_oc_word)
  then show ?thesis using oc_sum_le [of ws] by auto
qed

lemma words_at_store16:
  "store16 (p + 2 * k) v mem = Some m \<Longrightarrow> k < n \<Longrightarrow> p + 2 * n \<le> length mem \<Longrightarrow>
     words_at m p n = (words_at mem p n)[k := v] \<and> length m = length mem"
  by (auto simp: store16_def words_at_update split: if_splits)

section \<open>What the protocols rely on\<close>

context inet_checksum begin

text \<open>A receiver sums the region with its checksum and expects all ones, complement 0.\<close>

lemma ck_zero_iff:
  "p + 2 * n \<le> length mem \<Longrightarrow> n < 65536 \<Longrightarrow>
     ck mem p (p + 2 * n) = Some 0 \<longleftrightarrow> oc_sum (words_at mem p n) = 65535"
  by (simp add: ck_region compl_oc_word_eq_0)

text \<open>
  Storing the checksum in word \<open>k\<close> of its own region: whether the result verifies depends
  on what the word held while the sum was taken.
\<close>

lemma ck_store_verifies_iff:
  assumes "p + 2 * n \<le> length mem" and "n < 65536" and "k < n"
    and "ck mem p (p + 2 * n) = Some c" and "store16 (p + 2 * k) c mem = Some m"
  shows "ck m p (p + 2 * n) = Some 0 \<longleftrightarrow>
    words_at mem p n ! k = 0 \<or>
    words_at mem p n ! k = 0xFFFF \<and> (\<exists>j < n. j \<noteq> k \<and> words_at mem p n ! j \<noteq> 0)"
proof -
  from assms have c: "c = NOT (word_of_nat (oc_sum (words_at mem p n)))"
    by (simp add: ck_region)
  from words_at_store16 [OF assms(5,3,1)]
  have "words_at m p n = (words_at mem p n)[k := c]" "length m = length mem" by simp_all
  with assms(1,2,3) c stored_checksum_sum [of k "words_at mem p n"] show ?thesis
    by (simp add: ck_zero_iff)
qed

corollary ck_store_verifies:
  "p + 2 * n \<le> length mem \<Longrightarrow> n < 65536 \<Longrightarrow> k < n \<Longrightarrow> words_at mem p n ! k = 0 \<Longrightarrow>
   ck mem p (p + 2 * n) = Some c \<Longrightarrow> store16 (p + 2 * k) c mem = Some m \<Longrightarrow>
   ck m p (p + 2 * n) = Some 0"
  using ck_store_verifies_iff by blast

text \<open>The order of the words does not matter.\<close>

lemma ck_mset:
  "p + 2 * n \<le> length mem \<Longrightarrow> q + 2 * n \<le> length m \<Longrightarrow> n < 65536 \<Longrightarrow>
   mset (words_at mem p n) = mset (words_at m q n) \<Longrightarrow>
   ck mem p (p + 2 * n) = ck m q (q + 2 * n)"
  using oc_sum_mset [of "words_at mem p n" "words_at m q n"] by (simp add: ck_region)

text \<open>A single word that changes to one with another residue is noticed.\<close>

lemma ck_detects:
  assumes "p + 2 * n \<le> length mem" and "n < 65536" and "k < n"
    and "ck mem p (p + 2 * n) = Some 0" and "store16 (p + 2 * k) v mem = Some m"
    and "unat v mod 65535 \<noteq> unat (words_at mem p n ! k) mod 65535"
  shows "ck m p (p + 2 * n) \<noteq> Some 0"
proof
  let ?ws = "words_at mem p n"
  assume bad: "ck m p (p + 2 * n) = Some 0"
  from words_at_store16 [OF assms(5,3,1)]
  have m: "words_at m p n = ?ws[k := v]" "length m = length mem" by simp_all
  have "sum_list (map unat (?ws[k := v])) mod 65535 = 0"
    using bad assms(1,2) m by (simp add: ck_zero_iff oc_sum_def oc_norm_full)
  moreover have "sum_list (map unat ?ws) mod 65535 = 0"
    using assms by (simp add: ck_zero_iff oc_sum_def oc_norm_full)
  moreover have "sum_list (map unat (?ws[k := v])) + unat (?ws ! k) = sum_list (map unat ?ws) + unat v"
    using assms(3) by (simp add: sum_list_update_nat)
  ultimately have "unat (?ws ! k) mod 65535 = unat v mod 65535" by (rule mod_add_cancel)
  with assms(6) show False by simp
qed

end

section \<open>The five routines meet the contract\<close>

lemma tracert_checksum_region:
  assumes "p + 2 * n \<le> length mem"
  shows "tracert_checksum mem p (p + 2 * n) =
    Some (NOT (word_of_nat (oc_sum (words_at mem p n))))"
  by (rule checksum_loop_region [OF assms, of False])
    (simp add: tracert_checksum_def compl_short_sum)

text \<open>Printing does not change the sum.\<close>

lemma checksum_loop_verbose:
  "map_option snd (checksum_loop v mem p e i r out) =
   map_option snd (checksum_loop v' mem p e i r out')"
proof (induction v mem p e i r out arbitrary: out' rule: checksum_loop.induct)
  case (1 v mem p e i r out)
  show ?case
  proof (cases "p + 2 * i = e")
    case True
    then show ?thesis by (simp add: checksum_loop.simps [of _ mem p e i])
  next
    case False
    with "1.IH" [OF False _ refl refl] show ?thesis
      by (subst (1 2) checksum_loop.simps) (simp add: Let_def split: option.split)
  qed
qed

lemma checksum_verbose_value:
  "map_option snd (checksum_verbose mem p e) = tracert_checksum mem p e"
  using checksum_loop_verbose [of True mem p e 0 0 "[]" False "[]"]
  by (cases "checksum_loop True mem p e 0 0 []"; cases "checksum_loop False mem p e 0 0 []")
    (auto simp: checksum_verbose_def tracert_checksum_def)

lemma gen_crc16_loop_checksum:
  "unat r \<le> 65535 \<Longrightarrow>
   gen_crc16_loop mem p n i r =
     (if i \<le> n then map_option snd (checksum_loop False mem p (p + 2 * n) i r []) else Some r)"
proof (induction "n - i" arbitrary: i r)
  case 0
  then show ?case
    by (subst gen_crc16_loop.simps, subst checksum_loop.simps) auto
next
  case (Suc k)
  then have i: "i < n" and k: "k = n - Suc i" by simp_all
  have small: "unat (fold16 (r + ucast w)) \<le> 65535" for w :: u16
    using Suc.prems by (simp add: fold16_add oc_norm_le)
  from i Suc.hyps(1) [OF k small] Suc.prems show ?case
    by (subst gen_crc16_loop.simps, subst checksum_loop.simps)
      (simp add: Let_def add16_small split: option.split)
qed

lemma gen_crc16_checksum:
  assumes "n < 65536"
  shows "gen_crc16 mem p (word_of_nat n) = tracert_checksum mem p (p + 2 * n)"
proof -
  have n: "unat (word_of_nat n :: u16) = n"
    using assms by (simp add: unsigned_of_nat take_bit_nat_eq_self)
  have small: "unat r \<le> 65535 \<Longrightarrow> ucast (NOT r) = (ucast (compl_short r) :: u16)" for r :: u32
    by (simp add: compl_short_word) (rule bit_word_eqI, auto simp: bit_simps)
  have "(\<lambda>r. ucast (NOT r)) = (\<lambda>r. ucast (compl_short r) :: u16)"
    by (rule ext) (simp add: compl_short_word, rule bit_word_eqI, auto simp: bit_simps)
  then show ?thesis
    by (simp add: gen_crc16_def tracert_checksum_def n gen_crc16_loop_checksum option.map_comp
        comp_def split: option.split)
qed

interpretation syn_ck: inet_checksum "\<lambda>m p e. map_option snd (syn_checksum m p e)"
  by unfold_locales (simp add: syn_checksum_def checksum_verbose_value tracert_checksum_region)

interpretation eth_ck: inet_checksum "\<lambda>m p e. map_option snd (eth_checksum m p e)"
  by unfold_locales (simp add: eth_checksum_def checksum_verbose_value tracert_checksum_region)

interpretation ping_ck: inet_checksum "\<lambda>m p e. map_option snd (ping_checksum m p e)"
  by unfold_locales (simp add: ping_checksum_def checksum_verbose_value tracert_checksum_region)

interpretation tracert_ck: inet_checksum tracert_checksum
  by unfold_locales (simp add: tracert_checksum_region)

interpretation crc_ck: inet_checksum "\<lambda>m p e. gen_crc16 m p (word_of_nat ((e - p) div 2))"
  by unfold_locales (simp add: gen_crc16_checksum tracert_checksum_region)

text \<open>When the pointer loop ends inside the object at all.\<close>

lemma checksum_loop_defined:
  "checksum_loop v mem p e i r out \<noteq> None \<longleftrightarrow>
   (\<exists>n \<ge> i. e = p + 2 * n \<and> (n = i \<or> e \<le> length mem))"
proof (induction v mem p e i r out rule: checksum_loop.induct)
  case (1 v mem p e i r out)
  show ?case
  proof (cases "p + 2 * i = e")
    case True
    then show ?thesis by (subst checksum_loop.simps) auto
  next
    case False
    have ne: "(\<exists>n \<ge> i. e = p + 2 * n \<and> (n = i \<or> e \<le> length mem)) \<longleftrightarrow>
        (\<exists>n \<ge> Suc i. e = p + 2 * n \<and> e \<le> length mem)"
      using False by (metis Suc_leD le_antisym not_less_eq_eq)
    show ?thesis
    proof (cases "load16 mem (p + 2 * i)")
      case None
      then have "length mem \<le> p + 2 * i + 1" by (simp add: load16_def split: if_splits)
      with None False ne show ?thesis by (subst checksum_loop.simps) auto
    next
      case (Some w)
      then have len: "p + 2 * i + 1 < length mem" by (simp add: load16_def split: if_splits)
      have "(\<exists>n \<ge> Suc i. e = p + 2 * n \<and> (n = Suc i \<or> e \<le> length mem)) \<longleftrightarrow>
          (\<exists>n \<ge> Suc i. e = p + 2 * n \<and> e \<le> length mem)"
        using len by auto
      moreover obtain out' where
        "checksum_loop v mem p e i r out = checksum_loop v mem p e (Suc i) (fold16 (add16 r w)) out'"
        "checksum_loop v mem p e (Suc i) (fold16 (add16 r w)) out' \<noteq> None \<longleftrightarrow>
          (\<exists>n \<ge> Suc i. e = p + 2 * n \<and> (n = Suc i \<or> e \<le> length mem))"
        by (rule that [OF _ "1.IH" [OF False Some refl refl]])
          (simp add: checksum_loop.simps [of v mem p e i r out] False Some Let_def)
      ultimately show ?thesis using ne by simp
    qed
  qed
qed

section \<open>Byte order\<close>

lemma htons_residue: "unat (htons w) mod 65535 = 256 * unat w mod 65535"
proof -
  have "unat (htons w) = unat (hi8 w) + 256 * unat (lo8 w)"
    using unat_parts [of "htons w"] by simp
  then have "256 * unat w = unat (htons w) + unat (hi8 w) * 65535"
    using unat_parts [of w] by simp
  then show ?thesis by (simp only: mod_mult_self1)
qed

lemma htons_0 [simp]: "htons 0 = 0"
  by (simp add: htons_def lo8_def hi8_def le16_def)

lemma htons_eq_0 [simp]: "htons w = 0 \<longleftrightarrow> w = 0"
  by (metis htons_0 htons_htons)

lemma htons_NOT: "htons (NOT w) = NOT (htons w)"
  by (rule bit_word_eqI) (auto simp: htons_def lo8_def hi8_def le16_def bit_simps)

lemma sum_htons_residue:
  "sum_list (map unat (map htons ws)) mod 65535 = 256 * sum_list (map unat ws) mod 65535"
proof (induction ws)
  case (Cons w ws)
  have "(unat (htons w) + sum_list (map unat (map htons ws))) mod 65535 =
      (256 * unat w + 256 * sum_list (map unat ws)) mod 65535"
    using htons_residue [of w] Cons.IH by (rule mod_add_cong)
  then show ?case by (simp only: list.map sum_list.Cons distrib_left)
qed simp

lemma oc_sum_htons: "(word_of_nat (oc_sum (map htons ws)) :: u16) = htons (word_of_nat (oc_sum ws))"
proof -
  let ?h = "htons (word_of_nat (oc_sum ws))"
  have "unat ?h = oc_norm (sum_list (map unat (map htons ws)))"
  proof (rule oc_norm_unique)
    have "unat ?h mod 65535 = 256 * oc_sum ws mod 65535"
      by (simp add: htons_residue unat_oc_word)
    also have "\<dots> = 256 * sum_list (map unat ws) mod 65535"
      by (simp add: oc_sum_def) (metis mod_mult_right_eq oc_norm_mod)
    finally show "unat ?h mod 65535 = sum_list (map unat (map htons ws)) mod 65535"
      by (simp only: sum_htons_residue)
    have "unat ?h = 0 \<longleftrightarrow> oc_sum ws = 0"
      by (metis htons_eq_0 unat_eq_0 unat_oc_word)
    then show "unat ?h = 0 \<longleftrightarrow> sum_list (map unat (map htons ws)) = 0"
      by (simp add: oc_sum_def oc_norm_eq_0 sum_list_eq_0_iff unat_eq_0)
  qed (use u16_bound [of ?h] in simp)
  then show ?thesis by (simp add: oc_sum_def word_unat_eq_iff)
    (metis oc_sum_def unat_oc_word map_map)
qed

context inet_checksum begin

lemma ck_byte_order:
  "p + 2 * n \<le> length mem \<Longrightarrow> q + 2 * n \<le> length m \<Longrightarrow> n < 65536 \<Longrightarrow>
   words_at m q n = map htons (words_at mem p n) \<Longrightarrow>
   ck m q (q + 2 * n) = map_option htons (ck mem p (p + 2 * n))"
  by (simp add: ck_region oc_sum_htons htons_NOT)

end

section \<open>Properties\<close>

text \<open>C28: \<open>checksum\<close> returns exactly when its end pointer lies a whole number of words behind
  its start and, unless the region is empty, inside the object. In every other case (an odd
  distance, an end before the start, an end outside the object) the pointer comparison never
  succeeds and the loop reads outside the object.\<close>

theorem checksum_defined:
  "syn_checksum mem startPoint endPoint \<noteq> None \<longleftrightarrow>
   (\<exists>n. endPoint = startPoint + 2 * n \<and> (n = 0 \<or> endPoint \<le> length mem))"
proof -
  have "syn_checksum mem startPoint endPoint \<noteq> None \<longleftrightarrow>
      checksum_loop True mem startPoint endPoint 0 0 [] \<noteq> None"
    by (auto simp: syn_checksum_def checksum_verbose_def split: option.splits)
  then show ?thesis by (simp only: checksum_loop_defined) simp
qed

text \<open>C17: over a region of whole words inside the object, the copies of \<open>checksum\<close> return the
  complement of the one's complement sum of the region's words, whatever they print.\<close>

theorem checksum_functional:
  assumes "p + 2 * n \<le> length mem"
  shows "map_option snd (syn_checksum mem p (p + 2 * n)) =
      Some (NOT (word_of_nat (oc_sum (words_at mem p n)))) \<and>
    map_option snd (eth_checksum mem p (p + 2 * n)) = map_option snd (syn_checksum mem p (p + 2 * n)) \<and>
    map_option snd (ping_checksum mem p (p + 2 * n)) = map_option snd (syn_checksum mem p (p + 2 * n)) \<and>
    tracert_checksum mem p (p + 2 * n) = map_option snd (syn_checksum mem p (p + 2 * n))"
  using assms
  by (simp add: syn_checksum_def eth_checksum_def ping_checksum_def checksum_verbose_value
      tracert_checksum_region)

theorem checksum_functional_witness:
  "4 + 2 * 2 \<le> length [9, 9, 9, 9, 0xf4, 0xf5, 0xf6, 0xf7 :: u8] \<and>
   map_option snd (syn_checksum [9, 9, 9, 9, 0xf4, 0xf5, 0xf6, 0xf7] 4 8) = Some 0x1214"
proof -
  have "4 + 2 * 2 \<le> length [9, 9, 9, 9, 0xf4, 0xf5, 0xf6, 0xf7 :: u8]" by simp
  moreover from checksum_functional [OF this]
  have "map_option snd (syn_checksum [9, 9, 9, 9, 0xf4, 0xf5, 0xf6, 0xf7] 4 8) =
      Some (NOT (word_of_nat (oc_sum (words_at [9, 9, 9, 9, 0xf4, 0xf5, 0xf6, 0xf7] 4 2))))"
    by simp
  moreover have "NOT (word_of_nat (oc_sum (words_at [9, 9, 9, 9, 0xf4, 0xf5, 0xf6, 0xf7] 4 2)))
      = (0x1214 :: u16)" by code_simp
  ultimately show ?thesis by simp
qed

text \<open>\<open>gen_crc16\<close> of the kernel module, over an index and without the cast, is the same
  function as the pointer loop of \<open>checksum\<close>, reads outside the object included.\<close>

theorem gen_crc16_is_checksum:
  assumes "n < 65536"
  shows "gen_crc16 mem p (word_of_nat n) = tracert_checksum mem p (p + 2 * n)"
  using assms by (rule gen_crc16_checksum)

theorem gen_crc16_is_checksum_witness:
  "(4 :: nat) < 65536 \<and>
   gen_crc16 [8, 0, 0, 0, 1, 2, 3, 4] 0 4 = tracert_checksum [8, 0, 0, 0, 1, 2, 3, 4] 0 8"
  using gen_crc16_is_checksum [of 4 "[8, 0, 0, 0, 1, 2, 3, 4]" 0] by simp

text \<open>Byte order independence: on an object whose words are the byte-swapped words of
  another, the checksum is the byte-swapped checksum. So the value the little-endian host
  stores is the one the network expects.\<close>

theorem checksum_byte_order:
  assumes "p + 2 * n \<le> length mem" and "q + 2 * n \<le> length m" and "n < 65536"
    and "words_at m q n = map htons (words_at mem p n)"
  shows "tracert_checksum m q (q + 2 * n) = map_option htons (tracert_checksum mem p (p + 2 * n))"
  using assms by (rule tracert_ck.ck_byte_order)

theorem checksum_byte_order_witness:
  "words_at [0x00, 0x45, 0x1c, 0x01] 0 2 = map htons (words_at [0x45, 0x00, 0x01, 0x1c] 0 2) \<and>
   tracert_checksum [0x00, 0x45, 0x1c, 0x01] 0 4 =
     map_option htons (tracert_checksum [0x45, 0x00, 0x01, 0x1c] 0 4)"
proof -
  have "words_at [0x00, 0x45, 0x1c, 0x01] 0 2 = map htons (words_at [0x45, 0x00, 0x01, 0x1c] 0 2)"
    by (simp add: numeral_2_eq_2)
  with checksum_byte_order [of 0 2 "[0x45, 0x00, 0x01, 0x1c]" 0 "[0x00, 0x45, 0x1c, 0x01]"]
  show ?thesis by simp
qed

end
