(* ===== verification/CLib.thy ===== *)
theory CLib
  imports Prelude
begin

text \<open>
  The parts of the C library the programs lean on: NUL-terminated strings in buffers,
  \<open>inet_addr\<close> on dotted quads, and the number conversions of \<open>sscanf\<close>. A buffer is the
  list of its bytes, as characters where the program treats it as text; what lies behind the
  terminator is part of the buffer.
\<close>

section \<open>Bytes and characters\<close>

definition byte_of_char :: "char \<Rightarrow> u8" where
  "byte_of_char c = word_of_nat (of_char c)"

definition char_of_byte :: "u8 \<Rightarrow> char" where
  "char_of_byte b = char_of (unat b)"

definition NUL :: char where
  "NUL = CHR 0x00"

lemma byte_char [simp]: "byte_of_char (char_of_byte b) = b"
  using u8_bound [of b]
  by (simp add: byte_of_char_def char_of_byte_def)

lemma char_byte [simp]: "char_of_byte (byte_of_char c) = c"
proof -
  have "(of_char c :: nat) < 256" by (cases c) (simp add: of_char_def)
  then have "unat (word_of_nat (of_char c) :: u8) = of_char c"
    by (simp add: unsigned_of_nat take_bit_nat_eq_self)
  then show ?thesis by (simp add: byte_of_char_def char_of_byte_def)
qed

lemma char_of_byte_0 [simp]: "char_of_byte 0 = NUL"
  by (simp add: char_of_byte_def NUL_def char_of_def)

section \<open>Strings in buffers\<close>

text \<open>The string a buffer holds: what comes before the first terminator.\<close>

definition cstr :: "string \<Rightarrow> string" where
  "cstr buf = takeWhile (\<lambda>c. c \<noteq> NUL) buf"

text \<open>Reading a string from a buffer without terminator runs out of the object.\<close>

definition strlen :: "string \<Rightarrow> nat option" where
  "strlen buf = (if NUL \<in> set buf then Some (length (cstr buf)) else None)"

text \<open>\<open>strcpy\<close>: the string and its terminator, when they fit; the tail of the buffer stays.\<close>

definition strcpy :: "string \<Rightarrow> string \<Rightarrow> string option" where
  "strcpy dst s =
     (if length s < length dst then Some (s @ NUL # drop (Suc (length s)) dst) else None)"

text \<open>Consecutive bytes stored from offset \<open>p\<close>.\<close>

fun store_bytes :: "nat \<Rightarrow> u8 list \<Rightarrow> u8 list \<Rightarrow> u8 list option" where
  "store_bytes p [] mem = Some mem"
| "store_bytes p (b # bs) mem =
     (case store8 p b mem of None \<Rightarrow> None | Some m \<Rightarrow> store_bytes (p + 1) bs m)"

definition store_string :: "nat \<Rightarrow> string \<Rightarrow> u8 list \<Rightarrow> u8 list option" where
  "store_string p s = store_bytes p (map byte_of_char s @ [0])"

lemma cstr_append_NUL [simp]: "NUL \<notin> set s \<Longrightarrow> cstr (s @ NUL # t) = s"
  unfolding cstr_def by (subst takeWhile_append2) auto

lemma NUL_notin_cstr [simp]: "NUL \<notin> set (cstr buf)"
  by (auto simp: cstr_def dest: set_takeWhileD)

lemma cstr_split: "NUL \<in> set buf \<Longrightarrow> \<exists>t. buf = cstr buf @ NUL # t"
proof -
  assume "NUL \<in> set buf"
  then obtain t where "dropWhile (\<lambda>c. c \<noteq> NUL) buf = NUL # t"
    by (metis (mono_tags, lifting) dropWhile_eq_Nil_conv hd_dropWhile list.exhaust_sel)
  then show ?thesis
    using takeWhile_dropWhile_id [of "\<lambda>c. c \<noteq> NUL" buf] unfolding cstr_def by metis
qed

lemma length_strcpy: "strcpy dst s = Some d \<Longrightarrow> length d = length dst"
  by (auto simp: strcpy_def split: if_splits)

lemma cstr_strcpy: "strcpy dst s = Some d \<Longrightarrow> NUL \<notin> set s \<Longrightarrow> cstr d = s"
  by (auto simp: strcpy_def split: if_splits)

lemma store_bytes_length [mem_simps]: "store_bytes p bs mem = Some m \<Longrightarrow> length m = length mem"
  by (induction bs arbitrary: p mem) (auto simp: mem_simps split: option.splits)

section \<open>Reading from a descriptor\<close>

text \<open>A result of \<open>read\<close>: at least one byte, the end of the file, or a failure. Behind the last
  one listed the file is at its end.\<close>

datatype read_result = Bytes string | Eof | Failed

text \<open>The bytes that results of \<open>read\<close> deliver before the end.\<close>

fun delivered :: "read_result list \<Rightarrow> string" where
  "delivered (Bytes b # rs) = b @ delivered rs"
| "delivered _ = []"

section \<open>Internet addresses\<close>

fun split_on :: "char \<Rightarrow> string \<Rightarrow> string list" where
  "split_on c [] = [[]]"
| "split_on c (x # xs) =
     (if x = c then [] # split_on c xs
      else case split_on c xs of [] \<Rightarrow> [[x]] | y # ys \<Rightarrow> (x # y) # ys)"

definition is_digit :: "char \<Rightarrow> bool" where
  "is_digit c \<longleftrightarrow> 48 \<le> (of_char c :: nat) \<and> (of_char c :: nat) \<le> 57"

definition digit_val :: "char \<Rightarrow> nat" where
  "digit_val c = of_char c - 48"

definition decimal :: "string \<Rightarrow> nat" where
  "decimal s = foldl (\<lambda>n c. 10 * n + digit_val c) 0 s"

text \<open>
  \<open>inet_addr\<close> on \<open>a.b.c.d\<close> in decimal, the only form the sources pass it as a constant: the
  address in network byte order, as the \<open>in_addr_t\<close> of a little-endian host. Everything else
  is \<open>INADDR_NONE\<close> here; an address given on a command line is a parameter of the programs.
\<close>

definition inet_addr :: "string \<Rightarrow> u32" where
  "inet_addr s =
     (case split_on (CHR ''.'') s of
        [a, b, c, d] \<Rightarrow>
          if list_all (\<lambda>x. x \<noteq> [] \<and> list_all is_digit x \<and> decimal x < 256) [a, b, c, d]
          then le32 (word_of_nat (decimal a)) (word_of_nat (decimal b))
                    (word_of_nat (decimal c)) (word_of_nat (decimal d))
          else - 1
      | _ \<Rightarrow> - 1)"

section \<open>Numbers as text\<close>

lemma digits_value:
  "2 \<le> b \<Longrightarrow> foldl (\<lambda>a d. b * a + d) 0 (nat_digits b n) = n"
proof (induction b n rule: nat_digits.induct)
  case (1 b n)
  then show ?case by (subst nat_digits.simps) simp
qed

lemma digits_bound: "2 \<le> b \<Longrightarrow> d \<in> set (nat_digits b n) \<Longrightarrow> d < b"
proof (induction b n rule: nat_digits.induct)
  case (1 b n)
  from 1(3) 1(2) show ?case
    by (subst (asm) nat_digits.simps) (auto split: if_splits intro: 1(1))
qed

lemma digits_not_Nil [simp]: "nat_digits b n \<noteq> []"
  by (subst nat_digits.simps) simp

lemma digits_hd: "2 \<le> b \<Longrightarrow> 0 < n \<Longrightarrow> hd (nat_digits b n) \<noteq> 0"
proof (induction b n rule: nat_digits.induct)
  case (1 b n)
  then show ?case
    by (subst nat_digits.simps) (auto simp: hd_append div_greater_zero_iff)
qed

lemma digit_char_digit:
  "d < 10 \<Longrightarrow> is_digit (digit_char d)" "d < 10 \<Longrightarrow> digit_val (digit_char d) = d"
  by (simp_all add: is_digit_def digit_char_def digit_val_def)

lemma foldl_cong_list:
  "(\<And>a x. x \<in> set xs \<Longrightarrow> f a x = g a x) \<Longrightarrow> foldl f a xs = foldl g a xs"
  by (induction xs arbitrary: a) auto

lemma dec_nat: "dec (int n) = map digit_char (nat_digits 10 n)"
  by (simp add: dec_def)

lemma dec_digits: "list_all is_digit (dec (int n))"
  by (auto simp: dec_nat list_all_iff dest!: digits_bound [rotated] intro: digit_char_digit)

lemma decimal_dec [simp]: "decimal (dec (int n)) = n"
proof -
  have "decimal (dec (int n)) = foldl (\<lambda>a d. 10 * a + d) 0 (nat_digits 10 n)"
    unfolding decimal_def dec_nat foldl_map
    by (rule foldl_cong_list) (use digits_bound [of 10 _ n] in \<open>simp add: digit_char_digit\<close>)
  then show ?thesis using digits_value [of 10 n] by simp
qed

lemma dec_not_Nil [simp]: "dec (int n) \<noteq> []"
  by (simp add: dec_nat)

text \<open>What separates numbers, as \<open>isspace\<close>.\<close>

definition is_space :: "char \<Rightarrow> bool" where
  "is_space c \<longleftrightarrow> c \<in> {CHR '' '', CHR 0x09, CHR 0x0A, CHR 0x0B, CHR 0x0C, CHR 0x0D}"

lemma digit_not_space: "is_digit c \<Longrightarrow> \<not> is_space c"
  by (auto simp: is_digit_def is_space_def)

lemma digit_not_NUL: "is_digit c \<Longrightarrow> c \<noteq> NUL"
  by (auto simp: is_digit_def NUL_def)

lemma NUL_notin_dec [simp]: "NUL \<notin> set (dec (int n))"
  using dec_digits [of n] by (auto simp: list_all_iff dest!: digit_not_NUL)

lemma skip_dec: "dropWhile is_space (dec (int n) @ t) = dec (int n) @ t"
  using dec_digits [of n]
  by (cases "dec (int n)") (auto dest: digit_not_space)

lemma take_dec: "t = [] \<or> \<not> is_digit (hd t) \<Longrightarrow> takeWhile is_digit (dec (int n) @ t) = dec (int n)"
  using dec_digits [of n]
  by (cases t) (auto simp: list_all_iff takeWhile_append2 takeWhile_tail)

text \<open>
  \<open>sscanf\<close> in the kernel. \<open>%hu\<close>: white space, then decimal digits; the number is cut to 16
  bits. Without a digit nothing is assigned.
\<close>

definition scan_hu :: "string \<Rightarrow> u16 option" where
  "scan_hu s =
     (let ds = takeWhile is_digit (dropWhile is_space s)
      in if ds = [] then None else Some (word_of_nat (decimal ds)))"

text \<open>
  \<open>%i\<close>: white space, an optional minus sign, then a number whose radix its prefix tells:
  \<open>0x\<close> and a hexadecimal digit, \<open>0\<close> for octal, decimal otherwise. The result is cut to 32
  bits; what follows the number is left for the next conversion.
\<close>

definition xdigit_val :: "char \<Rightarrow> nat" where
  "xdigit_val c =
     (let n = of_char c :: nat in
      if 48 \<le> n \<and> n \<le> 57 then n - 48
      else if 97 \<le> n \<and> n \<le> 102 then n - 87
      else if 65 \<le> n \<and> n \<le> 70 then n - 55
      else 16)"

definition radix :: "string \<Rightarrow> nat \<times> string" where
  "radix s =
     (case s of
        c # x # h # t \<Rightarrow>
          if c = CHR ''0'' \<and> x \<in> {CHR ''x'', CHR ''X''} \<and> xdigit_val h < 16 then (16, h # t)
          else if c = CHR ''0'' then (8, s) else (10, s)
      | c # t \<Rightarrow> if c = CHR ''0'' then (8, s) else (10, s)
      | [] \<Rightarrow> (10, []))"

definition scan_i :: "string \<Rightarrow> (i32 \<times> string) option" where
  "scan_i s =
     (let t = dropWhile is_space s;
          neg = (t \<noteq> [] \<and> hd t = CHR ''-'');
          u = (if neg then tl t else t)
      in if u = [] \<or> \<not> is_digit (hd u) then None
         else
           let (b, v) = radix u;
               n = foldl (\<lambda>n c. b * n + xdigit_val c) 0 (takeWhile (\<lambda>c. xdigit_val c < b) v)
           in Some (word_of_int (if neg then - int n else int n), dropWhile (\<lambda>c. xdigit_val c < b) v))"

lemma scan_hu_dec: "t = [] \<or> \<not> is_digit (hd t) \<Longrightarrow> scan_hu (dec (int n) @ t) = Some (word_of_nat n)"
  by (simp add: scan_hu_def skip_dec take_dec)

lemma xdigit_digit: "is_digit c \<Longrightarrow> xdigit_val c = digit_val c"
  by (simp add: xdigit_val_def is_digit_def digit_val_def Let_def)

lemma xdigit_val_ge: "xdigit_val c < 10 \<Longrightarrow> is_digit c"
  by (auto simp: xdigit_val_def is_digit_def Let_def split: if_splits)

lemma digit_val_less: "is_digit c \<Longrightarrow> digit_val c < 10"
  by (auto simp: is_digit_def digit_val_def)

lemma zero_char: "char_of (48 :: nat) = CHR ''0''"
  by code_simp

lemma dec_0: "dec 0 = ''0''"
  by (simp add: dec_def nat_digits.simps digit_char_def zero_char)

lemma hd_dec_zero: "hd (dec (int n)) = CHR ''0'' \<longleftrightarrow> n = 0"
proof
  assume h: "hd (dec (int n)) = CHR ''0''"
  have "hd (nat_digits 10 n) < 10"
    by (rule digits_bound [of 10 _ n]) simp_all
  moreover have "digit_char (hd (nat_digits 10 n)) = CHR ''0''"
    using h by (simp add: dec_nat hd_map)
  ultimately have "hd (nat_digits 10 n) = 0"
    using digit_char_digit(2) [of "hd (nat_digits 10 n)"] by (simp add: digit_val_def)
  then show "n = 0" using digits_hd [of 10 n] by auto
next
  assume "n = 0"
  then show "hd (dec (int n)) = CHR ''0''"
    by (simp add: dec_0)
qed

lemma radix_dec:
  assumes "0 < n"
  shows "radix (dec (int n) @ t) = (10, dec (int n) @ t)"
proof -
  obtain c cs where c: "dec (int n) = c # cs" "c \<noteq> CHR ''0''"
    using hd_dec_zero [of n] assms by (cases "dec (int n)") auto
  then show ?thesis by (auto simp: radix_def split: list.split)
qed

text \<open>A printed number is read back, up to what follows it.\<close>

lemma scan_i_dec:
  assumes "t = [] \<or> is_space (hd t)"
  shows "scan_i (dec (int n) @ t) = Some (word_of_nat n, t)"
proof (cases "n = 0")
  case False
  have nt: "t = [] \<or> \<not> is_digit (hd t)" using assms digit_not_space by blast
  have eq: "(\<lambda>c. xdigit_val c < 10) = is_digit"
    by (rule ext) (auto dest: xdigit_val_ge simp: xdigit_digit digit_val_less)
  obtain c cs where c: "dec (int n) = c # cs" "is_digit c"
    using dec_digits [of n] by (cases "dec (int n)") auto
  have val: "foldl (\<lambda>a c. 10 * a + xdigit_val c) 0 (dec (int n)) = n"
  proof -
    have "foldl (\<lambda>a c. 10 * a + xdigit_val c) 0 (dec (int n)) = decimal (dec (int n))"
      unfolding decimal_def
      by (rule foldl_cong_list) (use dec_digits [of n] in \<open>auto simp: list_all_iff xdigit_digit\<close>)
    then show ?thesis by simp
  qed
  have "dropWhile is_digit (dec (int n) @ t) = t"
    using nt dec_digits [of n] by (cases t) (auto simp: list_all_iff dropWhile_append2)
  moreover have "c \<noteq> CHR ''-''" using c(2) by (auto simp: is_digit_def)
  ultimately show ?thesis
    using c radix_dec [of n t] False val take_dec [OF nt, of n] skip_dec [of n t]
    by (simp add: scan_i_def Let_def eq)
next
  case True
  have "radix (CHR ''0'' # t) = (8, CHR ''0'' # t)"
    using assms by (cases t; cases "tl t") (auto simp: radix_def is_space_def)
  moreover have "t = [] \<or> \<not> xdigit_val (hd t) < 8"
    using assms by (auto simp: is_space_def xdigit_val_def)
  then have "takeWhile (\<lambda>c. xdigit_val c < 8) (CHR ''0'' # t) = ''0''"
    "dropWhile (\<lambda>c. xdigit_val c < 8) (CHR ''0'' # t) = t"
    by (cases t; auto simp: xdigit_val_def)+
  moreover have "xdigit_val (CHR ''0'') = 0" "is_digit (CHR ''0'')" "\<not> is_space (CHR ''0'')"
    by (simp_all add: xdigit_val_def is_digit_def is_space_def)
  ultimately show ?thesis using True by (simp add: scan_i_def dec_0 Let_def)
qed

lemma length_nat_digits: "2 \<le> b \<Longrightarrow> n < b ^ k \<Longrightarrow> 0 < k \<Longrightarrow> length (nat_digits b n) \<le> k"
proof (induction b n arbitrary: k rule: nat_digits.induct)
  case (1 b n)
  show ?case
  proof (cases "n < b")
    case True
    with 1 show ?thesis by (subst nat_digits.simps) simp
  next
    case False
    with 1(2-4) obtain j where j: "k = Suc j" "0 < j"
      by (cases k; cases "k - 1") auto
    with 1(2,3) have "n div b < b ^ j" by (simp add: less_mult_imp_div_less mult.commute)
    with 1(1) [of j] 1(2) False j show ?thesis by (subst nat_digits.simps) simp
  qed
qed

end
