(* ===== verification/Packets.thy ===== *)
theory Packets
  imports Checksum CLib
begin

text \<open>
  The programs that build packets byte by byte and send them through raw sockets:
  the Ethernet frame of \<open>les27_channel_level\<close>, the SYN segment of \<open>les26_syn_storm\<close>, and the ICMP
  echo requests of \<open>ping.c\<close> and \<open>tracert.c\<close> in \<open>les28_ping_tracert\<close>. A packet is the list
  of its bytes; \<open>cp\<close>, \<open>sp\<close> and \<open>ip\<close> are the program's byte, short and int pointers as
  offsets, so \<open>sp[1]\<close> lies at \<open>sp + 2\<close> and \<open>ip[1]\<close> at \<open>ip + 4\<close>. What the kernel
  answers (\<open>errno\<close>, the datagrams received, the interface index) is a parameter.
\<close>

section \<open>The Ethernet frame\<close>

text \<open>\<open>struct packet\<close>: Ethernet 14, IP 20, UDP 8 and 256 bytes of data.\<close>

definition eth_packet_size :: nat where
  "eth_packet_size = 6 + 6 + 2 + 20 + 8 + 256"

text \<open>The stores of the Ethernet and IP headers, up to the destination address.\<close>

definition eth_headers :: "u8 list \<Rightarrow> u8 list option" where
  "eth_headers pck = do {
     let cp = 0;
     pck \<leftarrow> store8 cp 0xb8 pck;
     pck \<leftarrow> store8 (cp + 1) 0x27 pck;
     pck \<leftarrow> store8 (cp + 2) 0xeb pck;
     pck \<leftarrow> store8 (cp + 3) 0x20 pck;
     pck \<leftarrow> store8 (cp + 4) 0xe4 pck;
     pck \<leftarrow> store8 (cp + 5) 0x2c pck;
     pck \<leftarrow> store8 (cp + 6) 0x48 pck;
     pck \<leftarrow> store8 (cp + 7) 0x5d pck;
     pck \<leftarrow> store8 (cp + 8) 0x60 pck;
     pck \<leftarrow> store8 (cp + 9) 0x08 pck;
     pck \<leftarrow> store8 (cp + 10) 0x5d pck;
     pck \<leftarrow> store8 (cp + 11) 0x1f pck;
     let sp = cp + 12;
     pck \<leftarrow> store16 sp (htons 0x800) pck;
     let cp = sp + 2;
     pck \<leftarrow> store8 cp 0x45 pck;
     pck \<leftarrow> store8 (cp + 1) 0 pck;
     let sp = cp + 2;
     pck \<leftarrow> store16 sp (htons (20 + 256 + 8)) pck;
     pck \<leftarrow> store16 (sp + 2) (htons 4267) pck;
     let cp = sp + 4;
     pck \<leftarrow> store8 cp 0x40 pck;
     pck \<leftarrow> store8 (cp + 1) 0 pck;
     pck \<leftarrow> store8 (cp + 2) 64 pck;
     pck \<leftarrow> store8 (cp + 3) 17 pck;
     let sp = cp + 4;
     pck \<leftarrow> store16 sp 0 pck;
     let ip = sp + 2;
     pck \<leftarrow> store32 ip (inet_addr ''192.168.0.60'') pck;
     store32 (ip + 4) (inet_addr ''192.168.0.30'') pck
   }"

text \<open>The UDP header from offset \<open>sp\<close> and the data, \<open>buffer\<close> being at offset 42.\<close>

definition eth_udp :: "nat \<Rightarrow> u8 list \<Rightarrow> u8 list option" where
  "eth_udp sp pck = do {
     pck \<leftarrow> store16 sp (htons 1333) pck;
     pck \<leftarrow> store16 (sp + 2) (htons 1555) pck;
     pck \<leftarrow> store16 (sp + 4) (htons (256 + 8)) pck;
     pck \<leftarrow> store16 (sp + 6) 0 pck;
     store_string 42 ''Hello'' pck
   }"

text \<open>
  From \<open>bzero\<close> to \<open>strcpy(pck.buffer, "Hello")\<close>: what \<open>checksum\<close> prints and the packet.
  \<open>ipHeaderStart\<close> is offset 14, \<open>csum\<close> offset 24 and \<open>&ip[2]\<close> offset 34.
\<close>

definition eth_build :: "(string \<times> u8 list) option" where
  "eth_build = do {
     pck \<leftarrow> eth_headers (replicate eth_packet_size 0);
     (out, c) \<leftarrow> eth_checksum pck 14 34;
     pck \<leftarrow> store16 24 c pck;
     pck \<leftarrow> eth_udp 34 pck;
     Some (out, pck)
   }"

record sockaddr_ll =
  sll_family :: u16
  sll_protocol :: u16
  sll_ifindex :: i32
  sll_hatype :: u16
  sll_pkttype :: u8
  sll_halen :: u8
  sll_addr :: "u8 list"

definition AF_PACKET :: u16 where
  "AF_PACKET = 17"

text \<open>The zeroed \<open>sockaddr_ll\<close> and the fields \<open>main\<close> sets.\<close>

definition eth_sockaddr :: "i32 \<Rightarrow> sockaddr_ll" where
  "eth_sockaddr ifindex =
     \<lparr>sll_family = AF_PACKET, sll_protocol = 0, sll_ifindex = ifindex, sll_hatype = 0,
      sll_pkttype = 0, sll_halen = 6,
      sll_addr = (replicate 8 0)[0 := 0xb8, 1 := 0x27, 2 := 0xeb, 3 := 0x20, 4 := 0xe4, 5 := 0x2c]\<rparr>"

text \<open>
  \<open>main\<close>: the frame is built and sent once; \<open>ifindex\<close> is what \<open>if_nametoindex\<close> answers,
  \<open>errno\<close> its value after \<open>sendto\<close>, \<open>strerror\<close> its text.
\<close>

definition eth_main :: "i32 \<Rightarrow> int \<Rightarrow> (int \<Rightarrow> string)
    \<Rightarrow> (string \<times> u8 list \<times> sockaddr_ll) option" where
  "eth_main ifindex errno strerror = do {
     (out, pck) \<leftarrow> eth_build;
     let addr = eth_sockaddr ifindex;
     Some (if errno \<noteq> 0 then out @ ''Error '' @ strerror errno @ nl else out, pck, addr)
   }"



lemma inet_addr_60 [mem_eval]: "inet_addr ''192.168.0.60'' = le32 192 168 0 60"
  and inet_addr_30 [mem_eval]: "inet_addr ''192.168.0.30'' = le32 192 168 0 30"
  by (simp_all add: inet_addr_def is_digit_def digit_val_def decimal_def)

lemma eth_headers_eval:
  "eth_headers (replicate 48 0 @ t) = Some
     ([0xb8, 0x27, 0xeb, 0x20, 0xe4, 0x2c, 0x48, 0x5d, 0x60, 0x08, 0x5d, 0x1f, 0x08, 0x00,
       0x45, 0x00, 0x01, 0x1c, 0x10, 0xab, 0x40, 0x00, 0x40, 0x11, 0, 0,
       192, 168, 0, 60, 192, 168, 0, 30] @ replicate 14 0 @ t)"
  by (simp add: eth_headers_def mem_eval word_eval htons_def Let_def)

text \<open>A checksum routine's value from the evaluated words of its region.\<close>

lemma verbose_value:
  assumes "p + 2 * n \<le> length mem" and "e = p + 2 * n" and "oc_sum (words_at mem p n) = s"
    and "NOT (word_of_nat s) = v"
  shows "\<exists>out. checksum_verbose mem p e = Some (out, v)"
proof -
  have "map_option snd (checksum_verbose mem p e) = Some v"
    using assms by (simp add: checksum_verbose_value tracert_checksum_region)
  then show ?thesis by auto
qed

lemma eth_build_frame:
  "\<exists>out. eth_build = Some (out,
      [0xb8, 0x27, 0xeb, 0x20, 0xe4, 0x2c, 0x48, 0x5d, 0x60, 0x08, 0x5d, 0x1f, 0x08, 0x00] @
      [0x45, 0x00, 0x01, 0x1c, 0x10, 0xab, 0x40, 0x00, 0x40, 0x11, 0xa7, 0x7b,
       192, 168, 0, 60, 192, 168, 0, 30] @
      [0x05, 0x35, 0x06, 0x13, 0x01, 0x08, 0x00, 0x00] @
      map byte_of_char ''Hello'' @ replicate 251 0)"
proof -
  define h :: "u8 list" where "h = [0xb8, 0x27, 0xeb, 0x20, 0xe4, 0x2c, 0x48, 0x5d, 0x60, 0x08, 0x5d, 0x1f, 0x08, 0x00,
       0x45, 0x00, 0x01, 0x1c, 0x10, 0xab, 0x40, 0x00, 0x40, 0x11, 0, 0,
       192, 168, 0, 60, 192, 168, 0, 30] @ replicate 14 0 @ replicate 250 0"
  have "replicate eth_packet_size (0 :: u8) = replicate 48 0 @ replicate 250 0"
    by (simp add: eth_packet_size_def flip: replicate_add)
  then have h: "eth_headers (replicate eth_packet_size 0) = Some h"
    by (simp only: eth_headers_eval h_def)
  have sum: "oc_sum (words_at h 14 10) = 0x8458"
    by (simp add: h_def mem_eval word_eval oc_sum_def oc_norm_def)
  have len: "14 + 2 * 10 \<le> length h"
    by (simp add: h_def)
  obtain out where c: "eth_checksum h 14 34 = Some (out, 0x7ba7)"
    using verbose_value [OF len _ sum, of 34 "0x7ba7"] by (auto simp: eth_checksum_def)
  have "replicate 251 (0 :: u8) = 0 # replicate 250 0"
    by (simp add: mem_eval)
  then show ?thesis
    by (simp add: eth_build_def h c) (simp add: h_def eth_udp_def store_string_def mem_eval word_eval htons_def)
qed

section \<open>The SYN segment\<close>

text \<open>\<open>struct packet\<close>: IP 20, TCP 20 and 20 bytes of options.\<close>

definition syn_packet_size :: nat where
  "syn_packet_size = 20 + 20 + 20"

text \<open>The IP header of the zeroed packet; \<open>csum\<close> is offset 10, \<open>&ip[2]\<close> offset 20.\<close>

definition syn_ip_header :: "u8 list \<Rightarrow> u8 list option" where
  "syn_ip_header pck = do {
     let cp = 0;
     pck \<leftarrow> store8 cp 0x45 pck;
     pck \<leftarrow> store8 (cp + 1) 0 pck;
     let sp = cp + 2;
     pck \<leftarrow> store16 sp (htons 60) pck;
     pck \<leftarrow> store16 (sp + 2) (htons 1) pck;
     let cp = sp + 4;
     pck \<leftarrow> store8 cp 0x40 pck;
     pck \<leftarrow> store8 (cp + 1) 0 pck;
     pck \<leftarrow> store8 (cp + 2) 64 pck;
     pck \<leftarrow> store8 (cp + 3) 6 pck;
     let ip = cp + 4 + 2;
     pck \<leftarrow> store32 ip (inet_addr ''192.168.0.60'') pck;
     store32 (ip + 4) (inet_addr ''192.168.0.30'') pck
   }"

text \<open>The TCP header and its options from offset \<open>sp\<close>; \<open>csum\<close> is then \<open>sp + 16\<close>.\<close>

definition syn_tcp_header :: "nat \<Rightarrow> u8 list \<Rightarrow> u8 list option" where
  "syn_tcp_header sp pck = do {
     pck \<leftarrow> store16 sp (htons 1333) pck;
     pck \<leftarrow> store16 (sp + 2) (htons 1555) pck;
     let ip = sp + 4;
     pck \<leftarrow> store32 ip (htonl 10) pck;
     pck \<leftarrow> store32 (ip + 4) (htonl 0) pck;
     let cp = ip + 8;
     pck \<leftarrow> store8 cp (push_bit 5 5) pck;
     pck \<leftarrow> store8 (cp + 1) (push_bit 1 1) pck;
     let sp = cp + 2;
     pck \<leftarrow> store16 sp (htons 2048) pck;
     pck \<leftarrow> store16 (sp + 2) 0 pck;
     pck \<leftarrow> store16 (sp + 4) 0 pck;
     let cp = sp + 6;
     pck \<leftarrow> store8 cp 0x2 pck;
     pck \<leftarrow> store8 (cp + 1) 0x4 pck;
     let sp = cp + 2;
     pck \<leftarrow> store16 sp (htons 1460) pck;
     let cp = sp + 2;
     pck \<leftarrow> store8 cp 0x4 pck;
     pck \<leftarrow> store8 (cp + 1) 0x2 pck;
     pck \<leftarrow> store8 (cp + 2) 0x8 pck;
     pck \<leftarrow> store8 (cp + 3) 0xA pck;
     let ip = cp + 4;
     pck \<leftarrow> store32 ip (htonl 12345) pck;
     pck \<leftarrow> store32 (ip + 4) 0 pck;
     let cp = ip + 8;
     pck \<leftarrow> store8 cp 0x1 pck;
     pck \<leftarrow> store8 (cp + 1) 0x3 pck;
     pck \<leftarrow> store8 (cp + 2) 0x3 pck;
     store8 (cp + 3) 0x7 pck
   }"

text \<open>
  The bit fields of the two packed structs, least significant bits first, as the compiler for
  a little-endian host lays them out: in \<open>struct packet\<close>, \<open>dataOfft\<close> is the low half of byte
  32 and the IP \<open>flags\<close> the low three bits of byte 6; in \<open>struct tcp_pseudo_header\<close>, byte 24
  holds \<open>dataofft\<close> in its low and \<open>reserved\<close> in its high half.
\<close>

definition nibbles :: "u8 \<Rightarrow> u8 \<Rightarrow> u8" where
  "nibbles lo hi = (lo AND 15) OR push_bit 4 (hi AND 15)"

text \<open>The \<open>n\<close> bytes of a field copied from one struct to the other.\<close>

definition copy_field :: "u8 list \<Rightarrow> nat \<Rightarrow> nat \<Rightarrow> nat \<Rightarrow> u8 list \<Rightarrow> u8 list option" where
  "copy_field src q n p dst =
     (if q + n \<le> length src then store_bytes p (take n (drop q src)) dst else None)"

text \<open>
  The pseudo header \<open>tph\<close>, a local struct of 52 bytes that is not initialised: \<open>tph\<close> is what
  the stack held. \<open>zeros\<close> (offset 8) and \<open>flags\<close> (offset 25) are never assigned, and
  \<open>strcpy(tph.opts, pck.opts)\<close> copies the options up to the first zero byte only.
\<close>

definition syn_pseudo :: "u8 list \<Rightarrow> u8 list \<Rightarrow> u8 list option" where
  "syn_pseudo pck tph = do {
     tph \<leftarrow> store32 0 (inet_addr ''192.168.0.60'') tph;
     tph \<leftarrow> store32 4 (inet_addr ''192.168.0.30'') tph;
     tph \<leftarrow> store8 9 0x6 tph;
     tph \<leftarrow> store16 10 (htons 40) tph;
     tph \<leftarrow> store16 12 (htons 1333) tph;
     tph \<leftarrow> store16 14 (htons 1555) tph;
     tph \<leftarrow> copy_field pck 24 4 16 tph;
     tph \<leftarrow> copy_field pck 28 4 20 tph;
     dataOfft \<leftarrow> load8 pck 32;
     flags \<leftarrow> load8 pck 6;
     tph \<leftarrow> store8 24 (nibbles dataOfft (flags AND 7)) tph;
     tph \<leftarrow> copy_field pck 34 2 26 tph;
     tph \<leftarrow> store16 28 0 tph;
     tph \<leftarrow> copy_field pck 38 2 30 tph;
     store_bytes 32 (takeWhile (\<lambda>b. b \<noteq> 0) (drop 40 pck) @ [0]) tph
   }"

text \<open>
  \<open>main\<close> up to \<open>sendto\<close>: the printed text and the packet. \<open>stack\<close> is the content of the
  uninitialised \<open>tph\<close>; \<open>errno1\<close> and \<open>errno2\<close> are read before and after sending.
\<close>

definition syn_build :: "u8 list \<Rightarrow> (string \<times> u8 list) option" where
  "syn_build stack = do {
     pck \<leftarrow> syn_ip_header (replicate syn_packet_size 0);
     (out1, c) \<leftarrow> syn_checksum pck 0 20;
     pck \<leftarrow> store16 10 c pck;
     pck \<leftarrow> syn_tcp_header 20 pck;
     tph \<leftarrow> syn_pseudo pck stack;
     (out2, c) \<leftarrow> syn_checksum tph 0 52;
     pck \<leftarrow> store16 36 c pck;
     Some (out1 @ out2, pck)
   }"

definition syn_main :: "u8 list \<Rightarrow> int \<Rightarrow> int \<Rightarrow> (int \<Rightarrow> string) \<Rightarrow> (string \<times> u8 list) option" where
  "syn_main stack errno1 errno2 strerror = do {
     (out, pck) \<leftarrow> syn_build stack;
     let out = out @ ''Size of pck = '' @ dec (int syn_packet_size) @ nl;
     let out = (if errno1 \<noteq> 0 then out @ ''Error '' @ strerror errno1 @ nl else out);
     Some (if errno2 \<noteq> 0 then out @ ''Error '' @ strerror errno2 @ nl else out, pck)
   }"

lemma syn_ip_header_eval:
  "syn_ip_header (replicate 20 0 @ t) = Some
     ([0x45, 0, 0, 60, 0, 1, 0x40, 0, 64, 6, 0, 0, 192, 168, 0, 60, 192, 168, 0, 30] @ t)"
  by (simp add: syn_ip_header_def mem_eval word_eval htons_def Let_def)

definition syn_ip_bytes :: "u8 list" where
  "syn_ip_bytes =
     [0x45, 0, 0, 60, 0, 1, 0x40, 0, 64, 6, 0xb9, 0x10, 192, 168, 0, 60, 192, 168, 0, 30]"

definition syn_tcp_bytes :: "u8 list" where
  "syn_tcp_bytes =
     [0x05, 0x35, 0x06, 0x13, 0, 0, 0, 10, 0, 0, 0, 0, 0xA0, 2, 8, 0, 0, 0, 0, 0,
      2, 4, 0x05, 0xb4, 4, 2, 8, 10, 0, 0, 0x30, 0x39, 0, 0, 0, 0, 1, 3, 3, 7]"

lemma syn_tcp_header_eval:
  "syn_tcp_header 20 (syn_ip_bytes @ replicate 40 0) = Some (syn_ip_bytes @ syn_tcp_bytes)"
  by (simp add: syn_tcp_header_def syn_ip_bytes_def syn_tcp_bytes_def mem_eval word_eval
      htons_def htonl_def Let_def)

lemma syn_ip_checksum_eval:
  "\<exists>out. do { pck \<leftarrow> syn_ip_header (replicate syn_packet_size 0);
            (out, c) \<leftarrow> syn_checksum pck 0 20; pck \<leftarrow> store16 10 c pck; Some (out, pck) } =
     Some (out, syn_ip_bytes @ replicate 40 0)"
proof -
  define h :: "u8 list" where
    "h = [0x45, 0, 0, 60, 0, 1, 0x40, 0, 64, 6, 0, 0, 192, 168, 0, 60, 192, 168, 0, 30] @ replicate 40 0"
  have "replicate syn_packet_size (0 :: u8) = replicate 20 0 @ replicate 40 0"
    by (simp add: syn_packet_size_def flip: replicate_add)
  then have h: "syn_ip_header (replicate syn_packet_size 0) = Some h"
    by (simp only: syn_ip_header_eval h_def)
  have sum: "oc_sum (words_at h 0 10) = 0xef46"
    by (simp add: h_def mem_eval word_eval oc_sum_def oc_norm_def)
  have len: "0 + 2 * 10 \<le> length h"
    by (simp add: h_def)
  obtain out where c: "syn_checksum h 0 20 = Some (out, 0x10b9)"
    using verbose_value [OF len _ sum, of 20 "0x10b9"] by (auto simp: syn_checksum_def)
  show ?thesis
    by (simp add: h c) (simp add: h_def syn_ip_bytes_def mem_eval word_eval)
qed

text \<open>The pseudo header that \<open>main\<close> fills, over whatever the stack held.\<close>

definition syn_pseudo_bytes :: "u8 list \<Rightarrow> u8 list" where
  "syn_pseudo_bytes stack =
     [192, 168, 0, 60, 192, 168, 0, 30, stack ! 8, 6, 0, 40,
      0x05, 0x35, 0x06, 0x13, 0, 0, 0, 10, 0, 0, 0, 0, 0, stack ! 25, 8, 0, 0, 0, 0, 0,
      2, 4, 0x05, 0xb4, 4, 2, 8, 10, 0, stack ! 41, stack ! 42, stack ! 43, stack ! 44,
      stack ! 45, stack ! 46, stack ! 47, stack ! 48, stack ! 49, stack ! 50, stack ! 51]"

lemma syn_pseudo_eval:
  assumes "length stack = 52"
  shows "syn_pseudo (syn_ip_bytes @ syn_tcp_bytes) stack = Some (syn_pseudo_bytes stack)"
proof -
  define f where "f = (!) stack"
  have "stack = map f [0..<52]" using map_nth [of stack] assms by (simp add: f_def)
  moreover have "[0..<52] = [0, 1, 2, 3, 4, 5, 6, 7, 8, 9, 10, 11, 12, 13, 14, 15, 16, 17, 18, 19,
      20, 21, 22, 23, 24, 25, 26, 27, 28, 29, 30, 31, 32, 33, 34, 35, 36, 37, 38, 39,
      40, 41, 42, 43, 44, 45, 46, 47, 48, 49, 50, 51 :: nat]"
    by code_simp
  ultimately have stack: "stack = [f 0, f 1, f 2, f 3, f 4, f 5, f 6, f 7, f 8, f 9, f 10, f 11, f 12,
      f 13, f 14, f 15, f 16, f 17, f 18, f 19, f 20, f 21, f 22, f 23, f 24, f 25, f 26, f 27,
      f 28, f 29, f 30, f 31, f 32, f 33, f 34, f 35, f 36, f 37, f 38, f 39, f 40, f 41, f 42,
      f 43, f 44, f 45, f 46, f 47, f 48, f 49, f 50, f 51]"
    by simp
  show ?thesis
    unfolding syn_pseudo_bytes_def f_def [symmetric]
    by (subst stack) (simp add: syn_pseudo_def syn_ip_bytes_def syn_tcp_bytes_def copy_field_def
        load8_def mem_eval word_eval htons_def nibbles_def Let_def)
qed

text \<open>
  What a TCP receiver sums: the pseudo header (addresses, zero, protocol, segment length) and
  the segment with its checksum.
\<close>

definition tcp_receiver_sum :: "u8 list \<Rightarrow> nat" where
  "tcp_receiver_sum pck =
     oc_sum (words_at pck 12 4 @ [le16 0 (pck ! 9), htons (word_of_nat (length pck - 20))]
             @ words_at pck 20 ((length pck - 20) div 2))"

text \<open>The stack bytes that \<open>main\<close> leaves in the pseudo header, as they enter the sum.\<close>

definition syn_leftover :: "u8 list \<Rightarrow> nat" where
  "syn_leftover stack =
     unat (stack ! 8) + 256 * unat (stack ! 25) + 256 * unat (stack ! 41)
     + sum_list (map unat (words_at stack 42 5))"

definition syn_constant :: nat where
  "syn_constant = sum_list (map unat (words_at (syn_pseudo_bytes (replicate 52 0)) 0 26))"

lemma syn_pseudo_sum:
  "sum_list (map unat (words_at (syn_pseudo_bytes stack) 0 26)) = syn_constant + syn_leftover stack"
proof -
  have "words_at stack 42 5 = [le16 (stack ! 42) (stack ! 43), le16 (stack ! 44) (stack ! 45),
      le16 (stack ! 46) (stack ! 47), le16 (stack ! 48) (stack ! 49), le16 (stack ! 50) (stack ! 51)]"
    by (simp add: numeral_eq_Suc)
  then show ?thesis
    by (simp add: syn_constant_def syn_leftover_def syn_pseudo_bytes_def mem_eval unat_le16)
qed

lemma syn_constant_eval: "syn_constant = 192422"
  by (simp add: syn_constant_def syn_pseudo_bytes_def mem_eval unat_le16)

lemma mod_add_self_iff: "(n + l) mod m = l mod m \<longleftrightarrow> n mod m = (0 :: nat)"
  using mod_eq_dvd_iff_nat [of l "n + l" m] by (simp add: dvd_eq_mod_eq_0)

text \<open>Sum \<open>r\<close> of the receiver against the complement of the sender's sum \<open>k\<close>.\<close>

lemma receiver_residue:
  assumes "0 < r" and "r = k + d"
  shows "oc_norm (r + (65535 - oc_norm (k + l))) = 65535 \<longleftrightarrow> l mod 65535 = d mod 65535"
proof -
  define n where "n = r + (65535 - oc_norm (k + l))"
  obtain q where "k + l = oc_norm (k + l) + 65535 * q"
    using oc_norm_dvd [of "k + l"] oc_norm_le_self [of "k + l"]
    by (metis dvdE le_add_diff_inverse)
  then have "n + l = d + 65535 * (q + 1)"
    using assms(2) oc_norm_le [of "k + l"] by (simp add: n_def)
  then have "(n + l) mod 65535 = d mod 65535" by (simp only: mod_mult_self2)
  then have "n mod 65535 = 0 \<longleftrightarrow> l mod 65535 = d mod 65535"
    using mod_add_self_iff [of n l 65535] by (metis (no_types))
  then show ?thesis using assms(1) by (simp add: oc_norm_full n_def)
qed

lemma tcp_receiver_sum_syn:
  "tcp_receiver_sum (syn_ip_bytes @ syn_tcp_bytes[16 := lo8 c, 17 := hi8 c]) =
     oc_norm (210298 + unat c)"
proof -
  have "unat (le16 (lo8 c) (hi8 c)) = unat c" by simp
  then show ?thesis
    by (simp add: tcp_receiver_sum_def syn_ip_bytes_def syn_tcp_bytes_def mem_eval unat_le16
        oc_sum_def htons_def unat_parts [of c]) (simp add: word_eval)
qed

text \<open>C29: the SYN segment. For every content of the uninitialised stack, \<open>main\<close> builds a packet
  whose IP header checksum verifies; but the TCP checksum verifies at the receiver only when
  the bytes that happened to lie in the stack have one certain sum. The code leaves the pseudo
  header's zero byte and flags unset, stores a zero data offset and copies the options with
  \<open>strcpy\<close>, which stops at their first zero byte.\<close>

theorem syn_segment_checksums:
  assumes "length stack = 52"
  shows "\<exists>out pck. syn_build stack = Some (out, pck) \<and> length pck = syn_packet_size
    \<and> map_option snd (syn_checksum pck 0 20) = Some 0
    \<and> (tcp_receiver_sum pck = 65535 \<longleftrightarrow> syn_leftover stack mod 65535 = 17876)"
proof -
  let ?tph = "syn_pseudo_bytes stack"
  define s where "s = oc_sum (words_at ?tph 0 26)"
  define c :: u16 where "c = NOT (word_of_nat s)"
  define pck where "pck = syn_ip_bytes @ syn_tcp_bytes[16 := lo8 c, 17 := hi8 c]"
  obtain out1 where ip: "do { pck \<leftarrow> syn_ip_header (replicate syn_packet_size 0);
      (out, c) \<leftarrow> syn_checksum pck 0 20; pck \<leftarrow> store16 10 c pck; Some (out, pck) } =
     Some (out1, syn_ip_bytes @ replicate 40 0)"
    using syn_ip_checksum_eval by blast
  have len: "0 + 2 * 26 \<le> length ?tph" by (simp add: syn_pseudo_bytes_def)
  obtain out2 where tcp: "syn_checksum ?tph 0 52 = Some (out2, c)"
    using verbose_value [OF len _ s_def [symmetric], of 52 c]
    by (auto simp: syn_checksum_def c_def)
  have "store16 36 c (syn_ip_bytes @ syn_tcp_bytes) = Some pck"
    by (simp add: pck_def syn_ip_bytes_def syn_tcp_bytes_def mem_eval)
  with ip tcp have build: "syn_build stack = Some (out1 @ out2, pck)"
    by (auto simp: syn_build_def syn_tcp_header_eval syn_pseudo_eval [OF assms]
        bind_eq_Some_conv split: prod.splits)
  have ok: "map_option snd (syn_checksum pck 0 20) = Some 0"
    using syn_ck.ck_zero_iff [of 0 10 pck]
    by (simp add: pck_def syn_ip_bytes_def mem_eval oc_sum_def unat_le16 oc_norm_def)
  have "unat c = 65535 - oc_norm (192422 + syn_leftover stack)"
    by (simp add: c_def s_def unat_compl16 unat_oc_word)
      (simp add: oc_sum_def syn_pseudo_sum syn_constant_eval)
  then have "tcp_receiver_sum pck = 65535 \<longleftrightarrow> syn_leftover stack mod 65535 = 17876 mod 65535"
    unfolding pck_def tcp_receiver_sum_syn by (simp only:) (rule receiver_residue, simp_all)
  then show ?thesis
    using build ok by (auto simp: pck_def syn_ip_bytes_def syn_tcp_bytes_def syn_packet_size_def)
qed

text \<open>On a zeroed stack the receiver drops the segment.\<close>

theorem syn_segment_checksums_witness:
  "length (replicate 52 (0 :: u8)) = 52 \<and>
   (\<exists>out pck. syn_build (replicate 52 0) = Some (out, pck)
      \<and> map_option snd (syn_checksum pck 0 20) = Some 0 \<and> tcp_receiver_sum pck \<noteq> 65535)"
proof -
  have len: "length (replicate 52 (0 :: u8)) = 52" by simp
  have "syn_leftover (replicate 52 0) mod 65535 \<noteq> 17876"
    by code_simp
  with len syn_segment_checksums [OF len] show ?thesis by auto
qed

section \<open>The Ethernet frame, checked\<close>

text \<open>\<open>main\<close> of \<open>les27_channel_level\<close> sends one frame of the size of \<open>struct packet\<close>: its
  destination address is the one in the socket address, its IP header checksum verifies, the IP
  and UDP length fields count the bytes that follow them, and the data is \<open>"Hello"\<close>.\<close>

theorem eth_frame_wellformed:
  "\<exists>out pck. eth_main ifindex errno strerror = Some (out, pck, eth_sockaddr ifindex)
    \<and> length pck = eth_packet_size
    \<and> take 6 pck = take (unat (sll_halen (eth_sockaddr ifindex))) (sll_addr (eth_sockaddr ifindex))
    \<and> map_option snd (eth_checksum pck 14 34) = Some 0
    \<and> load16 pck 16 = Some (htons (word_of_nat (length pck - 14)))
    \<and> load16 pck 38 = Some (htons (word_of_nat (length pck - 34)))
    \<and> cstr (map char_of_byte (drop 42 pck)) = ''Hello''"
proof -
  obtain out where b: "eth_build = Some (out,
      [0xb8, 0x27, 0xeb, 0x20, 0xe4, 0x2c, 0x48, 0x5d, 0x60, 0x08, 0x5d, 0x1f, 0x08, 0x00] @
      [0x45, 0x00, 0x01, 0x1c, 0x10, 0xab, 0x40, 0x00, 0x40, 0x11, 0xa7, 0x7b,
       192, 168, 0, 60, 192, 168, 0, 30] @
      [0x05, 0x35, 0x06, 0x13, 0x01, 0x08, 0x00, 0x00] @
      map byte_of_char ''Hello'' @ replicate 251 0)" (is "_ = Some (out, ?p)")
    using eth_build_frame by blast
  define p where "p = ?p"
  have len: "length p = 298" by (simp add: p_def)
  have ok: "map_option snd (eth_checksum p 14 34) = Some 0"
    using eth_ck.ck_zero_iff [of 14 10 p] len
    by (simp add: p_def mem_eval oc_sum_def unat_le16 oc_norm_def)
  have fields: "load16 p 16 = Some (htons 284)" "load16 p 38 = Some (htons 264)"
    by (simp_all add: p_def load16_def htons_def word_eval)
  have hello: "cstr (map char_of_byte (drop 42 p)) = ''Hello''"
    by (simp add: p_def mem_eval cstr_def NUL_def)
  have addr: "take 6 p = take (unat (sll_halen (eth_sockaddr ifindex))) (sll_addr (eth_sockaddr ifindex))"
    by (simp add: p_def eth_sockaddr_def mem_eval)
  show ?thesis
    using len ok fields hello addr
    by (simp add: eth_main_def b [folded p_def] eth_packet_size_def)
qed

section \<open>ping\<close>

text \<open>
  The echo request of \<open>ping.c\<close>: \<open>struct packet pck\<close> is 8 bytes of stack that are not
  initialised; \<open>main\<close> sets type and code and takes the checksum over all of it.
\<close>

definition ping_build :: "u8 list \<Rightarrow> (string \<times> u8 list) option" where
  "ping_build pck = do {
     pck \<leftarrow> store8 0 8 pck;
     pck \<leftarrow> store8 1 0 pck;
     (out, c) \<leftarrow> ping_checksum pck 0 8;
     pck \<leftarrow> store16 2 c pck;
     Some (out, pck)
   }"

definition dashes :: string where
  "dashes = replicate 32 (CHR ''-'')"

text \<open>
  \<open>main\<close>: text printed, packet sent, exit status. \<open>target\<close> is the last argument, \<open>stack\<close>
  the content of \<open>pck\<close>, \<open>rcv\<close> the 28 bytes of \<open>struct rcvpacket\<close> after \<open>recvfrom\<close>.
\<close>

definition ping_main :: "int \<Rightarrow> string \<Rightarrow> u8 list \<Rightarrow> u8 list
    \<Rightarrow> (string \<times> u8 list option \<times> int) option" where
  "ping_main argc target stack rcv =
     (if argc = 1 then Some (''No address is given'', None, - 15)
      else do {
        (out, pck) \<leftarrow> ping_build stack;
        code \<leftarrow> load8 rcv 21;
        type \<leftarrow> load8 rcv 20;
        let out = ''Ping to '' @ target @ nl @ dashes @ out @ dashes @ nl
          @ ''Res code = '' @ dec (uint code) @ '' (res type = '' @ dec (uint type) @ '')'' @ nl;
        Some (if type = 0 then out @ ''Ping successfull'' @ nl else out, Some pck, 0)
      })"

text \<open>The request of \<open>ping.c\<close>: whatever the stack held, a packet is sent, and its checksum
  verifies exactly when the checksum field of the uninitialised packet happened to hold one of
  the two zeros of one's complement arithmetic. The field is never cleared before the sum.\<close>

theorem ping_checksum_stale:
  assumes "length stack = 8"
  shows "\<exists>out pck. ping_build stack = Some (out, pck) \<and> length pck = 8
    \<and> take 2 pck = [8, 0] \<and> drop 4 pck = drop 4 stack
    \<and> (map_option snd (ping_checksum pck 0 8) = Some 0 \<longleftrightarrow>
         le16 (stack ! 2) (stack ! 3) \<in> {0, 0xFFFF})"
proof -
  obtain b0 b1 b2 b3 t where stack: "stack = b0 # b1 # b2 # b3 # t" "length t = 4"
    using assms by (auto simp: length_Suc_conv numeral_eq_Suc)
  define m where "m = 8 # 0 # b2 # b3 # t"
  have len: "0 + 2 * 4 \<le> length m" using stack by (simp add: m_def)
  obtain out c where c: "ping_checksum m 0 8 = Some (out, c)"
    using verbose_value [OF len _ refl refl, of 8] by (auto simp: ping_checksum_def)
  define p where "p = 8 # 0 # lo8 c # hi8 c # t"
  have store: "store16 (0 + 2 * 1) c m = Some p" and store2: "store16 2 c m = Some p"
    by (simp_all add: m_def p_def mem_eval)
  have build: "ping_build stack = Some (out, p)"
    using store2 c by (simp add: ping_build_def stack mem_eval flip: m_def)
  have w: "words_at m 0 4 ! 1 = le16 b2 b3" "words_at m 0 4 ! 0 = 8"
    by (simp_all add: words_at_nth m_def word_eval)
  then have "\<exists>j < 4. j \<noteq> 1 \<and> words_at m 0 4 ! j \<noteq> 0"
    by (intro exI [of _ 0]) simp
  with ping_ck.ck_store_verifies_iff [OF len _ _ _ store] c w
  have "map_option snd (ping_checksum p 0 8) = Some 0 \<longleftrightarrow> le16 b2 b3 \<in> {0, 0xFFFF}"
    by simp
  with build show ?thesis using stack by (simp add: p_def)
qed

theorem ping_checksum_stale_witness:
  "length [7, 7, 7, 7, 0, 1, 0, 1 :: u8] = 8 \<and>
   (\<exists>out pck. ping_build [7, 7, 7, 7, 0, 1, 0, 1] = Some (out, pck)
      \<and> map_option snd (ping_checksum pck 0 8) \<noteq> Some 0)"
proof -
  have len: "length [7, 7, 7, 7, 0, 1, 0, 1 :: u8] = 8" by simp
  have "le16 7 7 \<notin> {0, 0xFFFF}" by (simp add: word_eval)
  with ping_checksum_stale [OF len] show ?thesis by auto
qed

section \<open>tracert\<close>

text \<open>
  \<open>tracert.c\<close>: the zeroed 28-byte packet gets its IP header, the checksum of the header, and
  the ICMP echo request with its own checksum. \<open>dst\<close> is \<open>inet_addr(argv[argc-1])\<close>.
\<close>

definition tracert_ip_header :: "u32 \<Rightarrow> u8 list \<Rightarrow> u8 list option" where
  "tracert_ip_header dst pck = do {
     let cp = 0;
     pck \<leftarrow> store8 cp 0x45 pck;
     pck \<leftarrow> store8 (cp + 1) 0 pck;
     let sp = cp + 2;
     pck \<leftarrow> store16 sp (htons (20 + 256 + 8)) pck;
     pck \<leftarrow> store16 (sp + 2) (htons 4267) pck;
     let cp = sp + 4;
     pck \<leftarrow> store8 cp 0x40 pck;
     pck \<leftarrow> store8 (cp + 1) 0 pck;
     pck \<leftarrow> store8 (cp + 2) 1 pck;
     pck \<leftarrow> store8 (cp + 3) 1 pck;
     let sp = cp + 4;
     pck \<leftarrow> store16 sp 0 pck;
     let ip = sp + 2;
     pck \<leftarrow> store32 ip (inet_addr ''192.168.0.60'') pck;
     pck \<leftarrow> store32 (ip + 4) dst pck;
     c \<leftarrow> tracert_checksum pck 0 20;
     store16 sp c pck
   }"

definition tracert_icmp :: "u8 list \<Rightarrow> u8 list option" where
  "tracert_icmp pck = do {
     pck \<leftarrow> store8 20 8 pck;
     pck \<leftarrow> store8 21 0 pck;
     c \<leftarrow> tracert_checksum pck 20 28;
     store16 22 c pck
   }"

text \<open>
  The loop's variables. \<open>tr_pck\<close> is \<open>pck\<close>, whose byte 8 is \<open>ttl\<close>; \<open>tr_rcv\<close> is \<open>rcv\<close>, with
  the source address at 12, the ICMP type at 20 and the code at 21; \<open>tr_addr\<close> is
  \<open>addr.sin_addr\<close>, which \<open>recvfrom\<close> overwrites with the sender of the datagram; \<open>tr_sent\<close>
  lists the packets handed to \<open>sendto\<close>, each with the address it was sent to.
\<close>

record trace =
  tr_pck :: "u8 list"
  tr_rcv :: "u8 list"
  tr_addr :: u32
  tr_count :: int
  tr_out :: string
  tr_sent :: "(u8 list \<times> u32) list"

text \<open>
  What follows a probe: \<open>poll\<close> runs into its timeout, or it returns and \<open>recvfrom\<close> fills
  \<open>rcv\<close> with a datagram from an address. (\<open>poll\<close> is given \<open>&sock\<close>, an \<open>int\<close>, where it
  expects a \<open>struct pollfd\<close>, so which of the two happens is up to the stack and the network.)
\<close>

datatype probe_event = Timeout | Reply u32 "u8 list"

definition dotted :: "u8 \<Rightarrow> u8 \<Rightarrow> u8 \<Rightarrow> u8 \<Rightarrow> string" where
  "dotted a b c d = dec (uint a) @ ''.'' @ dec (uint b) @ ''.'' @ dec (uint c) @ ''.'' @ dec (uint d)"

text \<open>The line for a received datagram, by the \<open>switch\<close> on the ICMP type.\<close>

definition reply_line :: "int \<Rightarrow> u8 \<Rightarrow> u8 list \<Rightarrow> string" where
  "reply_line cnt type bytes =
     (let A = bytes ! 3; B = bytes ! 2; C = bytes ! 1; D = bytes ! 0 in
      if type = 11 then dec cnt @ '': '' @ dotted A B C D @ nl
      else if type = 3 then dec cnt @ '': destination unreachable'' @ nl
      else if type = 0 then dec cnt @ '': REACHED DESTINATION '' @ dotted A B C D @ nl
      else [])"

text \<open>One turn of \<open>while(rcv.icmp.type == 11)\<close>.\<close>

definition tracert_step :: "probe_event \<Rightarrow> trace \<Rightarrow> trace option" where
  "tracert_step e s = do {
     let sent = tr_sent s @ [(tr_pck s, tr_addr s)];
     (rcv, addr, line) \<leftarrow> (case e of
         Reply sender r \<Rightarrow> do {
           type \<leftarrow> load8 r 20;
           Some (r, sender, reply_line (tr_count s) type (take 4 (drop 12 r)))
         }
       | Timeout \<Rightarrow> Some (tr_rcv s, tr_addr s, dec (tr_count s) @ '': UNKNOWN'' @ nl));
     ttl \<leftarrow> load8 (tr_pck s) 8;
     pck \<leftarrow> store8 8 (ttl + 1) (tr_pck s);
     Some (s\<lparr>tr_sent := sent, tr_rcv := rcv, tr_addr := addr, tr_out := tr_out s @ line, tr_pck := pck,
             tr_count := tr_count s + 1\<rparr>)
   }"

definition tr_running :: "trace \<Rightarrow> bool" where
  "tr_running s \<longleftrightarrow> tr_rcv s ! 20 = 11"

fun tracert_loop :: "probe_event list \<Rightarrow> trace \<Rightarrow> trace option" where
  "tracert_loop [] s = Some s"
| "tracert_loop (e # es) s =
     (if tr_running s
      then case tracert_step e s of None \<Rightarrow> None | Some t \<Rightarrow> tracert_loop es t
      else Some s)"

text \<open>
  \<open>main\<close>: the state when the loop has used up the events or ended, and the exit status if it
  ended. \<open>stack\<close> is what the uninitialised \<open>rcv\<close> held before \<open>rcv.icmp.type = 11\<close>.
\<close>

definition tracert_main :: "int \<Rightarrow> string \<Rightarrow> u32 \<Rightarrow> int \<Rightarrow> (int \<Rightarrow> string) \<Rightarrow> u8 list
    \<Rightarrow> probe_event list \<Rightarrow> (trace \<times> int option) option" where
  "tracert_main argc target dst errno strerror stack events =
     (let s0 = \<lparr>tr_pck = [], tr_rcv = [], tr_addr = 0, tr_count = 0, tr_out = [], tr_sent = []\<rparr> in
      if argc = 1 then Some (s0\<lparr>tr_out := ''No address is given''\<rparr>, Some (- 15))
      else do {
        let out = ''Trace route to '' @ target @ nl;
        pck \<leftarrow> tracert_ip_header dst (replicate 28 0);
        if errno \<noteq> 0
        then Some (s0\<lparr>tr_out := out @ ''Error '' @ strerror errno @ nl, tr_pck := pck\<rparr>, Some 0)
        else do {
          pck \<leftarrow> tracert_icmp pck;
          rcv \<leftarrow> store8 20 11 stack;
          s \<leftarrow> tracert_loop events \<lparr>tr_pck = pck, tr_rcv = rcv, tr_addr = dst, tr_count = 1,
                 tr_out = out @ dashes @ dashes @ nl, tr_sent = []\<rparr>;
          if tr_running s then Some (s, None)
          else do {
            code \<leftarrow> load8 (tr_rcv s) 21;
            type \<leftarrow> load8 (tr_rcv s) 20;
            Some (s\<lparr>tr_out := tr_out s @ ''Res code = '' @ dec (uint code) @ '' (res type = ''
                   @ dec (uint type) @ '')'' @ nl\<rparr>, Some 0)
          }
        }
      })"

subsection \<open>The probes\<close>

text \<open>The packet of the first probe, over the destination and the two checksums.\<close>

definition tracert_packet :: "u32 \<Rightarrow> u16 \<Rightarrow> u8 \<Rightarrow> u8 list \<Rightarrow> u8 list" where
  "tracert_packet dst c ttl icmp =
     [0x45, 0, 0x01, 0x1c, 0x10, 0xab, 0x40, 0, ttl, 1, lo8 c, hi8 c, 192, 168, 0, 60,
      byte_of dst 0, byte_of dst 1, byte_of dst 2, byte_of dst 3] @ icmp"

definition echo_request :: "u8 list" where
  "echo_request = [8, 0, 0xf7, 0xff, 0, 0, 0, 0]"

lemma htons_consts: "htons 284 = le16 1 28" "htons 4267 = le16 0x10 0xab"
  by (simp_all add: htons_def word_eval)

lemma words_at_tracert:
  "words_at (tracert_packet dst c ttl icmp) 0 10 =
     [le16 0x45 0, le16 1 0x1c, le16 0x10 0xab, le16 0x40 0, le16 ttl 1, c, le16 192 168, le16 0 60,
      le16 (byte_of dst 0) (byte_of dst 1), le16 (byte_of dst 2) (byte_of dst 3)]"
  by (simp add: tracert_packet_def mem_eval)

lemma tracert_ip_header_eval:
  "\<exists>c. tracert_ip_header dst (replicate 20 0 @ t) = Some (tracert_packet dst c 1 t)
     \<and> tracert_checksum (tracert_packet dst c 1 t) 0 20 = Some 0"
proof -
  define h where "h = tracert_packet dst 0 1 t"
  have len: "0 + 2 * 10 \<le> length h" and n: "(10 :: nat) < 65536"
    by (simp_all add: h_def tracert_packet_def)
  obtain c where c: "tracert_checksum h 0 20 = Some c"
    using tracert_ck.ck_region [OF len n] by simp
  have store: "store16 (0 + 2 * 5) c h = Some (tracert_packet dst c 1 t)"
    by (simp add: h_def tracert_packet_def mem_eval)
  have "words_at h 0 10 ! 5 = 0" by (simp add: h_def words_at_tracert)
  with tracert_ck.ck_store_verifies [OF len n _ _ _ store] c
  have ok: "tracert_checksum (tracert_packet dst c 1 t) 0 20 = Some 0" by simp
  have "tracert_ip_header dst (replicate 20 0 @ t) =
      (do { c \<leftarrow> tracert_checksum h 0 20; store16 10 c h })"
    by (simp add: tracert_ip_header_def mem_eval htons_consts Let_def h_def tracert_packet_def)
  with c store ok show ?thesis by auto
qed

lemma tracert_icmp_eval:
  "tracert_icmp (tracert_packet dst c ttl (replicate 8 0)) = Some (tracert_packet dst c ttl echo_request)"
proof -
  define h where "h = tracert_packet dst c ttl [8, 0, 0, 0, 0, 0, 0, 0]"
  have sum: "oc_sum (words_at h 20 4) = 8"
    by (simp add: h_def tracert_packet_def mem_eval oc_sum_def unat_le16 oc_norm_def)
  have len: "20 + 2 * 4 \<le> length h" by (simp add: h_def tracert_packet_def)
  have c: "tracert_checksum h 20 28 = Some 0xfff7"
    using tracert_checksum_region [OF len] sum by simp
  have "tracert_icmp (tracert_packet dst c ttl (replicate 8 0)) =
      (do { c \<leftarrow> tracert_checksum h 20 28; store16 22 c h })"
    by (simp add: tracert_icmp_def tracert_packet_def mem_eval h_def)
  then show ?thesis
    by (simp add: c) (simp add: h_def tracert_packet_def echo_request_def mem_eval word_eval)
qed

text \<open>One turn of the loop, for complete replies.\<close>

definition final_event :: "probe_event \<Rightarrow> bool" where
  "final_event e \<longleftrightarrow> (case e of Timeout \<Rightarrow> False | Reply _ r \<Rightarrow> r ! 20 \<noteq> 11)"

definition complete_event :: "probe_event \<Rightarrow> bool" where
  "complete_event e \<longleftrightarrow> (case e of Timeout \<Rightarrow> True | Reply _ r \<Rightarrow> length r = 28)"

text \<open>The address the next probe goes to.\<close>

definition next_addr :: "u32 \<Rightarrow> probe_event \<Rightarrow> u32" where
  "next_addr a e = (case e of Timeout \<Rightarrow> a | Reply sender _ \<Rightarrow> sender)"

text \<open>
  The events of the probes sent: up to the first final one, it included, and the addresses
  these probes go to.
\<close>

fun probe_events :: "probe_event list \<Rightarrow> probe_event list" where
  "probe_events [] = []"
| "probe_events (e # es) = (if final_event e then [e] else e # probe_events es)"

fun probe_addrs :: "u32 \<Rightarrow> probe_event list \<Rightarrow> u32 list" where
  "probe_addrs a [] = []"
| "probe_addrs a (e # es) = a # probe_addrs (next_addr a e) es"

text \<open>The packets of \<open>n\<close> probes, the time to live counted up from \<open>ttl\<close> modulo 256.\<close>

fun probe_packets :: "u32 \<Rightarrow> u16 \<Rightarrow> u8 \<Rightarrow> nat \<Rightarrow> u8 list list" where
  "probe_packets dst c ttl 0 = []"
| "probe_packets dst c ttl (Suc n) =
     tracert_packet dst c ttl echo_request # probe_packets dst c (ttl + 1) n"

lemma length_probe_packets [simp]: "length (probe_packets dst c ttl n) = n"
  by (induction n arbitrary: ttl) auto

lemma nth_probe_packets:
  "k < n \<Longrightarrow> probe_packets dst c ttl n ! k = tracert_packet dst c (ttl + word_of_nat k) echo_request"
  by (induction n arbitrary: ttl k) (auto simp: nth_Cons add.assoc split: nat.splits)

lemma length_probe_addrs [simp]: "length (probe_addrs a es) = length es"
  by (induction es arbitrary: a) auto

lemma tracert_step_eval:
  assumes "tr_pck s = tracert_packet dst c ttl echo_request" and "complete_event e" and "tr_running s"
  shows "\<exists>t. tracert_step e s = Some t \<and> tr_sent t = tr_sent s @ [(tr_pck s, tr_addr s)]
    \<and> tr_pck t = tracert_packet dst c (ttl + 1) echo_request \<and> tr_addr t = next_addr (tr_addr s) e
    \<and> (tr_running t \<longleftrightarrow> \<not> final_event e) \<and> (length (tr_rcv s) = 28 \<longrightarrow> length (tr_rcv t) = 28)"
proof (cases e)
  case Timeout
  with assms show ?thesis
    by (simp add: tracert_step_def tracert_packet_def load8_def mem_eval final_event_def
        next_addr_def tr_running_def)
next
  case (Reply a r)
  with assms show ?thesis
    by (simp add: tracert_step_def tracert_packet_def load8_def mem_eval final_event_def
        complete_event_def next_addr_def tr_running_def)
qed

lemma tracert_loop_probes:
  assumes "list_all complete_event es" and "tr_pck s = tracert_packet dst c ttl echo_request"
    and "tr_running s" and "length (tr_rcv s) = 28"
  shows "\<exists>t. tracert_loop es s = Some t
    \<and> tr_sent t = tr_sent s @ zip (probe_packets dst c ttl (length (probe_events es)))
        (probe_addrs (tr_addr s) (probe_events es))
    \<and> (tr_running t \<longleftrightarrow> \<not> list_ex final_event es) \<and> length (tr_rcv t) = 28"
  using assms
proof (induction es arbitrary: s ttl)
  case (Cons e es)
  from Cons.prems tracert_step_eval [of s dst c ttl e] obtain t where
    t: "tracert_step e s = Some t" "tr_sent t = tr_sent s @ [(tr_pck s, tr_addr s)]"
      "tr_pck t = tracert_packet dst c (ttl + 1) echo_request" "tr_addr t = next_addr (tr_addr s) e"
      "tr_running t \<longleftrightarrow> \<not> final_event e" "length (tr_rcv t) = 28"
    by auto
  show ?case
  proof (cases "final_event e")
    case True
    with t have "tracert_loop es t = Some t" by (cases es) auto
    with True t Cons.prems show ?thesis by simp
  next
    case False
    with Cons.IH [of t "ttl + 1"] t Cons.prems show ?thesis by auto
  qed
qed simp

text \<open>What the header checksum of the first probe is worth for the later ones.\<close>

lemma tracert_ip_verifies:
  assumes "tracert_checksum (tracert_packet dst c 1 icmp) 0 20 = Some 0"
  shows "tracert_checksum (tracert_packet dst c (1 + ttl) icmp) 0 20 = Some 0 \<longleftrightarrow> ttl = 0"
proof (cases "ttl = 0")
  case False
  define m where "m = tracert_packet dst c 1 icmp"
  have len: "0 + 2 * 10 \<le> length m" and n: "(10 :: nat) < 65536"
    by (simp_all add: m_def tracert_packet_def)
  have store: "store16 (0 + 2 * 4) (le16 (1 + ttl) 1) m = Some (tracert_packet dst c (1 + ttl) icmp)"
    by (simp add: m_def tracert_packet_def mem_eval)
  have w: "words_at m 0 10 ! 4 = le16 1 1" by (simp add: m_def words_at_tracert)
  have ok: "tracert_checksum m 0 (0 + 2 * 10) = Some 0" using assms by (simp add: m_def)
  have "1 + ttl \<noteq> 1" using False by simp
  then have "unat (1 + ttl) \<noteq> unat (1 :: u8)" by (simp only: word_unat_eq_iff not_False_eq_True)
  then have "unat (le16 (1 + ttl) 1) mod 65535 \<noteq> unat (words_at m 0 10 ! 4) mod 65535"
    using u8_bound [of "1 + ttl"] by (simp add: w unat_le16)
  from tracert_ck.ck_detects [OF len n _ ok store this] False show ?thesis by simp
qed (simp add: assms)

lemma echo_request_verifies: "tracert_checksum (tracert_packet dst c ttl echo_request) 20 28 = Some 0"
proof -
  have "oc_sum (words_at (tracert_packet dst c ttl echo_request) 20 4) = 65535"
    by (simp add: tracert_packet_def echo_request_def mem_eval oc_sum_def unat_le16 oc_norm_def)
  then show ?thesis
    using tracert_ck.ck_zero_iff [of 20 4 "tracert_packet dst c ttl echo_request"]
    by (simp add: tracert_packet_def echo_request_def)
qed

lemma tracert_main_eval:
  assumes "argc \<noteq> 1" and "errno = 0" and "length stack = 28" and "list_all complete_event events"
  obtains c s where "tracert_checksum (tracert_packet dst c 1 echo_request) 0 20 = Some 0"
    and "map_option (\<lambda>(s, st). (tr_sent s, st)) (tracert_main argc target dst errno strerror stack events) =
      Some (zip (probe_packets dst c 1 (length (probe_events events))) (probe_addrs dst (probe_events events)),
            if list_ex final_event events then Some 0 else None)"
proof -
  have rep: "replicate 28 (0 :: u8) = replicate 20 0 @ replicate 8 0"
    by (simp flip: replicate_add)
  obtain c where c: "tracert_ip_header dst (replicate 28 0) = Some (tracert_packet dst c 1 (replicate 8 0))"
      "tracert_checksum (tracert_packet dst c 1 (replicate 8 0)) 0 20 = Some 0"
    using tracert_ip_header_eval [of dst "replicate 8 0"] by (auto simp: rep)
  have "words_at (tracert_packet dst c 1 echo_request) 0 10 = words_at (tracert_packet dst c 1 (replicate 8 0)) 0 10"
    by (simp add: words_at_tracert)
  then have ok: "tracert_checksum (tracert_packet dst c 1 echo_request) 0 20 = Some 0"
    using c(2) tracert_checksum_region [of 0 10 "tracert_packet dst c 1 echo_request"]
      tracert_checksum_region [of 0 10 "tracert_packet dst c 1 (replicate 8 0)"]
    by (simp add: tracert_packet_def)
  have rcv: "store8 20 11 stack = Some (stack[20 := 11])" using assms by (simp add: store8_def)
  define s0 where "s0 = \<lparr>tr_pck = tracert_packet dst c 1 echo_request, tr_rcv = stack[20 := 11],
    tr_addr = dst, tr_count = 1, tr_out = (''Trace route to '' @ target @ nl) @ dashes @ dashes @ nl,
    tr_sent = []\<rparr>"
  obtain t where t: "tracert_loop events s0 = Some t"
      "tr_sent t = zip (probe_packets dst c 1 (length (probe_events events))) (probe_addrs dst (probe_events events))"
      "tr_running t \<longleftrightarrow> \<not> list_ex final_event events" "length (tr_rcv t) = 28"
    using tracert_loop_probes [of events s0 dst c 1] assms
    by (auto simp: s0_def tr_running_def)
  have main: "map_option (\<lambda>(s, st). (tr_sent s, st)) (tracert_main argc target dst errno strerror stack events) =
      Some (tr_sent t, if tr_running t then None else Some 0)"
    using assms t(4) t(1) [unfolded s0_def]
    by (simp add: tracert_main_def c tracert_icmp_eval rcv load8_def del: append_assoc)
  show thesis
    by (rule that [OF ok]) (simp add: main t)
qed

text \<open>C18: the probes of \<open>tracert.c\<close>, for any sequence of timeouts and complete datagrams. The
  program ends exactly when a datagram other than \<open>time exceeded\<close> has arrived. Until then it
  sends one packet per event, the \<open>k\<close>-th with time to live \<open>1 + k\<close> modulo 256; each goes to
  the address the last datagram came from, not to the destination. The ICMP checksum of every
  probe verifies, the IP header checksum only where the time to live is the initial one: it is
  not computed again.\<close>

theorem tracert_probes:
  assumes "argc \<noteq> 1" and "length stack = 28" and "list_all complete_event events"
  shows "\<exists>packets s status.
    tracert_main argc target dst 0 strerror stack events = Some (s, status)
    \<and> tr_sent s = zip packets (probe_addrs dst (probe_events events))
    \<and> status = (if list_ex final_event events then Some 0 else None)
    \<and> length packets = length (probe_events events)
    \<and> (\<forall>k < length packets. packets ! k ! 8 = 1 + word_of_nat k
        \<and> tracert_checksum (packets ! k) 20 28 = Some 0
        \<and> (tracert_checksum (packets ! k) 0 20 = Some 0 \<longleftrightarrow> k mod 256 = 0))"
proof -
  obtain c where c: "tracert_checksum (tracert_packet dst c 1 echo_request) 0 20 = Some 0"
    and main: "map_option (\<lambda>(s, st). (tr_sent s, st)) (tracert_main argc target dst 0 strerror stack events) =
      Some (zip (probe_packets dst c 1 (length (probe_events events))) (probe_addrs dst (probe_events events)),
            if list_ex final_event events then Some 0 else None)"
    using tracert_main_eval [OF assms(1) refl assms(2,3)] by blast
  have ttl: "(word_of_nat k :: u8) = 0 \<longleftrightarrow> k mod 256 = 0" for k
    by (simp add: word_unat_eq_iff unsigned_of_nat take_bit_eq_mod)
  have "tracert_packet dst c t echo_request ! 8 = t" for t
    by (simp add: tracert_packet_def)
  with main tracert_ip_verifies [OF c] show ?thesis
    by (intro exI [of _ "probe_packets dst c 1 (length (probe_events events))"])
      (auto simp: nth_probe_packets ttl echo_request_verifies)
qed

text \<open>A timeout, a router, the destination: three probes, the third to the router.\<close>

theorem tracert_probes_witness:
  "\<exists>packets s. tracert_main 2 ''10.0.0.1'' 0x0100000A 0 (\<lambda>_. []) (replicate 28 0)
      [Timeout, Reply 7 ((replicate 28 0)[20 := 11]), Reply 9 (replicate 28 0), Timeout]
    = Some (s, Some 0)
   \<and> tr_sent s = zip packets [0x0100000A, 0x0100000A, 7]
   \<and> tracert_checksum (packets ! 1) 0 20 \<noteq> Some 0"
proof -
  have len: "length (replicate 28 (0 :: u8)) = 28" by simp
  have complete: "list_all complete_event
      [Timeout, Reply 7 ((replicate 28 0)[20 := 11]), Reply 9 (replicate 28 0), Timeout]"
    by (simp add: complete_event_def)
  have final: "\<not> final_event Timeout" "\<not> final_event (Reply 7 ((replicate 28 0)[20 := 11]))"
      "final_event (Reply 9 (replicate 28 0))"
    by (simp_all add: final_event_def)
  from tracert_probes [of 2, OF _ len complete, of "''10.0.0.1''" "0x0100000A" "\<lambda>_. []"]
  show ?thesis by (fastforce simp: final next_addr_def)
qed

end
