(* ===== verification/Kernel.thy ===== *)
theory Kernel
  imports CLib
begin

text \<open>
  What the kernel modules of \<open>les29_linux_modules\<close>, \<open>les30_firewall\<close> and
  \<open>les31_kernel_ping\<close> share: the calls they make into the kernel, recorded in order with the
  results the kernel gave, and what such a record says about the resources still held. A call
  that fails registers nothing; putting the last reference of a kobject removes its
  directory with the files in it (Documentation/core-api/kobject.rst).
\<close>

section \<open>Calls\<close>

datatype kobj_ref = ModuleKobj | KernelKobj

datatype kcall =
    NfRegister int
  | NfUnregister
  | KobjectCreate string
  | KobjectPut
  | SysfsCreate int
  | SysfsRemove kobj_ref
  | ProcCreate string
  | ProcRemove string
  | ChrdevRegister int
  | ChrdevUnregister
  | SockCreate int
  | SendMsg u32 "u8 list"
  | SockRelease
  | PrInfo string
  | Printk string

datatype verdict = NF_DROP | NF_ACCEPT

datatype resource = HookReg | KobjReg | FileReg | ProcReg | ChrReg | SockReg

fun kstep :: "kcall \<Rightarrow> (resource \<Rightarrow> bool) \<Rightarrow> resource \<Rightarrow> bool" where
  "kstep (NfRegister r) h = (if r = 0 then h(HookReg := True) else h)"
| "kstep NfUnregister h = h(HookReg := False)"
| "kstep (KobjectCreate n) h = h(KobjReg := True)"
| "kstep KobjectPut h = h(KobjReg := False, FileReg := False)"
| "kstep (SysfsCreate r) h = (if r = 0 then h(FileReg := True) else h)"
| "kstep (SysfsRemove k) h = (if k = ModuleKobj then h(FileReg := False) else h)"
| "kstep (ProcCreate n) h = h(ProcReg := True)"
| "kstep (ProcRemove n) h = h(ProcReg := False)"
| "kstep (ChrdevRegister r) h = (if 0 \<le> r then h(ChrReg := True) else h)"
| "kstep ChrdevUnregister h = h(ChrReg := False)"
| "kstep (SockCreate r) h = (if 0 \<le> r then h(SockReg := True) else h)"
| "kstep SockRelease h = h(SockReg := False)"
| "kstep (SendMsg a m) h = h"
| "kstep (PrInfo s) h = h"
| "kstep (Printk s) h = h"

text \<open>The resources held after a sequence of calls, none before.\<close>

definition held :: "kcall list \<Rightarrow> resource list" where
  "held calls = filter (fold kstep calls (\<lambda>_. False))
     [HookReg, KobjReg, FileReg, ProcReg, ChrReg, SockReg]"

text \<open>Whether a call uses the module's kobject after its reference was put.\<close>

fun uses_released :: "bool \<Rightarrow> kcall list \<Rightarrow> bool" where
  "uses_released released [] \<longleftrightarrow> False"
| "uses_released released (c # cs) \<longleftrightarrow>
     (case c of
        KobjectCreate _ \<Rightarrow> uses_released False cs
      | KobjectPut \<Rightarrow> released \<or> uses_released True cs
      | SysfsCreate _ \<Rightarrow> released \<or> uses_released released cs
      | SysfsRemove k \<Rightarrow> k = ModuleKobj \<and> released \<or> uses_released released cs
      | _ \<Rightarrow> uses_released released cs)"

section \<open>Output\<close>

text \<open>
  \<open>printk(s)\<close> with data as its format: \<open>%%\<close> prints a percent sign; any other conversion
  takes an argument that was not passed, which is undefined.
\<close>

fun printk_data :: "string \<Rightarrow> string option" where
  "printk_data [] = Some []"
| "printk_data (c # s) =
     (if c = CHR ''%'' then
        (case s of
           [] \<Rightarrow> None
         | d # t \<Rightarrow> if d = CHR ''%'' then map_option ((#) (CHR ''%'')) (printk_data t) else None)
      else map_option ((#) c) (printk_data s))"

lemma printk_data_plain: "CHR ''%'' \<notin> set s \<Longrightarrow> printk_data s = Some s"
  by (induction s rule: printk_data.induct) auto

text \<open>\<open>sprintf\<close> into a buffer of a given size: the text and its terminator must fit.\<close>

definition sprintf :: "nat \<Rightarrow> string \<Rightarrow> (string \<times> nat) option" where
  "sprintf room s = (if length s < room then Some (s, length s) else None)"

text \<open>\<open>PAGE_SIZE\<close>, the size of the buffer sysfs passes to an attribute's show function.\<close>

definition PAGE_SIZE :: nat where
  "PAGE_SIZE = 4096"

section \<open>Packets\<close>

text \<open>A socket buffer: its bytes, and where the network and transport headers begin.\<close>

record sk_buff =
  skb_data :: "u8 list"
  network_header :: nat
  transport_header :: nat

definition IPPROTO_ICMP :: u8 where "IPPROTO_ICMP = 1"
definition IPPROTO_TCP :: u8 where "IPPROTO_TCP = 6"
definition IPPROTO_UDP :: u8 where "IPPROTO_UDP = 17"

text \<open>\<open>ip_hdr(skb)->protocol\<close>, and the field at an offset of the transport header.\<close>

definition ip_protocol :: "sk_buff \<Rightarrow> u8 option" where
  "ip_protocol skb = load8 (skb_data skb) (network_header skb + 9)"

definition transport16 :: "sk_buff \<Rightarrow> nat \<Rightarrow> u16 option" where
  "transport16 skb off = load16 (skb_data skb) (transport_header skb + off)"

definition transport8 :: "sk_buff \<Rightarrow> nat \<Rightarrow> u8 option" where
  "transport8 skb off = load8 (skb_data skb) (transport_header skb + off)"

end
