(* ===== verification/Firewall.thy ===== *)
theory Firewall
  imports Kernel
begin

text \<open>
  \<open>les30_firewall\<close>: a netfilter hook that drops the TCP and UDP packets to one port, and a
  sysfs file to read and set that port. The state is the port (\<open>unsigned short\<close>) and the
  record of the calls made.
\<close>

section \<open>The module\<close>

record firewall =
  blockedPort :: u16
  fw_calls :: "kcall list"

definition fw_init :: firewall where
  "fw_init = \<lparr>blockedPort = 443, fw_calls = []\<rparr>"

definition fw_log :: "kcall \<Rightarrow> firewall \<Rightarrow> firewall" where
  "fw_log c s = s\<lparr>fw_calls := fw_calls s @ [c]\<rparr>"

text \<open>\<open>capture\<close>, the hook: \<open>udp->dest\<close> and \<open>tcp->dest\<close> both lie at offset 2.\<close>

definition fw_capture :: "sk_buff \<Rightarrow> firewall \<Rightarrow> (firewall \<times> verdict) option" where
  "fw_capture skb s = do {
     protocol \<leftarrow> ip_protocol skb;
     let s = fw_log (PrInfo (''captured packet('' @ dec (uint protocol) @ '') [tcp: ''
                 @ dec (uint IPPROTO_TCP) @ '' udp: '' @ dec (uint IPPROTO_UDP) @ '']'' @ nl)) s;
     if protocol = IPPROTO_UDP then do {
       dest \<leftarrow> transport16 skb 2;
       if dest = htons (blockedPort s) then Some (s, NF_DROP) else Some (s, NF_ACCEPT)
     } else if protocol = IPPROTO_TCP then do {
       dest \<leftarrow> transport16 skb 2;
       if dest = htons (blockedPort s) then Some (s, NF_DROP) else Some (s, NF_ACCEPT)
     } else Some (s, NF_ACCEPT)
   }"

text \<open>\<open>port_get\<close> and \<open>port_update\<close>, the show and store functions of \<open>blocked_port\<close>.\<close>

definition port_get :: "firewall \<Rightarrow> (firewall \<times> string \<times> nat) option" where
  "port_get s = do {
     let s = fw_log (PrInfo (''Blocking port info requested'' @ nl)) s;
     (text, n) \<leftarrow> sprintf PAGE_SIZE (dec (uint (blockedPort s)) @ nl);
     Some (s, text, n)
   }"

definition port_update :: "string \<Rightarrow> nat \<Rightarrow> firewall \<Rightarrow> firewall \<times> nat" where
  "port_update buffer len s =
     (let s = (case scan_hu (cstr buffer) of None \<Rightarrow> s | Some p \<Rightarrow> s\<lparr>blockedPort := p\<rparr>)
      in (fw_log (PrInfo (''Blocking port updated to '' @ dec (uint (blockedPort s)) @ nl)) s, len))"

text \<open>\<open>mod_start\<close>, with what registering the hook and creating the file answer, and \<open>mod_exit\<close>.\<close>

definition fw_mod_start :: "int \<Rightarrow> int \<Rightarrow> firewall \<Rightarrow> firewall \<times> int" where
  "fw_mod_start hook file s =
     (let rv = hook;
          s = fw_log (NfRegister rv) s;
          s = fw_log (KobjectCreate ''my_firewall'') s;
          s = fw_log (SysfsCreate file) s
      in if file \<noteq> 0 then
           let s = fw_log KobjectPut s;
               s = fw_log (SysfsRemove ModuleKobj) s;
               s = fw_log (PrInfo (''Something wrong with my module :('' @ nl)) s
           in (s, - 1)
         else (fw_log (PrInfo (''My beautifull module is working!'' @ nl)) s, rv))"

definition fw_mod_exit :: "firewall \<Rightarrow> firewall" where
  "fw_mod_exit s =
     fw_log (PrInfo (''My beautifull module is going down'' @ nl)) (fw_log NfUnregister (fw_log KobjectPut s))"

text \<open>The loaded module in use: each access to the file and each packet is one event.\<close>

datatype fw_event = ShowPort | StorePort string | Packet sk_buff

datatype fw_answer = Text string nat | Written nat | Verdict verdict

definition fw_step :: "fw_event \<Rightarrow> firewall \<Rightarrow> (firewall \<times> fw_answer) option" where
  "fw_step e s =
     (case e of
        ShowPort \<Rightarrow> map_option (\<lambda>(s, text, n). (s, Text text n)) (port_get s)
      | StorePort buffer \<Rightarrow>
          (let (s, n) = port_update (buffer @ [NUL]) (length buffer) s in Some (s, Written n))
      | Packet skb \<Rightarrow> map_option (\<lambda>(s, v). (s, Verdict v)) (fw_capture skb s))"

fun fw_run :: "fw_event list \<Rightarrow> firewall \<Rightarrow> (firewall \<times> fw_answer list) option" where
  "fw_run [] s = Some (s, [])"
| "fw_run (e # es) s =
     (case fw_step e s of
        None \<Rightarrow> None
      | Some (t, a) \<Rightarrow> map_option (\<lambda>(u, as). (u, a # as)) (fw_run es t))"

section \<open>The port that is blocked\<close>

lemma dec_uint16: "dec (uint (w :: u16)) = dec (int (unat w))"
  by simp

lemma port_get_eval:
  "port_get s = Some (fw_log (PrInfo (''Blocking port info requested'' @ nl)) s,
     dec (uint (blockedPort s)) @ nl, length (dec (uint (blockedPort s)) @ nl))"
proof -
  have "length (dec (int (unat (blockedPort s)))) \<le> 5"
    using length_nat_digits [of 10 "unat (blockedPort s)" 5] u16_bound [of "blockedPort s"]
    unfolding dec_nat by simp
  then show ?thesis
    by (simp add: port_get_def sprintf_def PAGE_SIZE_def fw_log_def nl_def)
qed

lemma blockedPort_log [simp]: "blockedPort (fw_log c s) = blockedPort s"
  by (simp add: fw_log_def)

text \<open>The last number stored, or what was there before.\<close>

fun last_port :: "fw_event list \<Rightarrow> u16 \<Rightarrow> u16" where
  "last_port [] p = p"
| "last_port (StorePort b # es) p =
     last_port es (case scan_hu (cstr (b @ [NUL])) of None \<Rightarrow> p | Some q \<Rightarrow> q)"
| "last_port (_ # es) p = last_port es p"

lemma fw_capture_port: "fw_capture skb s = Some (t, v) \<Longrightarrow> blockedPort t = blockedPort s"
  by (simp only: fw_capture_def Let_def)
    (cases "ip_protocol skb"; cases "transport16 skb 2"; simp split: if_split_asm; clarsimp)

lemma port_update_port:
  "blockedPort (fst (port_update b n s)) = (case scan_hu (cstr b) of None \<Rightarrow> blockedPort s | Some q \<Rightarrow> q)"
  by (cases "scan_hu (cstr b)") (simp_all add: port_update_def Let_def)

lemma fw_step_port:
  assumes "fw_step e s = Some (t, a)"
  shows "last_port (e # es) (blockedPort s) = last_port es (blockedPort t)"
proof (cases e)
  case ShowPort
  with assms show ?thesis by (auto simp: fw_step_def port_get_eval)
next
  case (StorePort b)
  with assms port_update_port [of "b @ [NUL]" "length b" s] show ?thesis
    by (auto simp: fw_step_def split: prod.splits)
next
  case (Packet skb)
  with assms show ?thesis by (auto simp: fw_step_def fw_capture_port)
qed

lemma fw_run_port: "fw_run es s = Some (t, as) \<Longrightarrow> blockedPort t = last_port es (blockedPort s)"
proof (induction es arbitrary: s as)
  case (Cons e es)
  then show ?case
    by (auto split: option.splits prod.splits dest!: fw_step_port [where es = es])
qed simp

text \<open>A packet whose headers lie inside its buffer, by protocol and destination port.\<close>

definition skb_whole :: "sk_buff \<Rightarrow> bool" where
  "skb_whole skb \<longleftrightarrow> network_header skb + 20 \<le> length (skb_data skb)
     \<and> transport_header skb + 4 \<le> length (skb_data skb)"

definition skb_proto :: "sk_buff \<Rightarrow> u8" where
  "skb_proto skb = skb_data skb ! (network_header skb + 9)"

definition skb_port :: "sk_buff \<Rightarrow> nat" where
  "skb_port skb = 256 * unat (skb_data skb ! (transport_header skb + 2))
     + unat (skb_data skb ! (transport_header skb + 3))"

lemma le16_htons_port: "le16 a b = htons p \<longleftrightarrow> 256 * unat a + unat b = unat p"
proof -
  have "le16 a b = htons p \<longleftrightarrow> htons (le16 a b) = p" by (metis htons_htons)
  then show ?thesis by (simp add: word_unat_eq_iff unat_le16 add.commute)
qed

lemma fw_capture_verdict:
  assumes "skb_whole skb"
  shows "map_option snd (fw_capture skb s) = Some
    (if skb_proto skb \<in> {IPPROTO_TCP, IPPROTO_UDP} \<and> skb_port skb = unat (blockedPort s)
     then NF_DROP else NF_ACCEPT)"
proof -
  have "ip_protocol skb = Some (skb_proto skb)"
    using assms by (simp add: ip_protocol_def load8_def skb_whole_def skb_proto_def)
  moreover have "transport16 skb 2 = Some (le16 (skb_data skb ! (transport_header skb + 2))
      (skb_data skb ! (transport_header skb + 3)))"
    using assms by (simp add: transport16_def load16_def skb_whole_def numeral_3_eq_3)
  ultimately show ?thesis
    by (simp add: fw_capture_def le16_htons_port skb_port_def Let_def)
qed

lemma port_update_number:
  assumes "p < 65536"
  shows "blockedPort (fst (port_update ((dec (int p) @ nl) @ [NUL]) n s)) = word_of_nat p"
proof -
  have "cstr ((dec (int p) @ nl) @ [NUL]) = dec (int p) @ nl"
    by (rule cstr_append_NUL [of "dec (int p) @ nl" "[]"]) (simp add: nl_def NUL_def [symmetric], simp add: NUL_def)
  moreover have "\<not> is_digit (hd nl)" by (simp add: nl_def is_digit_def)
  ultimately show ?thesis
    using assms by (simp add: port_update_port scan_hu_dec)
qed

text \<open>C19: setting the port. When a number below 65536 and a newline are written to
  \<open>blocked_port\<close>, as \<open>echo\<close> does, the file then reads back as the same line, and the hook
  drops exactly the TCP and UDP packets whose destination port, in network byte order, is that
  number.\<close>

theorem firewall_port_roundtrip:
  assumes "p < 65536"
  shows "\<exists>t. fw_step (StorePort (dec (int p) @ nl)) s = Some (t, Written (length (dec (int p) @ nl)))
    \<and> map_option snd (fw_step ShowPort t) = Some (Text (dec (int p) @ nl) (length (dec (int p) @ nl)))
    \<and> (\<forall>skb. skb_whole skb \<longrightarrow>
        (map_option snd (fw_step (Packet skb) t) = Some (Verdict NF_DROP) \<longleftrightarrow>
         (skb_proto skb = IPPROTO_TCP \<or> skb_proto skb = IPPROTO_UDP) \<and> skb_port skb = p))"
proof -
  define t where "t = fst (port_update ((dec (int p) @ nl) @ [NUL]) (length (dec (int p) @ nl)) s)"
  have port: "blockedPort t = word_of_nat p"
    using assms by (simp add: t_def port_update_number del: append_assoc)
  have step: "fw_step (StorePort (dec (int p) @ nl)) s = Some (t, Written (length (dec (int p) @ nl)))"
    by (simp add: fw_step_def t_def port_update_def Let_def)
  have u: "unat (blockedPort t) = p" "uint (blockedPort t) = int p"
    using assms by (simp_all add: port unsigned_of_nat take_bit_nat_eq_self take_bit_int_eq_self)
  have shown: "map_option snd (fw_step ShowPort t) =
      Some (Text (dec (int p) @ nl) (length (dec (int p) @ nl)))"
    by (simp add: fw_step_def port_get_eval u)
  have verdict: "map_option snd (fw_step (Packet skb) t) =
      map_option Verdict (map_option snd (fw_capture skb t))" for skb
    by (cases "fw_capture skb t") (auto simp: fw_step_def)
  show ?thesis
    using step shown by (auto simp: verdict fw_capture_verdict u simp del: map_option_eq_Some)
qed

text \<open>A TCP packet of 40 bytes to port 8080.\<close>

theorem firewall_port_roundtrip_witness:
  "(8080 :: nat) < 65536 \<and>
   (\<exists>t. fw_step (StorePort (dec 8080 @ nl)) fw_init = Some (t, Written (length (dec 8080 @ nl)))
     \<and> map_option snd (fw_step (Packet \<lparr>skb_data = (replicate 40 0)[9 := 6, 22 := 0x1f, 23 := 0x90],
          network_header = 0, transport_header = 20\<rparr>) t) = Some (Verdict NF_DROP))"
proof -
  have skb: "skb_whole \<lparr>skb_data = (replicate 40 0)[9 := 6, 22 := 0x1f, 23 := 0x90],
          network_header = 0, transport_header = 20\<rparr>"
    "skb_proto \<lparr>skb_data = (replicate 40 0)[9 := 6, 22 := 0x1f, 23 := 0x90],
          network_header = 0, transport_header = 20\<rparr> = IPPROTO_TCP"
    "skb_port \<lparr>skb_data = (replicate 40 0)[9 := 6, 22 := 0x1f, 23 := 0x90],
          network_header = 0, transport_header = 20\<rparr> = 8080"
    by (simp_all add: skb_whole_def skb_proto_def skb_port_def IPPROTO_TCP_def)
  have p: "(8080 :: nat) < 65536" by simp
  from firewall_port_roundtrip [OF p, of fw_init] skb show ?thesis by fastforce
qed

text \<open>C30: the loaded firewall in use. After any sequence of packets and accesses to its file,
  the verdict on a packet is decided by the last number stored, 443 before the first one; text
  without a number changes nothing.\<close>

theorem firewall_last_port:
  assumes "fw_run es fw_init = Some (s, as)" and "skb_whole skb"
  shows "map_option snd (fw_capture skb s) = Some
    (if skb_proto skb \<in> {IPPROTO_TCP, IPPROTO_UDP} \<and> skb_port skb = unat (last_port es 443)
     then NF_DROP else NF_ACCEPT)"
  using fw_run_port [OF assms(1)] fw_capture_verdict [OF assms(2), of s]
  by (simp add: fw_init_def)

theorem firewall_last_port_witness:
  "\<exists>s as. fw_run [StorePort (dec 80 @ nl), ShowPort, StorePort ''off''] fw_init = Some (s, as)
    \<and> map_option snd (fw_capture \<lparr>skb_data = (replicate 40 0)[9 := 17, 23 := 80],
         network_header = 0, transport_header = 20\<rparr> s) = Some NF_DROP"
proof -
  let ?es = "[StorePort (dec 80 @ nl), ShowPort, StorePort ''off'']"
  have skb: "skb_whole \<lparr>skb_data = (replicate 40 0)[9 := 17, 23 := 80],
          network_header = 0, transport_header = 20\<rparr>"
    "skb_proto \<lparr>skb_data = (replicate 40 0)[9 := 17, 23 := 80],
          network_header = 0, transport_header = 20\<rparr> = IPPROTO_UDP"
    "skb_port \<lparr>skb_data = (replicate 40 0)[9 := 17, 23 := 80],
          network_header = 0, transport_header = 20\<rparr> = 80"
    by (simp_all add: skb_whole_def skb_proto_def skb_port_def IPPROTO_UDP_def)
  have run: "\<exists>s as. fw_run ?es fw_init = Some (s, as)"
    by (simp add: fw_step_def port_get_eval port_update_def Let_def)
  have port: "last_port ?es 443 = 80"
    by code_simp
  from run obtain s as where "fw_run ?es fw_init = Some (s, as)" by blast
  with firewall_last_port [OF this skb(1), unfolded port] show ?thesis by (auto simp only: skb) simp
qed

end
