(* ===== verification/KPing.thy ===== *)
theory KPing
  imports Kernel Checksum
begin

text \<open>
  \<open>les31_kernel_ping\<close>: a sysfs file \<open>ping_ctl\<close> that sets an address and sends an echo request
  to it from inside the kernel, and a netfilter hook that notes the last ICMP packet seen. The
  state is the address \<open>ip\<close>, the text \<open>response\<close> in its buffer of 256 bytes, and the record
  of the calls made. Values the C code leaves uninitialised are parameters.
\<close>

section \<open>The module\<close>

record kping =
  kp_ip :: "u8 list"
  kp_response :: string
  kp_calls :: "kcall list"

definition kp_init :: kping where
  "kp_init = \<lparr>kp_ip = [127, 0, 0, 1, 0],
     kp_response = ''unknown'' @ replicate 249 NUL, kp_calls = []\<rparr>"

definition kp_log :: "kcall \<Rightarrow> kping \<Rightarrow> kping" where
  "kp_log c s = s\<lparr>kp_calls := kp_calls s @ [c]\<rparr>"

text \<open>\<open>create_address\<close>: the loop from \<open>i\<close> on; it leaves at \<open>i == 3\<close> before the shift.\<close>

function create_address_loop :: "u8 list \<Rightarrow> nat \<Rightarrow> u32 \<Rightarrow> u32 option" where
  "create_address_loop ip i addr =
     (if i < 4 then do {
        b \<leftarrow> load8 ip i;
        let addr = addr + ucast b;
        if i = 3 then Some addr else create_address_loop ip (Suc i) (push_bit 8 addr)
      } else Some addr)"
  by pat_completeness auto
termination by (relation "measure (\<lambda>(ip, i, a). 4 - i)") auto

declare create_address_loop.simps [simp del]

definition create_address :: "u8 list \<Rightarrow> u32 option" where
  "create_address ip = create_address_loop ip 0 0"

text \<open>
  \<open>ping_create\<close>: \<open>sock\<close> is what creating the socket answers. The header is zeroed before its
  type, code and checksum are set.
\<close>

definition icmp_request :: "u8 list option" where
  "icmp_request = do {
     icmph \<leftarrow> store8 0 8 (replicate 8 0);
     icmph \<leftarrow> store8 1 0 icmph;
     crc \<leftarrow> gen_crc16 icmph 0 (8 div 2);
     store16 2 crc icmph
   }"

definition ping_create :: "int \<Rightarrow> kping \<Rightarrow> (kping \<times> int) option" where
  "ping_create sock s =
     (if sock < 0
      then Some (kp_log (PrInfo (''socket creation error'' @ nl)) (kp_log (SockCreate sock) s), - 1)
      else do {
        a \<leftarrow> create_address (kp_ip s);
        msg \<leftarrow> icmp_request;
        Some (kp_log SockRelease (kp_log (SendMsg (htonl a) msg) (kp_log (SockCreate sock) s)), 0)
      })"

text \<open>\<open>capture\<close>: every packet is accepted; an ICMP packet is noted in \<open>response\<close>.\<close>

definition kp_capture :: "sk_buff \<Rightarrow> kping \<Rightarrow> (kping \<times> verdict) option" where
  "kp_capture skb s = do {
     let s = kp_log (PrInfo (''received packet'' @ nl)) s;
     protocol \<leftarrow> ip_protocol skb;
     if protocol = IPPROTO_ICMP then do {
       type \<leftarrow> transport8 skb 0;
       code \<leftarrow> transport8 skb 1;
       response \<leftarrow> strcpy (kp_response s)
         (''got answer: '' @ dec (uint type) @ '':'' @ dec (uint code) @ nl);
       Some (s\<lparr>kp_response := response\<rparr>, NF_ACCEPT)
     } else Some (s, NF_ACCEPT)
   }"

text \<open>\<open>addr_get\<close>, the show function of \<open>ping_ctl\<close>.\<close>

definition ip_text :: "u8 list \<Rightarrow> string option" where
  "ip_text ip = do {
     a \<leftarrow> load8 ip 0;
     b \<leftarrow> load8 ip 1;
     c \<leftarrow> load8 ip 2;
     d \<leftarrow> load8 ip 3;
     Some (dec (uint a) @ ''.'' @ dec (uint b) @ ''.'' @ dec (uint c) @ ''.'' @ dec (uint d))
   }"

definition addr_get :: "kping \<Rightarrow> (kping \<times> string \<times> nat) option" where
  "addr_get s = do {
     let s = kp_log (PrInfo (''Pinging address info requested'' @ nl)) s;
     ip \<leftarrow> ip_text (kp_ip s);
     n \<leftarrow> strlen (kp_response s);
     (text, n) \<leftarrow> sprintf PAGE_SIZE
       (''Pinging '' @ ip @ nl @ ''Last ping ended: '' @ take n (kp_response s) @ nl);
     Some (s, text, n)
   }"

text \<open>
  \<open>addr_oper\<close>, its store function. \<open>sscanf\<close> assigns the numbers it finds, in order, and
  leaves the variables behind the first that is missing as they are: \<open>stack\<close> holds the
  initial values of \<open>operType\<close>, \<open>A\<close>, \<open>B\<close>, \<open>C\<close>, \<open>D\<close>.
\<close>

fun scan_ints :: "nat \<Rightarrow> string \<Rightarrow> i32 list" where
  "scan_ints 0 s = []"
| "scan_ints (Suc n) s = (case scan_i s of None \<Rightarrow> [] | Some (v, t) \<Rightarrow> v # scan_ints n t)"

definition sscanf_ints :: "string \<Rightarrow> i32 list \<Rightarrow> i32 list" where
  "sscanf_ints s vars =
     (let vs = scan_ints (length vars) s in vs @ drop (length vs) vars)"

definition OPER_PING :: i32 where "OPER_PING = 1"
definition OPER_UPDATE :: i32 where "OPER_UPDATE = 2"

definition addr_oper :: "i32 list \<Rightarrow> int \<Rightarrow> string \<Rightarrow> nat \<Rightarrow> kping \<Rightarrow> (kping \<times> nat) option" where
  "addr_oper stack sock buffer len s =
     (let buf = cstr buffer;
          operType = hd (sscanf_ints buf [stack ! 0]) in
      if operType = OPER_UPDATE then do {
        let vars = sscanf_ints buf (operType # drop 1 stack);
        let (A, B, C, D) = (vars ! 1, vars ! 2, vars ! 3, vars ! 4);
        let s = kp_log (PrInfo (''IP updated to '' @ dec (sint A) @ ''.'' @ dec (sint B) @ ''.''
                    @ dec (sint C) @ ''.'' @ dec (sint D) @ nl)) s;
        ip \<leftarrow> store8 0 (ucast (A AND 0xFF)) (kp_ip s);
        ip \<leftarrow> store8 1 (ucast (B AND 0xFF)) ip;
        ip \<leftarrow> store8 2 (ucast (C AND 0xFF)) ip;
        ip \<leftarrow> store8 3 (ucast (D AND 0xFF)) ip;
        Some (s\<lparr>kp_ip := ip\<rparr>, len)
      } else if operType = OPER_PING then map_option (\<lambda>(s, r). (s, len)) (ping_create sock s)
      else Some (s, len))"

text \<open>\<open>mod_start\<close> ignores what registering the hook answers; and \<open>mod_exit\<close>.\<close>

definition kp_mod_start :: "int \<Rightarrow> int \<Rightarrow> kping \<Rightarrow> kping \<times> int" where
  "kp_mod_start hook file s =
     (let s = kp_log (NfRegister hook) s;
          s = kp_log (KobjectCreate ''my_ping'') s;
          s = kp_log (SysfsCreate file) s
      in if file \<noteq> 0 then
           let s = kp_log KobjectPut s;
               s = kp_log (SysfsRemove ModuleKobj) s;
               s = kp_log (PrInfo (''Something wrong with my module :('' @ nl)) s
           in (s, - 1)
         else (kp_log (PrInfo (''My beautifull module is working!'' @ nl)) s, 0))"

definition kp_mod_exit :: "kping \<Rightarrow> kping" where
  "kp_mod_exit s =
     kp_log (PrInfo (''My beautifull module is going down'' @ nl)) (kp_log NfUnregister (kp_log KobjectPut s))"

text \<open>The loaded module in use.\<close>

datatype kp_event =
    ShowAddr
  | StoreAddr "i32 list" int string
  | Receive sk_buff

definition kp_step :: "kp_event \<Rightarrow> kping \<Rightarrow> kping option" where
  "kp_step e s =
     (case e of
        ShowAddr \<Rightarrow> map_option fst (addr_get s)
      | StoreAddr stack sock buffer \<Rightarrow>
          map_option fst (addr_oper stack sock (buffer @ [NUL]) (length buffer) s)
      | Receive skb \<Rightarrow> map_option fst (kp_capture skb s))"

inductive kp_move :: "kping \<Rightarrow> kping \<Rightarrow> bool" where
  kp_move: "kp_step e s = Some t \<Longrightarrow> kp_move s t"

inductive_simps kp_move_iff: "kp_move s t"

section \<open>The address\<close>

lemma create_address_eval:
  "create_address (a # b # c # d # t) = Some (le32 d c b a)"
proof -
  have "le32 d c b a = push_bit 8 (push_bit 8 (push_bit 8 (ucast a) + ucast b) + ucast c) + ucast d"
  proof -
    have "unat (push_bit 8 (push_bit 8 (push_bit 8 (ucast a) + ucast b) + ucast c) + ucast d :: u32)
        = unat (le32 d c b a)"
      using u8_bound [of a] u8_bound [of b] u8_bound [of c] u8_bound [of d]
      by (simp add: unat_le32 push_bit_eq_mult unat_word_ariths unat_ucast_8_32)
    then show ?thesis by (simp only: word_unat_eq_iff)
  qed
  then show ?thesis
    by (simp add: create_address_def create_address_loop.simps load8_def numeral_3_eq_3)
qed

lemma icmp_request_eval: "icmp_request = Some [8, 0, 0xf7, 0xff, 0, 0, 0, 0]"
proof -
  define h :: "u8 list" where "h = [8, 0, 0, 0, 0, 0, 0, 0]"
  have "oc_sum (words_at h 0 4) = 8"
    by (simp add: h_def mem_eval unat_le16 oc_sum_def oc_norm_def)
  then have c: "gen_crc16 h 0 4 = Some 0xfff7"
    using crc_ck.ck_region [of 0 4 h] by (simp add: h_def)
  have "icmp_request = store16 2 0xfff7 h"
    using c by (simp add: icmp_request_def mem_eval h_def)
  also have "\<dots> = Some [8, 0, 0xf7, 0xff, 0, 0, 0, 0]"
    by (simp add: h_def mem_eval word_eval)
  finally show ?thesis .
qed

section \<open>The buffers\<close>

definition kp_inv :: "kping \<Rightarrow> bool" where
  "kp_inv s \<longleftrightarrow> length (kp_ip s) = 5 \<and> length (kp_response s) = 256 \<and> NUL \<in> set (kp_response s)"

lemma kp_log_simps [simp]:
  "kp_ip (kp_log c s) = kp_ip s" "kp_response (kp_log c s) = kp_response s"
  "kp_calls (kp_log c s) = kp_calls s @ [c]"
  by (simp_all add: kp_log_def)

lemma kp_inv_log [simp]: "kp_inv (kp_log c s) \<longleftrightarrow> kp_inv s"
  by (simp add: kp_inv_def)

lemma length_dec_u8: "length (dec (uint (b :: u8))) \<le> 3"
proof -
  have "length (nat_digits 10 (unat b)) \<le> 3"
    using length_nat_digits [of 10 "unat b" 3] u8_bound [of b] by simp
  then have "length (dec (int (unat b))) \<le> 3" unfolding dec_nat by simp
  then show ?thesis by simp
qed

lemma five_bytes: "length ip = 5 \<Longrightarrow> \<exists>a b c d e. ip = [a, b, c, d, e]"
  by (auto simp: length_Suc_conv numeral_eq_Suc)

lemma ip_text_eval:
  "ip_text (a # b # c # d # t) = Some (dec (uint a) @ ''.'' @ dec (uint b) @ ''.'' @ dec (uint c) @ ''.'' @ dec (uint d))"
  by (simp add: ip_text_def load8_def numeral_2_eq_2 numeral_3_eq_3)

lemma cstr_take: "NUL \<in> set buf \<Longrightarrow> take (length (cstr buf)) buf = cstr buf"
  unfolding cstr_def by (metis takeWhile_eq_take)

lemma length_cstr: "NUL \<in> set buf \<Longrightarrow> length (cstr buf) < length buf"
  using cstr_split [of buf] by (metis add_Suc_right le_add1 le_imp_less_Suc length_Cons length_append)

text \<open>The text of \<open>addr_get\<close> in a state of the invariant; it fits a page.\<close>

lemma addr_get_eval:
  assumes "kp_inv s" and "kp_ip s = [a, b, c, d, e]"
  shows "addr_get s = Some (kp_log (PrInfo (''Pinging address info requested'' @ nl)) s,
    ''Pinging '' @ (dec (uint a) @ ''.'' @ dec (uint b) @ ''.'' @ dec (uint c) @ ''.'' @ dec (uint d))
      @ nl @ ''Last ping ended: '' @ cstr (kp_response s) @ nl,
    length (''Pinging '' @ (dec (uint a) @ ''.'' @ dec (uint b) @ ''.'' @ dec (uint c) @ ''.'' @ dec (uint d))
      @ nl @ ''Last ping ended: '' @ cstr (kp_response s) @ nl))"
proof -
  have "length (cstr (kp_response s)) < 256"
    using assms(1) length_cstr [of "kp_response s"] by (simp add: kp_inv_def)
  with length_dec_u8 [of a] length_dec_u8 [of b] length_dec_u8 [of c] length_dec_u8 [of d]
  have "length (''Pinging '' @ (dec (uint a) @ ''.'' @ dec (uint b) @ ''.'' @ dec (uint c) @ ''.'' @ dec (uint d))
      @ nl @ ''Last ping ended: '' @ cstr (kp_response s) @ nl) < PAGE_SIZE"
    by (simp add: nl_def PAGE_SIZE_def)
  moreover have "strlen (kp_response s) = Some (length (cstr (kp_response s)))"
    "take (length (cstr (kp_response s))) (kp_response s) = cstr (kp_response s)"
    using assms(1) by (simp_all add: kp_inv_def strlen_def cstr_take)
  ultimately show ?thesis
    by (simp only: addr_get_def Let_def kp_log_simps assms(2) ip_text_eval Option.bind.simps sprintf_def
        if_True prod.case)
qed

lemma kp_capture_inv: "kp_capture skb s = Some (t, v) \<Longrightarrow> kp_inv s \<Longrightarrow> kp_inv t"
  by (simp only: kp_capture_def Let_def)
    (cases "ip_protocol skb"; cases "transport8 skb 0"; cases "transport8 skb 1";
      auto simp: kp_inv_def strcpy_def split: if_split_asm)

lemma addr_get_inv: "addr_get s = Some (t, r) \<Longrightarrow> kp_inv s \<Longrightarrow> kp_inv t"
  using five_bytes [of "kp_ip s"] addr_get_eval [of s] by (auto simp: kp_inv_def)

lemma ping_create_eval:
  assumes "kp_ip s = [a, b, c, d, e]" and "0 \<le> sock"
  shows "ping_create sock s = Some (kp_log SockRelease
    (kp_log (SendMsg (le32 a b c d) [8, 0, 0xf7, 0xff, 0, 0, 0, 0]) (kp_log (SockCreate sock) s)), 0)"
proof -
  have "htonl (le32 d c b a) = le32 a b c d"
    using byte_of_le32 [of d c b a] by (simp add: htonl_def)
  with assms show ?thesis
    by (simp add: ping_create_def create_address_eval icmp_request_eval)
qed

lemma ping_create_inv: "ping_create sock s = Some (t, r) \<Longrightarrow> kp_inv s \<Longrightarrow> kp_inv t"
  using five_bytes [of "kp_ip s"] ping_create_eval [of s _ _ _ _ _ sock]
  by (cases "sock < 0") (auto simp: ping_create_def [of sock s] kp_inv_def)

text \<open>The address an update stores, from the five numbers read.\<close>

definition updated_ip :: "i32 list \<Rightarrow> u8 list" where
  "updated_ip vars = map (\<lambda>v. ucast (v AND 0xFF)) (take 4 (drop 1 vars))"

lemma length_scan_ints: "length (scan_ints n s) \<le> n"
  by (induction n s rule: scan_ints.induct) (auto split: option.splits)

lemma length_sscanf_ints [simp]: "length (sscanf_ints s vars) = length vars"
  using length_scan_ints [of "length vars" s] by (simp add: sscanf_ints_def Let_def)

lemma addr_oper_update:
  assumes "hd (sscanf_ints (cstr buffer) [stack ! 0]) = OPER_UPDATE"
    and "kp_ip s = [a, b, c, d, e]" and "length stack = 5"
  shows "\<exists>t. addr_oper stack sock buffer len s = Some (t, len)
    \<and> kp_ip t = updated_ip (sscanf_ints (cstr buffer) (OPER_UPDATE # drop 1 stack)) @ [e]
    \<and> kp_response t = kp_response s"
proof -
  obtain x v0 v1 v2 v3 where "sscanf_ints (cstr buffer) (OPER_UPDATE # drop 1 stack) = [x, v0, v1, v2, v3]"
    using assms(3)
      length_sscanf_ints [of "cstr buffer" "OPER_UPDATE # drop 1 stack"]
    by (auto simp: length_Suc_conv numeral_eq_Suc simp del: length_sscanf_ints)
  with assms show ?thesis
    by (simp add: addr_oper_def Let_def updated_ip_def store8_def numeral_2_eq_2 numeral_3_eq_3
        numeral_eq_Suc)
qed

lemma addr_oper_inv:
  assumes "addr_oper stack sock buffer len s = Some (t, r)" and "length stack = 5" and "kp_inv s"
  shows "kp_inv t"
proof -
  obtain a b c d e where ip: "kp_ip s = [a, b, c, d, e]"
    using assms(3) five_bytes [of "kp_ip s"] by (auto simp: kp_inv_def)
  show ?thesis
  proof (cases "hd (sscanf_ints (cstr buffer) [stack ! 0]) = OPER_UPDATE")
    case True
    have "length (updated_ip (sscanf_ints (cstr buffer) (OPER_UPDATE # drop 1 stack))) = 4"
      using assms(2) by (simp add: updated_ip_def)
    with addr_oper_update [OF True ip assms(2), of sock len] assms show ?thesis
      by (auto simp: kp_inv_def)
  next
    case False
    with assms show ?thesis
      by (auto simp: addr_oper_def Let_def dest: ping_create_inv split: if_splits)
  qed
qed

text \<open>The events the kernel delivers: whole packets, and five values on the stack.\<close>

definition kp_event_ok :: "kp_event \<Rightarrow> bool" where
  "kp_event_ok e \<longleftrightarrow>
     (case e of
        ShowAddr \<Rightarrow> True
      | StoreAddr stack sock buffer \<Rightarrow> length stack = 5
      | Receive skb \<Rightarrow> network_header skb + 20 \<le> length (skb_data skb)
          \<and> transport_header skb + 2 \<le> length (skb_data skb))"

inductive kp_ok_move :: "kping \<Rightarrow> kping \<Rightarrow> bool" where
  kp_ok_move: "kp_step e s = Some t \<Longrightarrow> kp_event_ok e \<Longrightarrow> kp_ok_move s t"

inductive_simps kp_ok_move_iff: "kp_ok_move s t"

lemma kp_step_inv: "kp_step e s = Some t \<Longrightarrow> kp_event_ok e \<Longrightarrow> kp_inv s \<Longrightarrow> kp_inv t"
  by (cases e) (auto simp: kp_step_def kp_event_ok_def
      dest: addr_get_inv kp_capture_inv addr_oper_inv)

interpretation kp_machine: invariant_machine "\<lambda>s. s = kp_init" kp_ok_move kp_inv
proof unfold_locales
  show "kp_inv s" if "s = kp_init" for s
    using that by (simp add: kp_init_def kp_inv_def)
  show "kp_inv t" if "kp_inv s" "kp_ok_move s t" for s t
    using that by (auto simp: kp_ok_move_iff intro: kp_step_inv)
qed

lemma kp_capture_total:
  assumes "kp_event_ok (Receive skb)" and "kp_inv s"
  shows "kp_capture skb s \<noteq> None"
proof -
  obtain p t c where "ip_protocol skb = Some p" "transport8 skb 0 = Some t" "transport8 skb 1 = Some c"
    using assms(1) by (simp add: kp_event_ok_def ip_protocol_def transport8_def load8_def)
  moreover have "strcpy (kp_response s) (''got answer: '' @ dec (uint t) @ '':'' @ dec (uint c) @ nl) \<noteq> None"
    using assms(2) length_dec_u8 [of t] length_dec_u8 [of c]
    by (simp add: strcpy_def kp_inv_def nl_def)
  ultimately show ?thesis by (auto simp: kp_capture_def Let_def simp del: append.simps)
qed

lemma addr_oper_total:
  assumes "length stack = 5" and "kp_inv s"
  shows "addr_oper stack sock buffer len s \<noteq> None"
proof -
  obtain a b c d e where ip: "kp_ip s = [a, b, c, d, e]"
    using assms(2) five_bytes [of "kp_ip s"] by (auto simp: kp_inv_def)
  have ping: "ping_create sock s \<noteq> None"
    using ping_create_eval [OF ip, of sock] by (cases "sock < 0") (auto simp: ping_create_def)
  show ?thesis
  proof (cases "hd (sscanf_ints (cstr buffer) [stack ! 0]) = OPER_UPDATE")
    case True
    with addr_oper_update [OF True ip assms(1), of sock len] show ?thesis by auto
  next
    case False
    with ping show ?thesis by (auto simp: addr_oper_def Let_def)
  qed
qed



section \<open>Setting the address and pinging it\<close>

lemma scan_i_space: "is_space c \<Longrightarrow> scan_i (c # s) = scan_i s"
  by (simp add: scan_i_def)

lemma scan_ints_dec:
  assumes "t = [] \<or> is_space (hd t)"
  shows "scan_ints (Suc n) (CHR '' '' # dec (int k) @ t) = word_of_nat k # scan_ints n t"
  using assms by (simp add: scan_i_space is_space_def scan_i_dec)

text \<open>The line \<open>echo "2 A B C D"\<close> writes.\<close>

definition update_line :: "nat \<Rightarrow> nat \<Rightarrow> nat \<Rightarrow> nat \<Rightarrow> string" where
  "update_line A B C D = ''2 '' @ dec (int A) @ '' '' @ dec (int B) @ '' '' @ dec (int C) @ '' ''
     @ dec (int D) @ nl"

lemma cstr_plain: "NUL \<notin> set s \<Longrightarrow> cstr (s @ [NUL]) = s"
  using cstr_append_NUL [of s "[]"] by simp

lemma dec_2: "dec 2 = ''2''"
  by code_simp

lemma scan_update_line:
  "scan_ints 5 (update_line A B C D) =
     [2, word_of_nat A, word_of_nat B, word_of_nat C, word_of_nat D]"
  "scan_ints 1 (update_line A B C D) = [2]"
proof -
  have sp: "is_space (CHR '' '')" "is_space (hd nl)" "nl \<noteq> []"
    by (simp_all add: is_space_def nl_def)
  have two: "scan_i (CHR ''2'' # CHR '' '' # t) = Some (2, CHR '' '' # t)" for t
    using scan_i_dec [of "CHR '' '' # t" 2] sp(1) by (simp add: dec_2)
  show "scan_ints 5 (update_line A B C D) =
     [2, word_of_nat A, word_of_nat B, word_of_nat C, word_of_nat D]"
    by (simp add: update_line_def two numeral_eq_Suc scan_ints_dec sp del: of_nat_numeral scan_ints.simps(2)
       add: scan_ints.simps(2) [of _ "CHR ''2'' # _"])
  show "scan_ints 1 (update_line A B C D) = [2]"
    by (simp add: update_line_def two)
qed

lemma word_low_byte: "(ucast (word_of_nat n AND 0xFF :: i32) :: u8) = word_of_nat n"
proof -
  have "(0xFF :: i32) = mask 8" by (simp add: mask_eq_exp_minus_1)
  show ?thesis unfolding \<open>0xFF = mask 8\<close> by (rule bit_word_eqI) (auto simp: bit_simps simp del: mask_numeral)
qed

lemma update_line_oper:
  assumes "kp_ip s = [a, b, c, d, e]" and "length stack = 5"
  shows "\<exists>t. addr_oper stack sock (update_line A B C D @ [NUL]) len s = Some (t, len)
    \<and> kp_ip t = [word_of_nat A, word_of_nat B, word_of_nat C, word_of_nat D, e]
    \<and> kp_response t = kp_response s"
proof -
  have plain: "cstr (update_line A B C D @ [NUL]) = update_line A B C D"
    by (rule cstr_plain) (simp add: update_line_def nl_def NUL_def NUL_notin_dec [unfolded NUL_def])
  have five: "length (OPER_UPDATE # drop 1 stack) = 5" using assms(2) by simp
  have op: "hd (sscanf_ints (update_line A B C D) [stack ! 0]) = OPER_UPDATE"
    by (simp add: sscanf_ints_def scan_update_line(2) [simplified] OPER_UPDATE_def)
  have vars: "sscanf_ints (update_line A B C D) (OPER_UPDATE # drop 1 stack) =
      [2, word_of_nat A, word_of_nat B, word_of_nat C, word_of_nat D]"
    unfolding sscanf_ints_def five scan_update_line(1) using assms(2) by simp
  have upd: "updated_ip (sscanf_ints (update_line A B C D) (OPER_UPDATE # drop 1 stack)) =
      [word_of_nat A, word_of_nat B, word_of_nat C, word_of_nat D]"
    unfolding vars by (simp add: updated_ip_def word_low_byte)
  have "hd (sscanf_ints (cstr (update_line A B C D @ [NUL])) [stack ! 0]) = OPER_UPDATE"
    using op by (simp only: plain)
  from addr_oper_update [OF this assms] show ?thesis by (simp only: plain upd append.simps)
qed

text \<open>C20: the two operations of \<open>ping_ctl\<close> together. After the line \<open>2 A B C D\<close> the file
  shows the address \<open>A.B.C.D\<close>, each number modulo 256; and a \<open>1\<close> written then sends to that
  address, in network byte order, an echo request whose checksum verifies, and releases the
  socket.\<close>

theorem kping_update_and_ping:
  assumes "kp_inv s" and "length stack = 5" and "0 \<le> sock"
  shows "\<exists>t u msg. kp_step (StoreAddr stack 0 (update_line A B C D)) s = Some t
    \<and> (\<exists>t' rest n. addr_get t = Some (t', ''Pinging '' @ dec (int (A mod 256)) @ ''.'' @ dec (int (B mod 256))
          @ ''.'' @ dec (int (C mod 256)) @ ''.'' @ dec (int (D mod 256)) @ nl @ rest, n))
    \<and> kp_step (StoreAddr stack sock ''1'') t = Some u
    \<and> kp_calls u = kp_calls t @ [SockCreate sock,
        SendMsg (le32 (word_of_nat A) (word_of_nat B) (word_of_nat C) (word_of_nat D)) msg, SockRelease]
    \<and> take 2 msg = [8, 0] \<and> gen_crc16 msg 0 4 = Some 0"
proof -
  obtain a b c d e where ip: "kp_ip s = [a, b, c, d, e]"
    using five_bytes [of "kp_ip s"] assms(1) by (auto simp: kp_inv_def)
  obtain t where t: "kp_step (StoreAddr stack 0 (update_line A B C D)) s = Some t"
    "kp_ip t = [word_of_nat A, word_of_nat B, word_of_nat C, word_of_nat D, e]"
    "kp_response t = kp_response s"
    using update_line_oper [OF ip assms(2), of 0 A B C D "length (update_line A B C D)"]
    by (auto simp: kp_step_def)
  then have inv: "kp_inv t" using assms(1) by (simp add: kp_inv_def)
  have byte: "uint (word_of_nat n :: u8) = int (n mod 256)" for n
    by (simp add: unsigned_of_nat take_bit_eq_mod zmod_int)
  have one: "hd (sscanf_ints (cstr (''1'' @ [NUL])) [stack ! 0]) = 1"
  proof -
    have "scan_i ''1'' = Some (1, [])" by code_simp
    moreover have "cstr (''1'' @ [NUL]) = ''1''" by (rule cstr_plain) (simp add: NUL_def)
    ultimately show ?thesis by (simp only:) (simp add: sscanf_ints_def)
  qed
  have ping: "\<exists>u. kp_step (StoreAddr stack sock ''1'') t = Some u \<and> kp_calls u = kp_calls t @ [SockCreate sock,
      SendMsg (le32 (word_of_nat A) (word_of_nat B) (word_of_nat C) (word_of_nat D)) [8, 0, 0xf7, 0xff, 0, 0, 0, 0],
      SockRelease]"
    using ping_create_eval [OF t(2) assms(3)] one
    by (simp add: kp_step_def addr_oper_def OPER_UPDATE_def OPER_PING_def)
  have ok: "gen_crc16 [8, 0, 0xf7, 0xff, 0, 0, 0, 0] 0 4 = Some 0"
    using crc_ck.ck_zero_iff [of 0 4 "[8, 0, 0xf7, 0xff, 0, 0, 0, 0]"]
    by (simp add: mem_eval oc_sum_def unat_le16 oc_norm_def)
  have shown: "\<exists>t' rest n. addr_get t = Some (t', ''Pinging '' @ dec (int (A mod 256)) @ ''.''
      @ dec (int (B mod 256)) @ ''.'' @ dec (int (C mod 256)) @ ''.'' @ dec (int (D mod 256)) @ nl @ rest, n)"
    unfolding addr_get_eval [OF inv t(2)] byte append_assoc by blast
  from ping obtain u where u: "kp_step (StoreAddr stack sock ''1'') t = Some u"
    "kp_calls u = kp_calls t @ [SockCreate sock,
      SendMsg (le32 (word_of_nat A) (word_of_nat B) (word_of_nat C) (word_of_nat D)) [8, 0, 0xf7, 0xff, 0, 0, 0, 0],
      SockRelease]"
    by blast
  show ?thesis
    by (rule exI [of _ t], rule exI [of _ u], rule exI [of _ "[8, 0, 0xf7, 0xff, 0, 0, 0, 0]"])
      (use t(1) shown u ok in \<open>simp only: take_Suc_Cons take_0 numeral_2_eq_2 simp_thms\<close>)
qed

text \<open>From the freshly loaded module: \<open>2 10 0 0 257\<close>, then a ping to 10.0.0.1.\<close>

theorem kping_update_and_ping_witness:
  "kp_inv kp_init \<and> (\<exists>t u msg. kp_step (StoreAddr [7, 7, 7, 7, 7] 0 (update_line 10 0 0 257)) kp_init = Some t
    \<and> kp_step (StoreAddr [7, 7, 7, 7, 7] 4 ''1'') t = Some u
    \<and> kp_calls u = kp_calls t @ [SockCreate 4, SendMsg (le32 10 0 0 1) msg, SockRelease])"
proof -
  have inv: "kp_inv kp_init" by (simp add: kp_init_def kp_inv_def)
  have five: "length [7, 7, 7, 7, 7 :: i32] = 5" and sock: "(0 :: int) \<le> 4" by simp_all
  have byte: "(257 :: u8) = 1" by simp
  from kping_update_and_ping [OF inv five sock, of 10 0 0 257] inv show ?thesis
    by (auto simp: byte)
qed

end
