(* ===== verification/KModules.thy ===== *)
theory KModules
  imports Firewall KPing
begin

text \<open>
  \<open>les29_linux_modules\<close>: the module that only says hello, and the three that offer the same
  two operations through a character device (\<open>driver.c\<close>), a proc file (\<open>proc_module.c\<close>) and
  a sysfs file (\<open>sys_module.c\<close>). Each is modelled on its own; their common contract is a
  locale. At the end, loading and unloading all the modules of the repository.
\<close>

section \<open>hello.c\<close>

definition hello_init :: "kcall list \<times> int" where
  "hello_init = ([PrInfo (''HELLO WORLD is initialized'' @ nl)], 0)"

definition hello_exit :: "kcall list" where
  "hello_exit = [PrInfo (''Helloworld is exit'' @ nl)]"

section \<open>The three modules that talk\<close>

text \<open>
  \<open>transaction_complete\<close> and, in \<open>proc_module.c\<close> and \<open>sys_module.c\<close>, the static buffer
  \<open>toWrite\<close>; in \<open>driver.c\<close> the buffer is a local of \<open>driver_write\<close>.
\<close>

record talker =
  transaction_complete :: int
  toWrite :: string
  tk_calls :: "kcall list"

definition tk_log :: "kcall \<Rightarrow> talker \<Rightarrow> talker" where
  "tk_log c s = s\<lparr>tk_calls := tk_calls s @ [c]\<rparr>"

definition unworthy :: string where
  "unworthy = ''you are unworthy! >:)'' @ nl"

text \<open>
  \<open>driver_read\<close>, the same code in the three files: \<open>room\<close> is the space behind \<open>buffer\<close>, which
  the code does not look at, like \<open>length\<close>. The text written and the value returned.
\<close>

definition chr_read :: "nat \<Rightarrow> talker \<Rightarrow> (talker \<times> string \<times> int) option" where
  "chr_read room s =
     (if transaction_complete s = 0 then do {
        let s = tk_log (PrInfo (''someone just tried to read my power >:)'' @ nl)) s;
        (w, _) \<leftarrow> sprintf room unworthy;
        Some (s\<lparr>transaction_complete := 1\<rparr>, w, 22)
      } else Some (s\<lparr>transaction_complete := 0\<rparr>, [], 0))"

definition proc_read :: "nat \<Rightarrow> talker \<Rightarrow> (talker \<times> string \<times> int) option" where
  "proc_read room s =
     (if transaction_complete s = 0 then do {
        let s = tk_log (PrInfo (''someone just tried to read my power >:)'' @ nl)) s;
        (w, _) \<leftarrow> sprintf room unworthy;
        Some (s\<lparr>transaction_complete := 1\<rparr>, w, 22)
      } else Some (s\<lparr>transaction_complete := 0\<rparr>, [], 0))"

definition sys_read :: "nat \<Rightarrow> talker \<Rightarrow> (talker \<times> string \<times> int) option" where
  "sys_read room s =
     (if transaction_complete s = 0 then do {
        let s = tk_log (PrInfo (''someone just tried to read my power >:)'' @ nl)) s;
        (w, _) \<leftarrow> sprintf room unworthy;
        Some (s\<lparr>transaction_complete := 1\<rparr>, w, 22)
      } else Some (s\<lparr>transaction_complete := 0\<rparr>, [], 0))"

text \<open>
  The loop \<open>while(buffer[i] != '\n')\<close>: it stops at a newline only, so a buffer without one
  is read to its end and beyond, and a line of 256 characters leaves \<open>toWrite\<close>.
\<close>

function write_loop :: "string \<Rightarrow> nat \<Rightarrow> string \<Rightarrow> (nat \<times> string) option" where
  "write_loop buffer i w =
     (if i < length buffer then
        (if buffer ! i \<noteq> CHR 0x0A then
           (if i < length w then write_loop buffer (Suc i) (w[i := buffer ! i]) else None)
         else Some (i, w))
      else None)"
  by pat_completeness auto
termination by (relation "measure (\<lambda>(b, i, w). length b - i)") auto

declare write_loop.simps [simp del]

text \<open>\<open>toWrite[i++] = '\n'; toWrite[i] = 0;\<close>\<close>

definition finish_line :: "nat \<times> string \<Rightarrow> string option" where
  "finish_line r =
     (let (i, w) = r in if Suc i < length w then Some (w[i := CHR 0x0A, Suc i := NUL]) else None)"

text \<open>
  \<open>driver_write\<close>: in \<open>driver.c\<close> the first message lacks its newline and the local buffer
  holds what the stack held, \<open>stack\<close>.
\<close>

definition chr_write :: "string \<Rightarrow> string \<Rightarrow> nat \<Rightarrow> talker \<Rightarrow> (talker \<times> int) option" where
  "chr_write stack buffer len s = do {
     let s = tk_log (PrInfo ''someone wants to say something >:)'') s;
     r \<leftarrow> write_loop buffer 0 stack;
     w \<leftarrow> finish_line r;
     let s = tk_log (PrInfo (''he wants to'' @ nl)) s;
     line \<leftarrow> printk_data (cstr w);
     Some (tk_log (Printk line) s, int len)
   }"

definition proc_write :: "string \<Rightarrow> nat \<Rightarrow> talker \<Rightarrow> (talker \<times> int) option" where
  "proc_write buffer len s = do {
     let s = tk_log (PrInfo (''someone want to tell me something >:)'' @ nl)) s;
     r \<leftarrow> write_loop buffer 0 (toWrite s);
     w \<leftarrow> finish_line r;
     let s = tk_log (PrInfo (''he wants to'' @ nl)) (s\<lparr>toWrite := w\<rparr>);
     line \<leftarrow> printk_data (cstr w);
     Some (tk_log (Printk line) s, int len)
   }"

definition sys_write :: "string \<Rightarrow> nat \<Rightarrow> talker \<Rightarrow> (talker \<times> int) option" where
  "sys_write buffer len s = do {
     let s = tk_log (PrInfo (''someone want to tell me something >:)'' @ nl)) s;
     r \<leftarrow> write_loop buffer 0 (toWrite s);
     w \<leftarrow> finish_line r;
     let s = tk_log (PrInfo (''he wants to'' @ nl)) (s\<lparr>toWrite := w\<rparr>);
     line \<leftarrow> printk_data (cstr w);
     Some (tk_log (Printk line) s, int len)
   }"

text \<open>Loading and unloading; \<open>major\<close> and \<open>file\<close> are what the registrations answer.\<close>

definition chr_mod_start :: "int \<Rightarrow> talker \<Rightarrow> talker \<times> int" where
  "chr_mod_start major s =
     (let s = tk_log (ChrdevRegister major) s in
      if major < 0 then (tk_log (PrInfo (''My beautifull module... It'' @ [CHR 0x27] @ ''s not working'' @ nl)) s, - 1)
      else (tk_log (PrInfo (''My beautifull module is working!'' @ nl)) s, 0))"

definition chr_mod_exit :: "talker \<Rightarrow> talker" where
  "chr_mod_exit s =
     tk_log (PrInfo (''My beautifull module is going down'' @ nl)) (tk_log ChrdevUnregister s)"

definition proc_mod_init :: "talker \<Rightarrow> talker \<times> int" where
  "proc_mod_init s = (tk_log (ProcCreate ''hello_proc'') (s\<lparr>transaction_complete := 0\<rparr>), 0)"

definition proc_mod_exit :: "talker \<Rightarrow> talker" where
  "proc_mod_exit s = tk_log (ProcRemove ''hello_proc'') s"

definition sys_mod_init :: "int \<Rightarrow> talker \<Rightarrow> talker \<times> int" where
  "sys_mod_init file s =
     (let s = s\<lparr>transaction_complete := 0\<rparr>;
          s = tk_log (KobjectCreate ''my_sys_mod'') s;
          s = tk_log (SysfsCreate file) s
      in if file \<noteq> 0 then
           let s = tk_log KobjectPut s;
               s = tk_log (SysfsRemove ModuleKobj) s;
               s = tk_log (PrInfo (''Something wrong with my module :('' @ nl)) s
           in (s, - 1)
         else (tk_log (PrInfo (''Sysfs module is started'' @ nl)) s, 0))"

definition sys_mod_exit :: "talker \<Rightarrow> talker" where
  "sys_mod_exit s =
     tk_log (PrInfo (''Module is shutted down'' @ nl)) (tk_log (SysfsRemove KernelKobj) (tk_log KobjectPut s))"

section \<open>The contract of the read operation\<close>

text \<open>
  A reader delivers its message when it is fresh and reports the end of the file when it is
  not, and each read turns one into the other. The message needs room for its terminator too.
\<close>

locale one_shot_reader =
  fixes rd :: "nat \<Rightarrow> 's \<Rightarrow> ('s \<times> string \<times> int) option"
    and fresh :: "'s \<Rightarrow> bool"
  assumes rd_fresh: "fresh s \<Longrightarrow> length unworthy < room \<Longrightarrow>
      \<exists>t. rd room s = Some (t, unworthy, 22) \<and> \<not> fresh t"
    and rd_small: "fresh s \<Longrightarrow> room \<le> length unworthy \<Longrightarrow> rd room s = None"
    and rd_done: "\<not> fresh s \<Longrightarrow> \<exists>t. rd room s = Some (t, [], 0) \<and> fresh t"

text \<open>A sequence of reads, by whatever processes, each with its buffer.\<close>

fun reads :: "(nat \<Rightarrow> 's \<Rightarrow> ('s \<times> string \<times> int) option) \<Rightarrow> nat list \<Rightarrow> 's
    \<Rightarrow> (string \<times> int) list option" where
  "reads rd [] s = Some []"
| "reads rd (room # rooms) s =
     (case rd room s of
        None \<Rightarrow> None
      | Some (t, w, n) \<Rightarrow> map_option ((#) (w, n)) (reads rd rooms t))"

text \<open>Reading until the end of the file, as \<open>cat\<close> does.\<close>

fun read_file :: "(nat \<Rightarrow> 's \<Rightarrow> ('s \<times> string \<times> int) option) \<Rightarrow> nat \<Rightarrow> nat \<Rightarrow> 's
    \<Rightarrow> ('s \<times> string) option" where
  "read_file rd room 0 s = None"
| "read_file rd room (Suc fuel) s =
     (case rd room s of
        None \<Rightarrow> None
      | Some (t, w, n) \<Rightarrow>
          if n = 0 then Some (t, [])
          else map_option (\<lambda>(u, v). (u, take (nat n) w @ v)) (read_file rd room fuel t))"

definition alternating :: "bool \<Rightarrow> nat \<Rightarrow> (string \<times> int) list" where
  "alternating fresh n = map (\<lambda>k. if even k = fresh then (unworthy, 22) else ([], 0)) [0..<n]"

lemma alternating_Suc:
  "alternating f (Suc n) = (if f then (unworthy, 22) else ([], 0)) # alternating (\<not> f) n"
  by (simp add: alternating_def upt_conv_Cons map_Suc_upt [symmetric] comp_def del: upt_Suc)

context one_shot_reader
begin

lemma reads_alternate:
  "list_all (\<lambda>room. length unworthy < room) rooms \<Longrightarrow>
   reads rd rooms s = Some (alternating (fresh s) (length rooms))"
proof (induction rooms arbitrary: s)
  case (Cons room rooms)
  show ?case
  proof (cases "fresh s")
    case True
    with rd_fresh [OF True, of room] Cons show ?thesis by (auto simp: alternating_Suc)
  next
    case False
    with rd_done [OF False, of room] Cons show ?thesis by (auto simp: alternating_Suc)
  qed
qed (simp add: alternating_def)

lemma read_file_once:
  assumes "fresh s" and "length unworthy < room" and "2 \<le> fuel"
  shows "\<exists>t. read_file rd room fuel s = Some (t, unworthy) \<and> fresh t"
proof -
  obtain f where f: "fuel = Suc (Suc f)"
    using assms(3) by (metis add_2_eq_Suc le_Suc_ex)
  obtain t where t: "rd room s = Some (t, unworthy, 22)" "\<not> fresh t"
    using rd_fresh [OF assms(1,2)] by blast
  obtain u where "rd room t = Some (u, [], 0)" "fresh u"
    using rd_done [OF t(2), of room] by blast
  with t show ?thesis by (simp add: f unworthy_def nl_def)
qed

end

text \<open>The flag the three modules keep.\<close>

definition tk_fresh :: "talker \<Rightarrow> bool" where
  "tk_fresh s \<longleftrightarrow> transaction_complete s = 0"

lemma tk_log_simps [simp]:
  "transaction_complete (tk_log c s) = transaction_complete s" "toWrite (tk_log c s) = toWrite s"
  "tk_calls (tk_log c s) = tk_calls s @ [c]"
  by (simp_all add: tk_log_def)

interpretation chr_reader: one_shot_reader chr_read tk_fresh
  by unfold_locales (auto simp: chr_read_def tk_fresh_def sprintf_def Let_def)

interpretation proc_reader: one_shot_reader proc_read tk_fresh
  by unfold_locales (auto simp: proc_read_def tk_fresh_def sprintf_def Let_def)

interpretation sys_reader: one_shot_reader sys_read tk_fresh
  by unfold_locales (auto simp: sys_read_def tk_fresh_def sprintf_def Let_def)

text \<open>Reading from the modules. Whoever reads, with buffers of more than 22 bytes, the
  reads of each of the three files alternate between the whole message and the end of the
  file; so \<open>cat\<close> on a file not half read gets the message once and leaves it readable again.\<close>

theorem readers_alternate:
  assumes "list_all (\<lambda>room. 22 < room) rooms"
  shows "reads chr_read rooms s = Some (alternating (transaction_complete s = 0) (length rooms))
    \<and> reads proc_read rooms s = reads chr_read rooms s
    \<and> reads sys_read rooms s = reads chr_read rooms s
    \<and> (transaction_complete s = 0 \<and> rooms \<noteq> [] \<longrightarrow>
        (\<forall>fuel \<ge> 2. map_option snd (read_file chr_read (hd rooms) fuel s) = Some unworthy
          \<and> map_option snd (read_file proc_read (hd rooms) fuel s) = Some unworthy
          \<and> map_option snd (read_file sys_read (hd rooms) fuel s) = Some unworthy))"
proof -
  have len: "length unworthy = 22" by (simp add: unworthy_def nl_def)
  then have room: "list_all (\<lambda>room. length unworthy < room) rooms" using assms by simp
  have hd: "length unworthy < hd rooms" if "rooms \<noteq> []"
    using assms that by (cases rooms) (simp_all add: len)
  show ?thesis
    using chr_reader.reads_alternate [OF room, of s] proc_reader.reads_alternate [OF room, of s]
      sys_reader.reads_alternate [OF room, of s] chr_reader.read_file_once [of s "hd rooms"]
      proc_reader.read_file_once [of s "hd rooms"] sys_reader.read_file_once [of s "hd rooms"] hd
    by (fastforce simp: tk_fresh_def)
qed

theorem readers_alternate_witness:
  "reads proc_read [64, 4096, 23] \<lparr>transaction_complete = 1, toWrite = [], tk_calls = []\<rparr> =
     Some [([], 0), (unworthy, 22), ([], 0)]"
proof -
  have rooms: "list_all (\<lambda>room. 22 < room) [64, 4096, 23 :: nat]" by simp
  from readers_alternate [OF rooms, of "\<lparr>transaction_complete = 1, toWrite = [], tk_calls = []\<rparr>"]
  show ?thesis by (simp add: alternating_def upt_rec)
qed

section \<open>The line that is written\<close>

definition line_of :: "string \<Rightarrow> string" where
  "line_of buffer = takeWhile (\<lambda>c. c \<noteq> CHR 0x0A) buffer"

lemma write_loop_suffix:
  "write_loop (pre @ suf) (length pre) (pre @ rest) =
     (if CHR 0x0A \<in> set suf \<and> length (line_of suf) \<le> length rest
      then Some (length pre + length (line_of suf), pre @ line_of suf @ drop (length (line_of suf)) rest)
      else None)"
proof (induction suf arbitrary: pre rest)
  case Nil
  then show ?case by (simp add: write_loop.simps)
next
  case (Cons c suf)
  show ?case
  proof (cases "c = CHR 0x0A")
    case True
    then show ?thesis by (simp add: write_loop.simps line_of_def)
  next
    case False
    show ?thesis
    proof (cases rest)
      case Nil
      then show ?thesis using False by (subst write_loop.simps) (auto simp: line_of_def)
    next
      case (Cons r rs)
      have "write_loop (pre @ c # suf) (length pre) (pre @ rest) =
          write_loop ((pre @ [c]) @ suf) (length (pre @ [c])) ((pre @ [c]) @ rs)"
        using False Cons by (subst write_loop.simps) simp
      also note Cons.IH
      finally show ?thesis using False Cons by (simp add: line_of_def)
    qed
  qed
qed

lemma write_loop_line:
  "write_loop buffer 0 w =
     (if CHR 0x0A \<in> set buffer \<and> length (line_of buffer) \<le> length w
      then Some (length (line_of buffer), line_of buffer @ drop (length (line_of buffer)) w) else None)"
  using write_loop_suffix [of "[]" buffer w] by simp

text \<open>Both steps: the line, its newline and the terminator, in a buffer of 256 bytes.\<close>

definition store_line :: "string \<Rightarrow> string \<Rightarrow> string option" where
  "store_line buffer w = Option.bind (write_loop buffer 0 w) finish_line"

lemma store_line_eval:
  assumes "length w = 256"
  shows "store_line buffer w =
     (if CHR 0x0A \<in> set buffer \<and> length (line_of buffer) \<le> 254
      then Some (line_of buffer @ CHR 0x0A # NUL # drop (length (line_of buffer) + 2) w) else None)"
proof (cases "CHR 0x0A \<in> set buffer \<and> length (line_of buffer) \<le> 254")
  case True
  define l where "l = line_of buffer"
  have l: "length l \<le> 254" using True by (simp add: l_def)
  obtain a b t where "drop (length l) w = a # b # t"
  proof -
    have "2 \<le> length (drop (length l) w)" using assms l by simp
    then show ?thesis using that by (cases "drop (length l) w"; cases "tl (drop (length l) w)") auto
  qed
  moreover from this have "drop (length l + 2) w = t"
    by (metis add.commute drop_Suc_Cons drop0 drop_drop numeral_2_eq_2)
  ultimately show ?thesis
    using True l by (simp add: store_line_def write_loop_line finish_line_def assms flip: l_def)
      (simp add: list_update_append)
next
  case False
  have "finish_line (length (line_of buffer), line_of buffer @ drop (length (line_of buffer)) w) = None"
    if "254 < length (line_of buffer)" "length (line_of buffer) \<le> 256"
    using that assms by (simp add: finish_line_def)
  with False show ?thesis
    by (auto simp: store_line_def write_loop_line assms)
qed

text \<open>The three write operations over \<open>store_line\<close>.\<close>

definition write_outcome :: "string \<Rightarrow> string \<Rightarrow> string option" where
  "write_outcome buffer w = Option.bind (store_line buffer w) (\<lambda>v. printk_data (cstr v))"

lemma write_outcomes:
  "map_option snd (chr_write stack buffer len s) = map_option (\<lambda>_. int len) (write_outcome buffer stack)"
  "map_option snd (proc_write buffer len s) = map_option (\<lambda>_. int len) (write_outcome buffer (toWrite s))"
  "map_option snd (sys_write buffer len s) = map_option (\<lambda>_. int len) (write_outcome buffer (toWrite s))"
  by (auto simp: chr_write_def proc_write_def sys_write_def write_outcome_def store_line_def Let_def
      map_option_bind comp_def split: bind_splits option.splits)

text \<open>C31: writing to the three modules. A write succeeds exactly when the data contains a
  newline, the line before it has at most 254 characters, and the line is a harmless format
  string; without a newline the loop reads past the data, a longer line overruns \<open>toWrite\<close>, and a
  line with a conversion makes \<open>printk\<close> take an argument that is not there.\<close>

theorem writers_defined:
  assumes "length stack = 256" and "length (toWrite s) = 256"
  shows "(chr_write stack buffer len s \<noteq> None \<longleftrightarrow>
      CHR 0x0A \<in> set buffer \<and> length (line_of buffer) \<le> 254
      \<and> printk_data (cstr (line_of buffer @ nl)) \<noteq> None)
    \<and> (proc_write buffer len s \<noteq> None \<longleftrightarrow> chr_write stack buffer len s \<noteq> None)
    \<and> (sys_write buffer len s \<noteq> None \<longleftrightarrow> chr_write stack buffer len s \<noteq> None)"
proof -
  have cstr: "cstr (l @ CHR 0x0A # NUL # t) = cstr (l @ nl)" for l t
    by (auto simp: cstr_def takeWhile_append NUL_def nl_def)
  have outcome: "write_outcome buffer w \<noteq> None \<longleftrightarrow>
      CHR 0x0A \<in> set buffer \<and> length (line_of buffer) \<le> 254
      \<and> printk_data (cstr (line_of buffer @ nl)) \<noteq> None" if "length w = 256" for w
    using that cstr by (auto simp: write_outcome_def store_line_eval)
  have "map_option f x \<noteq> None \<longleftrightarrow> x \<noteq> None" for f :: "'a \<Rightarrow> 'b" and x by simp
  then show ?thesis
    using outcome [OF assms(1)] outcome [OF assms(2)] write_outcomes(1) [of stack buffer len s]
      write_outcomes(2,3) [of buffer len s] by (metis option.map_disc_iff)
qed

text \<open>A line of 254 characters is the longest; one more, and the write is undefined.\<close>

theorem writers_defined_witness:
  "length (replicate 256 NUL) = 256 \<and>
   chr_write (replicate 256 NUL) (replicate 254 (CHR ''x'') @ nl) 255
     \<lparr>transaction_complete = 0, toWrite = replicate 256 NUL, tk_calls = []\<rparr> \<noteq> None \<and>
   chr_write (replicate 256 NUL) (replicate 255 (CHR ''x'') @ nl) 256
     \<lparr>transaction_complete = 0, toWrite = replicate 256 NUL, tk_calls = []\<rparr> = None"
proof -
  let ?s = "\<lparr>transaction_complete = 0, toWrite = replicate 256 NUL, tk_calls = []\<rparr>"
  have len: "length (replicate 256 NUL) = 256" "length (toWrite ?s) = 256" by simp_all
  have line: "line_of (replicate n (CHR ''x'') @ nl) = replicate n (CHR ''x'')" for n
    by (induction n) (simp_all add: line_of_def nl_def)
  have plain: "printk_data (cstr (replicate n (CHR ''x'') @ nl)) \<noteq> None" for n
    by (induction n) (simp_all add: cstr_def nl_def NUL_def)
  have nl: "CHR 0x0A \<in> set (replicate n (CHR ''x'') @ nl)" for n by (simp add: nl_def)
  show ?thesis
    using writers_defined [OF len, THEN conjunct1, of "replicate 254 (CHR ''x'') @ nl" 255]
      writers_defined [OF len, THEN conjunct1, of "replicate 255 (CHR ''x'') @ nl" 256]
    by (simp only: line plain nl length_replicate) (simp del: not_None_eq)
qed

section \<open>Loading and unloading\<close>

lemma fw_calls_log [simp]: "fw_calls (fw_log c s) = fw_calls s @ [c]"
  by (simp add: fw_log_def)

text \<open>The life of the modules. Of a module that loads without an error and is unloaded,
  nothing stays registered: hook, kobject, file, proc entry and device are released.\<close>

theorem modules_release:
  "held (fw_calls (fw_mod_exit (fst (fw_mod_start 0 0 fw_init)))) = []
   \<and> held (kp_calls (kp_mod_exit (fst (kp_mod_start 0 0 kp_init)))) = []
   \<and> (0 \<le> major \<and> tk_calls s = [] \<longrightarrow> held (tk_calls (chr_mod_exit (fst (chr_mod_start major s)))) = [])
   \<and> (tk_calls s = [] \<longrightarrow> held (tk_calls (proc_mod_exit (fst (proc_mod_init s)))) = [])
   \<and> (tk_calls s = [] \<longrightarrow> held (tk_calls (sys_mod_exit (fst (sys_mod_init 0 s)))) = [])"
  by (simp add: fw_mod_start_def fw_mod_exit_def fw_init_def kp_mod_start_def kp_mod_exit_def kp_init_def
      chr_mod_start_def chr_mod_exit_def proc_mod_init_def proc_mod_exit_def sys_mod_init_def
      sys_mod_exit_def Let_def held_def)

theorem modules_release_witness:
  "held (tk_calls (chr_mod_exit (fst (chr_mod_start 0
      \<lparr>transaction_complete = 0, toWrite = [], tk_calls = []\<rparr>)))) = []"
  using modules_release [of 0 "\<lparr>transaction_complete = 0, toWrite = [], tk_calls = []\<rparr>"] by simp

text \<open>C32: loading that fails. When the sysfs file cannot be created, the two netfilter modules
  report the failure but leave their hook registered, and they use their kobject after putting
  its only reference. The firewall also reports a failure when only the hook could not be
  registered, and then leaves its kobject and its file behind, while the ping module reports
  success in that case.\<close>

theorem failed_load_leaks:
  "(file \<noteq> 0 \<longrightarrow>
      (let (s, r) = fw_mod_start 0 file fw_init in
         r < 0 \<and> held (fw_calls s) = [HookReg] \<and> uses_released False (fw_calls s))
      \<and> (let (s, r) = kp_mod_start 0 file kp_init in
         r < 0 \<and> held (kp_calls s) = [HookReg] \<and> uses_released False (kp_calls s)))
   \<and> (hook < 0 \<longrightarrow>
      (let (s, r) = fw_mod_start hook 0 fw_init in r < 0 \<and> held (fw_calls s) = [KobjReg, FileReg])
      \<and> (let (s, r) = kp_mod_start hook 0 kp_init in r = 0 \<and> held (kp_calls s) = [KobjReg, FileReg]))"
  by (simp add: fw_mod_start_def fw_init_def kp_mod_start_def kp_init_def Let_def
      held_def)

theorem failed_load_leaks_witness:
  "held (fw_calls (fst (fw_mod_start 0 (- 12) fw_init))) = [HookReg]"
  using failed_load_leaks [of "- 12" 0] by (auto simp: split_beta Let_def)

end
