(* ===== verification/Malloc.thy ===== *)
theory Malloc
  imports CLib
begin

text \<open>
  \<open>les12_malloc\<close>: an allocator over \<open>sbrk\<close> with a table of chunks, and a replacement of
  \<open>malloc\<close> that logs while \<open>hook_active\<close> is set. Addresses are integers, \<open>NULL\<close> is 0 and
  \<open>(void *) -1\<close> is -1. \<open>size_t\<close> has 64 bits, \<open>int\<close> has 32. The table is a function on its
  indices; an access outside \<open>0 .. 65534\<close> is \<open>None\<close>.
\<close>

section \<open>The state\<close>

type_synonym size_t = "64 word"

record malloc_chunk =
  ptr :: int
  chunk_size :: i32
  isFree :: i32

definition IS_FREE :: i32 where "IS_FREE = 0"
definition IS_NOT_FREE :: i32 where "IS_NOT_FREE = 1"

record allocator =
  chunk :: "nat \<Rightarrow> malloc_chunk"
  total_allocated :: i32
  chunk_index :: nat
  brk :: int
  brk_base :: int
  brk_limit :: int
  ma_out :: string

definition zero_chunk :: malloc_chunk where
  "zero_chunk = \<lparr>ptr = 0, chunk_size = 0, isFree = 0\<rparr>"

definition n_chunks :: nat where
  "n_chunks = 65535"

text \<open>The program start: the globals are zero; the break lies at \<open>base\<close>.\<close>

definition ma_init :: "int \<Rightarrow> int \<Rightarrow> allocator" where
  "ma_init base limit =
     \<lparr>chunk = (\<lambda>_. zero_chunk), total_allocated = 0, chunk_index = 0,
      brk = base, brk_base = base, brk_limit = limit, ma_out = []\<rparr>"

definition ma_print :: "string \<Rightarrow> allocator \<Rightarrow> allocator" where
  "ma_print w s = s\<lparr>ma_out := ma_out s @ w\<rparr>"

definition get_chunk :: "allocator \<Rightarrow> int \<Rightarrow> malloc_chunk option" where
  "get_chunk s i = (if 0 \<le> i \<and> i < int n_chunks then Some (chunk s (nat i)) else None)"

definition put_chunk :: "int \<Rightarrow> malloc_chunk \<Rightarrow> allocator \<Rightarrow> allocator option" where
  "put_chunk i c s =
     (if 0 \<le> i \<and> i < int n_chunks then Some (s\<lparr>chunk := (chunk s)(nat i := c)\<rparr>) else None)"

text \<open>
  \<open>sbrk\<close> of the C library: it moves the break and returns the old one, or -1 when the break
  would leave the data segment.
\<close>

definition sbrk :: "int \<Rightarrow> allocator \<Rightarrow> allocator \<times> int" where
  "sbrk inc s =
     (if brk_base s \<le> brk s + inc \<and> brk s + inc \<le> brk_limit s
      then (s\<lparr>brk := brk s + inc\<rparr>, brk s) else (s, - 1))"

section \<open>good_free and good_malloc\<close>

text \<open>
  \<open>for(i = 0; i < chunk_index; i++) if (chunk[chunk_index].ptr == ptr) break;\<close> The
  comparison does not depend on \<open>i\<close>.
\<close>

function free_loop :: "allocator \<Rightarrow> int \<Rightarrow> nat \<Rightarrow> nat option" where
  "free_loop s p i =
     (if i < chunk_index s then do {
        c \<leftarrow> get_chunk s (int (chunk_index s));
        if ptr c = p then Some i else free_loop s p (Suc i)
      } else Some i)"
  by pat_completeness auto
termination by (relation "measure (\<lambda>(s, p, i). chunk_index s - i)") auto

declare free_loop.simps [simp del]

definition good_free :: "int \<Rightarrow> allocator \<Rightarrow> allocator option" where
  "good_free p s = do {
     k \<leftarrow> free_loop s p 0;
     let i = int k - 1;
     c \<leftarrow> get_chunk s i;
     let s = ma_print (''free '' @ dec (sint (chunk_size c)) @ '' bytes at '' @ dec i @ '' seg'' @ nl) s;
     s \<leftarrow> put_chunk i (c\<lparr>isFree := IS_FREE\<rparr>) s;
     if i = int (chunk_index s) then
       let s = fst (sbrk (- sint (chunk_size c)) s)
       in Some (s\<lparr>total_allocated := total_allocated s - chunk_size c, chunk_index := chunk_index s - 1\<rparr>)
     else Some s
   }"

text \<open>The first free chunk whose size, converted to \<open>size_t\<close>, is at most the size asked for.\<close>

function find_chunk :: "allocator \<Rightarrow> size_t \<Rightarrow> nat \<Rightarrow> nat option option" where
  "find_chunk s n i =
     (if i < chunk_index s then do {
        c \<leftarrow> get_chunk s (int i);
        if isFree c = IS_FREE \<and> scast (chunk_size c) \<le> n then Some (Some i)
        else find_chunk s n (Suc i)
      } else Some None)"
  by pat_completeness auto
termination by (relation "measure (\<lambda>(s, n, i). chunk_index s - i)") auto

declare find_chunk.simps [simp del]

definition good_malloc :: "size_t \<Rightarrow> allocator \<Rightarrow> (allocator \<times> int) option" where
  "good_malloc n s = do {
     found \<leftarrow> find_chunk s n 0;
     case found of
       Some i \<Rightarrow> do {
         let s = ma_print (''founded '' @ dec (sint (ucast n :: i32)) @ '' b on ''
                     @ dec (int i) @ '' segment'' @ nl) s;
         c \<leftarrow> get_chunk s (int i);
         s \<leftarrow> put_chunk (int i) (c\<lparr>isFree := IS_NOT_FREE, chunk_size := ucast n\<rparr>) s;
         Some (s, ptr c)
       }
     | None \<Rightarrow> do {
         let s = ma_print (dec (sint (ucast n :: i32)) @ '' bytes UP'' @ nl) s;
         let (s, p) = sbrk (sint n) s;
         s \<leftarrow> put_chunk (int (chunk_index s))
                \<lparr>ptr = p, chunk_size = ucast n, isFree = IS_NOT_FREE\<rparr> s;
         Some (s\<lparr>chunk_index := chunk_index s + 1\<rparr>, p)
       }
   }"

section \<open>The logging malloc\<close>

text \<open>
  \<open>malloc\<close> and \<open>my_not_deprecated_malloc\<close> call each other; the second clears \<open>hook_active\<close>
  first. \<open>libc\<close> is \<open>__libc_malloc\<close>, a parameter; the state is the flag and the output.
\<close>

record hook_state =
  hook_active :: bool
  hk_out :: string

function malloc :: "(size_t \<Rightarrow> int) \<Rightarrow> size_t \<Rightarrow> hook_state \<Rightarrow> hook_state \<times> int"
  and my_not_deprecated_malloc :: "(size_t \<Rightarrow> int) \<Rightarrow> size_t \<Rightarrow> hook_state \<Rightarrow> hook_state \<times> int" where
  "malloc libc n s =
     (if hook_active s then my_not_deprecated_malloc libc n s else (s, libc n))"
| "my_not_deprecated_malloc libc n s =
     (let (t, result) = malloc libc n (s\<lparr>hook_active := False\<rparr>);
          t = t\<lparr>hk_out := hk_out t @ ''logging hook'' @ nl\<rparr>
      in (t\<lparr>hook_active := True\<rparr>, result))"
  by pat_completeness auto
termination
  by (relation "measure (\<lambda>x. case x of
        Inl (l, n, s) \<Rightarrow> (if hook_active s then 2 else (0 :: nat))
      | Inr (l, n, s) \<Rightarrow> 1)") auto

declare malloc.simps [simp del] my_not_deprecated_malloc.simps [simp del]

section \<open>main\<close>

text \<open>
  The loop of \<open>main\<close>: per turn one \<open>int\<close> is written through each of the three pointers. The
  addresses written, and the output.
\<close>

fun main_writes :: "int \<Rightarrow> int \<Rightarrow> int \<Rightarrow> nat \<Rightarrow> int list \<times> string" where
  "main_writes p p3 p4 0 = ([], [])"
| "main_writes p p3 p4 (Suc i) =
     (let (ws, out) = main_writes p p3 p4 i
      in (ws @ [p + 4 * int i, p3 + 4 * int i, p4 + 4 * int i], out @ dec (int i) @ '' OK'' @ nl))"

definition ma_main :: "int \<Rightarrow> int \<Rightarrow> (allocator \<times> int list \<times> int list) option" where
  "ma_main base limit = do {
     (s, p) \<leftarrow> good_malloc 32 (ma_init base limit);
     (s, p2) \<leftarrow> good_malloc 32 s;
     (s, p3) \<leftarrow> good_malloc 32 s;
     s \<leftarrow> good_free p2 s;
     (s, p4) \<leftarrow> good_malloc 32 s;
     let (ws, out) = main_writes p p3 p4 40;
     let s = ma_print out s;
     s \<leftarrow> good_free p s;
     s \<leftarrow> good_free p3 s;
     s \<leftarrow> good_free p4 s;
     let s = ma_print (''total allocated '' @ dec (sint (total_allocated s)) @ nl) s;
     Some (s, [p, p2, p3, p4], ws)
   }"

section \<open>Facts about the table\<close>

lemma ma_print_simps [simp]:
  "chunk (ma_print w s) = chunk s" "total_allocated (ma_print w s) = total_allocated s"
  "chunk_index (ma_print w s) = chunk_index s" "brk (ma_print w s) = brk s"
  "brk_base (ma_print w s) = brk_base s" "brk_limit (ma_print w s) = brk_limit s"
  by (simp_all add: ma_print_def)

lemma put_chunk_some:
  "put_chunk i c s = Some t \<longleftrightarrow>
     0 \<le> i \<and> i < int n_chunks \<and> t = s\<lparr>chunk := (chunk s)(nat i := c)\<rparr>"
  by (auto simp: put_chunk_def)

text \<open>Where the loop of \<open>good_free\<close> stops.\<close>

lemma free_loop_eval:
  assumes "chunk_index s < n_chunks"
  shows "free_loop s p i =
    Some (if i < chunk_index s \<and> ptr (chunk s (chunk_index s)) = p then i else max i (chunk_index s))"
proof (induction "chunk_index s - i" arbitrary: i)
  case 0
  then show ?case by (simp add: free_loop.simps)
next
  case (Suc k)
  then have "i < chunk_index s" "k = chunk_index s - Suc i" by simp_all
  with Suc(1) [of "Suc i"] assms show ?case
    by (subst free_loop.simps) (simp add: get_chunk_def max_def)
qed

lemma free_loop_full:
  "chunk_index s = n_chunks \<Longrightarrow> free_loop s p 0 = None"
  by (subst free_loop.simps) (simp add: get_chunk_def n_chunks_def)

text \<open>What the search of \<open>good_malloc\<close> finds.\<close>

definition fits :: "allocator \<Rightarrow> size_t \<Rightarrow> nat \<Rightarrow> bool" where
  "fits s n i \<longleftrightarrow> isFree (chunk s i) = IS_FREE \<and> scast (chunk_size (chunk s i)) \<le> n"

lemma find_chunk_eval:
  assumes "chunk_index s \<le> n_chunks"
  shows "find_chunk s n i =
    Some (if \<exists>j \<ge> i. j < chunk_index s \<and> fits s n j
          then Some (LEAST j. i \<le> j \<and> fits s n j) else None)"
proof (induction "chunk_index s - i" arbitrary: i)
  case 0
  then show ?case by (subst find_chunk.simps) auto
next
  case (Suc k)
  then have i: "i < chunk_index s" "k = chunk_index s - Suc i" by simp_all
  show ?case
  proof (cases "fits s n i")
    case True
    then have "(LEAST j. i \<le> j \<and> fits s n j) = i" by (auto intro: Least_equality)
    with True i assms show ?thesis
      by (subst find_chunk.simps) (auto simp: get_chunk_def fits_def)
  next
    case False
    then have "(i \<le> j \<and> fits s n j) = (Suc i \<le> j \<and> fits s n j)" for j
      by (auto simp: Suc_le_eq order.order_iff_strict)
    with False i assms Suc(1) [of "Suc i"] show ?thesis
      by (subst find_chunk.simps) (auto simp: get_chunk_def fits_def Suc_le_eq
          intro!: arg_cong [of _ _ Least])
  qed
qed

text \<open>A successful \<open>good_malloc\<close>: a chunk in use again, or a new one at the break.\<close>

lemma good_malloc_cases:
  assumes "good_malloc n s = Some (t, p)" and "chunk_index s \<le> n_chunks"
  obtains
    (reuse) i where "i < chunk_index s" "fits s n i" "p = ptr (chunk s i)"
      "chunk t = (chunk s)(i := (chunk s i)\<lparr>isFree := IS_NOT_FREE, chunk_size := ucast n\<rparr>)"
      "chunk_index t = chunk_index s" "brk t = brk s"
      "brk_base t = brk_base s" "brk_limit t = brk_limit s" "total_allocated t = total_allocated s"
  | (fresh) "\<forall>i < chunk_index s. \<not> fits s n i" "chunk_index s < n_chunks"
      "chunk t = (chunk s)(chunk_index s := \<lparr>ptr = p, chunk_size = ucast n, isFree = IS_NOT_FREE\<rparr>)"
      "chunk_index t = chunk_index s + 1"
      "brk_base t = brk_base s" "brk_limit t = brk_limit s" "total_allocated t = total_allocated s"
      "p = snd (sbrk (sint n) s)" "brk t = brk (fst (sbrk (sint n) s))"
proof (cases "\<exists>j < chunk_index s. fits s n j")
  case True
  define i where "i = (LEAST j. fits s n j)"
  from True have i: "fits s n i" "i < chunk_index s"
    unfolding i_def by (blast intro: LeastI, metis LeastI_ex not_less_Least not_less order_le_less_trans)
  have find: "find_chunk s n 0 = Some (Some i)"
    using True by (subst find_chunk_eval [OF assms(2)]) (auto simp: i_def)
  have "i < n_chunks" using i assms(2) by simp
  with assms(1) i show thesis
    by (intro reuse [of i]) (auto simp: good_malloc_def find get_chunk_def put_chunk_some Let_def
        bind_eq_Some_conv)
next
  case False
  then have "find_chunk s n 0 = Some None"
    by (subst find_chunk_eval [OF assms(2)]) auto
  with assms(1) False show thesis
    by (intro fresh) (auto simp: good_malloc_def put_chunk_some Let_def sbrk_def
        bind_eq_Some_conv split: if_splits)
qed

text \<open>The two outcomes the other way round, the output left open.\<close>

lemma good_malloc_new:
  assumes "\<forall>i < chunk_index s. \<not> fits s n i" and "chunk_index s < n_chunks"
    and "brk_base s \<le> brk s + sint n" and "brk s + sint n \<le> brk_limit s"
  shows "\<exists>out. good_malloc n s = Some (s\<lparr>brk := brk s + sint n, ma_out := out,
    chunk := (chunk s)(chunk_index s := \<lparr>ptr = brk s, chunk_size = ucast n, isFree = IS_NOT_FREE\<rparr>),
    chunk_index := chunk_index s + 1\<rparr>, brk s)"
proof -
  have "find_chunk s n 0 = Some None"
    using assms by (subst find_chunk_eval) auto
  with assms show ?thesis
    by (simp add: good_malloc_def sbrk_def put_chunk_def Let_def)
      (cases s, simp add: ma_print_def)
qed

lemma good_malloc_reuse:
  assumes "fits s n i" and "i < chunk_index s" and "\<forall>j < i. \<not> fits s n j"
    and "chunk_index s \<le> n_chunks"
  shows "\<exists>out. good_malloc n s = Some (s\<lparr>ma_out := out,
    chunk := (chunk s)(i := (chunk s i)\<lparr>isFree := IS_NOT_FREE, chunk_size := ucast n\<rparr>)\<rparr>, ptr (chunk s i))"
proof -
  have "(LEAST j. fits s n j) = i"
    using assms(1,3) by (intro Least_equality) (auto simp: not_less [symmetric])
  with assms have "find_chunk s n 0 = Some (Some i)"
    by (subst find_chunk_eval) auto
  with assms show ?thesis
    by (simp add: good_malloc_def get_chunk_def put_chunk_def Let_def)
      (cases s, simp add: ma_print_def)
qed

text \<open>What \<open>good_free\<close> does, when it does anything: it frees the last chunk.\<close>

definition free_last :: "allocator \<Rightarrow> allocator" where
  "free_last s = s\<lparr>chunk := (chunk s)(chunk_index s - 1 := (chunk s (chunk_index s - 1))\<lparr>isFree := IS_FREE\<rparr>)\<rparr>"

lemma good_free_eval:
  assumes "chunk_index s \<le> n_chunks"
  shows "good_free p s =
    (if 0 < chunk_index s \<and> chunk_index s < n_chunks \<and> ptr (chunk s (chunk_index s)) \<noteq> p
     then Some (ma_print (''free '' @ dec (sint (chunk_size (chunk s (chunk_index s - 1)))) @ '' bytes at ''
            @ dec (int (chunk_index s) - 1) @ '' seg'' @ nl) (free_last s))
     else None)"
proof (cases "chunk_index s = n_chunks")
  case True
  then show ?thesis by (simp add: good_free_def free_loop_full)
next
  case False
  with assms have lt: "chunk_index s < n_chunks" by simp
  show ?thesis
  proof (cases "0 < chunk_index s \<and> ptr (chunk s (chunk_index s)) \<noteq> p")
    case True
    then have "free_loop s p 0 = Some (chunk_index s)"
      using free_loop_eval [OF lt, of p 0] by simp
    moreover have "nat (int (chunk_index s) - 1) = chunk_index s - 1" by simp
    moreover have "get_chunk s (int (chunk_index s) - 1) = Some (chunk s (chunk_index s - 1))"
      using True lt by (simp add: get_chunk_def nat_diff_distrib)
    ultimately show ?thesis
      using True lt by (simp add: good_free_def put_chunk_def Let_def free_last_def ma_print_def)
  next
    case False
    then have "free_loop s p 0 = Some 0" using free_loop_eval [OF lt, of p 0] by auto
    with False show ?thesis by (auto simp: good_free_def get_chunk_def)
  qed
qed

lemma free_last_simps [simp]:
  "total_allocated (free_last s) = total_allocated s" "chunk_index (free_last s) = chunk_index s"
  "brk (free_last s) = brk s" "brk_base (free_last s) = brk_base s" "brk_limit (free_last s) = brk_limit s"
  by (simp_all add: free_last_def)

section \<open>Programs over the allocator\<close>

text \<open>Any sequence of calls.\<close>

inductive ma_move :: "allocator \<Rightarrow> allocator \<Rightarrow> bool" where
  mv_malloc: "good_malloc n s = Some (t, p) \<Longrightarrow> ma_move s t"
| mv_free: "good_free p s = Some t \<Longrightarrow> ma_move s t"

definition ma_inv :: "allocator \<Rightarrow> bool" where
  "ma_inv s \<longleftrightarrow> chunk_index s \<le> n_chunks \<and> total_allocated s = 0
     \<and> (\<forall>i \<ge> chunk_index s. ptr (chunk s i) = 0)"

lemma ma_inv_malloc: "good_malloc n s = Some (t, p) \<Longrightarrow> ma_inv s \<Longrightarrow> ma_inv t"
  by (erule good_malloc_cases) (auto simp: ma_inv_def)

lemma ma_inv_free: "good_free p s = Some t \<Longrightarrow> ma_inv s \<Longrightarrow> ma_inv t"
  by (auto simp: ma_inv_def good_free_eval free_last_def split: if_splits)

interpretation ma_machine: invariant_machine "\<lambda>s. \<exists>base limit. s = ma_init base limit" ma_move ma_inv
proof unfold_locales
  show "ma_inv s" if "\<exists>base limit. s = ma_init base limit" for s
    using that by (auto simp: ma_inv_def ma_init_def zero_chunk_def)
  show "ma_inv t" if "ma_inv s" "ma_move s t" for s t
    using that(2,1) by cases (auto intro: ma_inv_malloc ma_inv_free)
qed

text \<open>C21: \<open>good_free\<close> in any state a program reaches with \<open>good_malloc\<close> and \<open>good_free\<close>. The
  loop compares with the entry behind the last one, which is always empty, so the pointer
  plays no part: the last chunk allocated is marked free, whoever holds it. Memory is never
  given back, the break and the number of chunks stay, and \<open>total_allocated\<close> is always 0. A
  null pointer, or a call before any chunk was allocated, leaves the table.\<close>

theorem good_free_frees_last:
  assumes "reachable (\<lambda>s. \<exists>base limit. s = ma_init base limit) ma_move s" and "chunk_index s < n_chunks"
  shows "total_allocated s = 0
    \<and> good_free 0 s = None \<and> (chunk_index s = 0 \<longrightarrow> good_free p s = None)
    \<and> (0 < chunk_index s \<and> p \<noteq> 0 \<longrightarrow> (\<exists>t. good_free p s = Some t
        \<and> brk t = brk s \<and> chunk_index t = chunk_index s
        \<and> isFree (chunk t (chunk_index s - 1)) = IS_FREE
        \<and> (\<forall>i. i \<noteq> chunk_index s - 1 \<longrightarrow> chunk t i = chunk s i)))"
proof -
  have inv: "ma_inv s" by (rule ma_machine.inv_reachable [OF assms(1)])
  then have "ptr (chunk s (chunk_index s)) = 0" "chunk_index s \<le> n_chunks" by (auto simp: ma_inv_def)
  with assms(2) inv show ?thesis
    by (auto simp: ma_inv_def good_free_eval free_last_def)
qed

theorem good_free_frees_last_witness:
  "\<exists>s p1 p2. ma_move (ma_init 4096 8192) s \<and> good_malloc 32 (ma_init 4096 8192) = Some (s, p1)
     \<and> (\<exists>t. good_free p2 s = Some t \<and> p2 \<noteq> p1 \<and> isFree (chunk t 0) = IS_FREE)"
proof -
  obtain s where s: "good_malloc 32 (ma_init 4096 8192) = Some (s, 4096)" "chunk_index s = 1"
    using good_malloc_new [of "ma_init 4096 8192" 32]
    by (auto simp: ma_init_def n_chunks_def)
  then have move: "ma_move (ma_init 4096 8192) s" by (blast intro: mv_malloc)
  have "reachable (\<lambda>s. \<exists>base limit. s = ma_init base limit) ma_move s"
    by (rule reach_step [where s = "ma_init 4096 8192"]) (use move in blast)+
  from good_free_frees_last [OF this, of 77] s show ?thesis
    using move by (intro exI [of _ s] exI [of _ 4096] exI [of _ 77]) (auto simp: n_chunks_def)
qed

section \<open>One size only\<close>

text \<open>A program that asks for one size \<open>n\<close> throughout, as \<open>main\<close> does with 32.\<close>

inductive uni_move :: "size_t \<Rightarrow> allocator \<Rightarrow> allocator \<Rightarrow> bool" for n where
  um_malloc: "good_malloc n s = Some (t, p) \<Longrightarrow> uni_move n s t"
| um_free: "good_free p s = Some t \<Longrightarrow> uni_move n s t"

text \<open>
  The first \<open>m\<close> chunks lie one behind the other from the base to the break; the others are
  those for which \<open>sbrk\<close> failed.
\<close>

definition uni_layout :: "size_t \<Rightarrow> allocator \<Rightarrow> nat \<Rightarrow> bool" where
  "uni_layout n s m \<longleftrightarrow> m \<le> chunk_index s \<and> chunk_index s \<le> n_chunks
     \<and> brk s = brk_base s + int (unat n) * int m
     \<and> (\<forall>i < m. ptr (chunk s i) = brk_base s + int (unat n) * int i)
     \<and> (\<forall>i < chunk_index s. m \<le> i \<longrightarrow> ptr (chunk s i) = - 1)
     \<and> (m < chunk_index s \<longrightarrow> brk_limit s < brk s + int (unat n))
     \<and> (\<forall>i < chunk_index s. chunk_size (chunk s i) = ucast n)"

definition uni_inv :: "size_t \<Rightarrow> allocator \<Rightarrow> bool" where
  "uni_inv n s \<longleftrightarrow> (\<exists>m. uni_layout n s m)"

definition small_size :: "size_t \<Rightarrow> bool" where
  "small_size n \<longleftrightarrow> 0 < n \<and> unat n < 2147483648"

lemma small_size_bounds: "small_size n \<Longrightarrow> uint n < 2147483648"
proof -
  assume "small_size n"
  then have "int (unat n) < int 2147483648" by (simp only: small_size_def of_nat_less_iff)
  then show ?thesis by simp
qed

lemma uint_above: "- (2 ^ k) \<le> uint w"
  by (rule order_trans [OF _ uint_ge_0]) simp

lemma small_size_int: "small_size n \<Longrightarrow> sint n = int (unat n)"
  using small_size_bounds [of n] uint_above [of 63 n]
  by (simp add: sint_uint) (rule signed_take_bit_int_eq_self, simp_all)

lemma small_size_ucast: "small_size n \<Longrightarrow> sint (ucast n :: i32) = int (unat n)"
  using small_size_bounds [of n] uint_above [of 31 n]
  by (simp add: sint_uint unsigned_ucast_eq take_bit_int_eq_self) (rule signed_take_bit_int_eq_self, simp_all)

lemma uni_malloc_layout:
  assumes "good_malloc n s = Some (t, p)" and "uni_layout n s m" and "small_size n"
  shows "\<exists>m'. uni_layout n t m'"
  using assms(1)
proof (rule good_malloc_cases)
  show "chunk_index s \<le> n_chunks" using assms(2) by (simp add: uni_layout_def)
next
  fix i
  assume "i < chunk_index s" and
    "chunk t = (chunk s)(i := (chunk s i)\<lparr>isFree := IS_NOT_FREE, chunk_size := ucast n\<rparr>)"
    "chunk_index t = chunk_index s" "brk t = brk s" "brk_base t = brk_base s" "brk_limit t = brk_limit s"
  with assms(2) have "uni_layout n t m" unfolding uni_layout_def by (simp only: fun_upd_apply) auto
  then show ?thesis ..
next
  assume new: "chunk_index s < n_chunks"
    "chunk t = (chunk s)(chunk_index s := \<lparr>ptr = p, chunk_size = ucast n, isFree = IS_NOT_FREE\<rparr>)"
    "chunk_index t = chunk_index s + 1" "brk_base t = brk_base s" "brk_limit t = brk_limit s"
    "p = snd (sbrk (sint n) s)" "brk t = brk (fst (sbrk (sint n) s))"
  note layout = assms(2) [unfolded uni_layout_def]
  show ?thesis
  proof (cases "brk s + int (unat n) \<le> brk_limit s")
    case True
    with layout have m: "m = chunk_index s" by (metis le_less not_less)
    have "0 \<le> int (unat n) * int m" by simp
    then have "sbrk (sint n) s = (s\<lparr>brk := brk s + int (unat n)\<rparr>, brk s)"
      using True layout by (simp add: sbrk_def small_size_int [OF assms(3)])
    then have "uni_layout n t (m + 1)"
      using layout new m by (auto simp: uni_layout_def algebra_simps less_Suc_eq)
    then show ?thesis ..
  next
    case False
    then have "sbrk (sint n) s = (s, - 1)"
      by (simp add: sbrk_def small_size_int [OF assms(3)])
    then have "uni_layout n t m"
      using layout new False by (auto simp: uni_layout_def less_Suc_eq)
    then show ?thesis ..
  qed
qed

lemma uni_free_layout: "good_free p s = Some t \<Longrightarrow> uni_layout n s m \<Longrightarrow> uni_layout n t m"
  by (auto simp: uni_layout_def good_free_eval free_last_def split: if_splits)

interpretation uni_machine: invariant_machine
  "\<lambda>s. small_size n \<and> (\<exists>base limit. s = ma_init base limit)" "\<lambda>s t. small_size n \<and> uni_move n s t"
  "uni_inv n" for n
proof unfold_locales
  show "uni_inv n s" if "small_size n \<and> (\<exists>base limit. s = ma_init base limit)" for s
    using that by (auto simp: uni_inv_def uni_layout_def ma_init_def)
  show "uni_inv n t" if "uni_inv n s" "small_size n \<and> uni_move n s t" for s t
    using that uni_malloc_layout uni_free_layout unfolding uni_inv_def
    by (metis uni_move.cases)
qed

lemma uni_reachable_limit:
  "reachable (\<lambda>s. s = ma_init base limit) (uni_move n) s \<Longrightarrow> small_size n \<Longrightarrow>
   reachable (\<lambda>s. small_size n \<and> (\<exists>base limit. s = ma_init base limit)) (\<lambda>s t. small_size n \<and> uni_move n s t) s"
  by (induction rule: reachable.induct) (blast intro: reach_start reach_step)+

text \<open>Disjoint and inside the data segment: the block of a chunk as \<open>[ptr, ptr + size)\<close>.\<close>

definition block_end :: "malloc_chunk \<Rightarrow> int" where
  "block_end c = ptr c + sint (chunk_size c)"

lemma uni_layout_blocks:
  assumes "uni_layout n s m" and "small_size n" and "i < chunk_index s" and "ptr (chunk s i) \<noteq> - 1"
  shows "i < m \<and> ptr (chunk s i) = brk_base s + int (unat n) * int i
    \<and> block_end (chunk s i) = brk_base s + int (unat n) * int (Suc i)"
proof -
  have "i < m" using assms by (auto simp: uni_layout_def not_less [symmetric])
  with assms show ?thesis
    by (auto simp: uni_layout_def block_end_def small_size_ucast algebra_simps)
qed

text \<open>C15: a program that asks for blocks of one size only, and frees in whatever way. The
  blocks in the table, in use or not, lie inside the data segment, and no two overlap; a block
  for which \<open>sbrk\<close> failed is recorded with the address -1.\<close>

theorem uniform_blocks_disjoint:
  assumes "small_size n" and "reachable (\<lambda>s. s = ma_init base limit) (uni_move n) s"
    and "i < chunk_index s" and "ptr (chunk s i) \<noteq> - 1"
  shows "brk_base s \<le> ptr (chunk s i) \<and> block_end (chunk s i) \<le> brk s
    \<and> (\<forall>j < chunk_index s. j \<noteq> i \<and> ptr (chunk s j) \<noteq> - 1 \<longrightarrow>
        block_end (chunk s i) \<le> ptr (chunk s j) \<or> block_end (chunk s j) \<le> ptr (chunk s i))"
proof -
  obtain m where m: "uni_layout n s m"
    using uni_machine.inv_reachable [OF uni_reachable_limit [OF assms(2,1)]] by (auto simp: uni_inv_def)
  have le: "int (unat n) * int a \<le> int (unat n) * int b" if "a \<le> b" for a b :: nat
    using that by (intro mult_left_mono) simp_all
  note i = uni_layout_blocks [OF m assms(1,3,4)]
  show ?thesis
  proof (intro conjI allI impI)
    show "brk_base s \<le> ptr (chunk s i)" using i by simp
    show "block_end (chunk s i) \<le> brk s"
      using i m le [of "Suc i" m] by (simp add: uni_layout_def)
    fix j
    assume j: "j < chunk_index s" "j \<noteq> i \<and> ptr (chunk s j) \<noteq> - 1"
    with uni_layout_blocks [OF m assms(1), of j] i le [of "Suc i" j] le [of "Suc j" i]
    show "block_end (chunk s i) \<le> ptr (chunk s j) \<or> block_end (chunk s j) \<le> ptr (chunk s i)"
      by (cases "i < j") simp_all
  qed
qed

lemma malloc_init:
  assumes "small_size n" and "base + int (unat n) \<le> limit"
  shows "\<exists>s. good_malloc n (ma_init base limit) = Some (s, base) \<and> chunk_index s = 1
    \<and> chunk s 0 = \<lparr>ptr = base, chunk_size = ucast n, isFree = IS_NOT_FREE\<rparr>
    \<and> chunk s 1 = zero_chunk \<and> brk s = base + int (unat n) \<and> brk_base s = base \<and> brk_limit s = limit"
  using good_malloc_new [of "ma_init base limit" n] assms small_size_int [OF assms(1)]
  by (auto simp: ma_init_def n_chunks_def)

theorem uniform_blocks_disjoint_witness:
  "small_size 32 \<and> (\<exists>s. uni_move 32 (ma_init 4096 8192) s \<and> 0 < chunk_index s
     \<and> ptr (chunk s 0) = 4096 \<and> block_end (chunk s 0) \<le> brk s)"
proof -
  have small: "small_size 32" by (simp add: small_size_def)
  from malloc_init [OF small, of 4096 8192] obtain s where
    s: "good_malloc 32 (ma_init 4096 8192) = Some (s, 4096)" "chunk_index s = 1" "ptr (chunk s 0) = 4096"
    by auto
  then have move: "uni_move 32 (ma_init 4096 8192) s" by (blast intro: um_malloc)
  have "reachable (\<lambda>s. s = ma_init 4096 8192) (uni_move 32) s"
    by (rule reach_step [where s = "ma_init 4096 8192"]) (use move in blast)+
  from uniform_blocks_disjoint [OF small this, of 0] s move small show ?thesis by auto
qed

text \<open>C36: two sizes. When a block of \<open>m\<close> bytes is freed and a block of \<open>n > m\<close> bytes is asked
  for, \<open>good_malloc\<close> takes the smaller block, since it wants a chunk of at most the size asked
  for: it returns a block that reaches beyond the end of the data segment. A smaller block
  than the free one is never taken from it: the data segment grows.\<close>

theorem smaller_chunk_is_taken:
  assumes "small_size m" and "small_size n" and "m \<noteq> n" and "0 < base"
    and "base + int (unat m) + int (unat n) \<le> limit"
  shows "\<exists>s t u. good_malloc m (ma_init base limit) = Some (s, base) \<and> good_free base s = Some t
    \<and> (if m < n then good_malloc n t = Some (u, base) \<and> brk u < block_end (chunk u 0)
       else good_malloc n t = Some (u, base + int (unat m)) \<and> brk u = base + int (unat m) + int (unat n))"
proof -
  have "base + int (unat m) \<le> limit" using assms(5) by linarith
  from malloc_init [OF assms(1) this]
  obtain s where s: "good_malloc m (ma_init base limit) = Some (s, base)" "chunk_index s = 1"
    "chunk s 0 = \<lparr>ptr = base, chunk_size = ucast m, isFree = IS_NOT_FREE\<rparr>" "chunk s 1 = zero_chunk"
    "brk s = base + int (unat m)" "brk_base s = base" "brk_limit s = limit"
    by blast
  then obtain t where t: "good_free base s = Some t" "chunk_index t = 1"
    "chunk t 0 = \<lparr>ptr = base, chunk_size = ucast m, isFree = IS_FREE\<rparr>"
    "brk t = base + int (unat m)" "brk_base t = base" "brk_limit t = limit"
    using assms(4) by (simp add: good_free_eval n_chunks_def zero_chunk_def free_last_def)
  have "scast (ucast m :: i32) = m"
    by (simp only: scast_eq small_size_ucast [OF assms(1)]) simp
  then have fits: "fits t n 0 \<longleftrightarrow> m < n"
    using assms(3) t by (auto simp: fits_def)
  show ?thesis
  proof (cases "m < n")
    case True
    with good_malloc_reuse [of t n 0] fits t obtain u where
      "good_malloc n t = Some (u, base)" "brk u = base + int (unat m)"
      "chunk u 0 = \<lparr>ptr = base, chunk_size = ucast n, isFree = IS_NOT_FREE\<rparr>"
      by (auto simp: n_chunks_def)
    moreover have "uint m < uint n" using True by (simp add: word_less_def)
    ultimately show ?thesis
      using s t True by (auto simp: block_end_def small_size_ucast [OF assms(2)])
  next
    case False
    with good_malloc_new [of t n] fits t assms(5) obtain u where
      "good_malloc n t = Some (u, base + int (unat m))" "brk u = base + int (unat m) + int (unat n)"
      by (auto simp: n_chunks_def small_size_int [OF assms(2)])
    with s t False show ?thesis by auto
  qed
qed

theorem smaller_chunk_is_taken_witness:
  "small_size 16 \<and> small_size 64 \<and>
   (\<exists>s t u. good_malloc 16 (ma_init 4096 8192) = Some (s, 4096) \<and> good_free 4096 s = Some t
     \<and> good_malloc 64 t = Some (u, 4096) \<and> brk u < block_end (chunk u 0))"
proof -
  have small: "small_size 16" "small_size 64" by (simp_all add: small_size_def)
  have "(16 :: size_t) < 64" by simp
  with smaller_chunk_is_taken [OF small, of 4096 8192] small show ?thesis by auto
qed

section \<open>The program\<close>

definition block_of :: "int \<Rightarrow> malloc_chunk" where
  "block_of p = \<lparr>ptr = p, chunk_size = 32, isFree = IS_NOT_FREE\<rparr>"

lemma main_writes_addresses:
  "set (fst (main_writes p p3 p4 n)) = (\<Union>i < n. {p + 4 * int i, p3 + 4 * int i, p4 + 4 * int i})"
  by (induction n) (auto simp: split_beta Let_def lessThan_Suc)

text \<open>\<open>good_malloc(32)\<close> while no chunk is free.\<close>

lemma malloc_32:
  assumes "\<forall>i < chunk_index s. isFree (chunk s i) = IS_NOT_FREE" and "chunk_index s < 10"
    and "brk_base s \<le> brk s" and "brk s + 32 \<le> brk_limit s"
  shows "\<exists>out. good_malloc 32 s = Some (s\<lparr>brk := brk s + 32, ma_out := out,
    chunk := (chunk s)(chunk_index s := block_of (brk s)), chunk_index := chunk_index s + 1\<rparr>, brk s)"
  using good_malloc_new [of s 32] assms
  by (auto simp: fits_def n_chunks_def block_of_def IS_FREE_def IS_NOT_FREE_def)

lemma main_allocations:
  assumes "base + 96 \<le> limit"
  shows "\<exists>s out. do { (s, p) \<leftarrow> good_malloc 32 (ma_init base limit);
      (s, p2) \<leftarrow> good_malloc 32 s; (s, p3) \<leftarrow> good_malloc 32 s; Some (s, p, p2, p3) }
    = Some (s, base, base + 32, base + 64)
    \<and> s = \<lparr>chunk = (\<lambda>_. zero_chunk)(0 := block_of base, Suc 0 := block_of (base + 32), 2 := block_of (base + 64)),
         total_allocated = 0, chunk_index = 3, brk = base + 96, brk_base = base, brk_limit = limit, ma_out = out\<rparr>"
proof -
  obtain o1 where s1: "good_malloc 32 (ma_init base limit) = Some (\<lparr>chunk = (\<lambda>_. zero_chunk)(0 := block_of base),
      total_allocated = 0, chunk_index = Suc 0, brk = base + 32, brk_base = base, brk_limit = limit, ma_out = o1\<rparr>, base)"
    (is "_ = Some (?s1, _)")
    using malloc_32 [of "ma_init base limit"] assms by (auto simp: ma_init_def)
  have used: "isFree (block_of p) = IS_NOT_FREE" for p by (simp add: block_of_def)
  obtain o2 where s2: "good_malloc 32 ?s1 = Some (\<lparr>chunk = (\<lambda>_. zero_chunk)(0 := block_of base, Suc 0 := block_of (base + 32)),
      total_allocated = 0, chunk_index = 2, brk = base + 64, brk_base = base, brk_limit = limit, ma_out = o2\<rparr>, base + 32)"
    (is "_ = Some (?s2, _)")
    using malloc_32 [of ?s1] assms used by (auto simp: numeral_2_eq_2)
  obtain o3 where s3: "good_malloc 32 ?s2 = Some (\<lparr>chunk = (\<lambda>_. zero_chunk)(0 := block_of base, Suc 0 := block_of (base + 32),
      2 := block_of (base + 64)),
      total_allocated = 0, chunk_index = 3, brk = base + 96, brk_base = base, brk_limit = limit, ma_out = o3\<rparr>, base + 64)"
    using malloc_32 [of ?s2] assms used by (auto simp: less_Suc_eq numeral_2_eq_2 numeral_3_eq_3)
  show ?thesis by (simp add: s1 s2 s3)
qed

lemma good_free_chunks:
  assumes "chunk_index s = 3" and "p \<noteq> 0" and "ptr (chunk s 3) = 0"
  shows "\<exists>out. good_free p s = Some (s\<lparr>ma_out := out,
    chunk := (chunk s)(2 := (chunk s 2)\<lparr>isFree := IS_FREE\<rparr>)\<rparr>)"
  using assms by (cases s) (simp add: good_free_eval n_chunks_def free_last_def ma_print_def)

text \<open>\<open>main\<close> of \<open>les12_malloc\<close>. It asks for three blocks of 32 bytes, frees the second and
  asks for a fourth: it gets the third block again, which is still in use. Its 40 writes of
  four bytes through each pointer run past the end of the data segment, and at the end the
  first two blocks are still marked in use, although the first three were freed.\<close>

theorem main_gets_live_block:
  assumes "0 < base" and "base + 96 \<le> limit"
  shows "\<exists>s ws. ma_main base limit = Some (s, [base, base + 32, base + 64, base + 64], ws)
    \<and> brk s = base + 96 \<and> base + 64 + 4 * 39 \<in> set ws
    \<and> isFree (chunk s 0) = IS_NOT_FREE \<and> isFree (chunk s 1) = IS_NOT_FREE
    \<and> isFree (chunk s 2) = IS_FREE \<and> total_allocated s = 0"
proof -
  let ?tab = "\<lambda>f. (\<lambda>_. zero_chunk)(0 := block_of base, Suc 0 := block_of (base + 32),
      2 := (block_of (base + 64))\<lparr>isFree := f\<rparr>)"
  define st where "st f out = \<lparr>chunk = ?tab f, total_allocated = 0, chunk_index = 3, brk = base + 96,
    brk_base = base, brk_limit = limit, ma_out = out\<rparr>" for f out
  have free: "\<exists>out'. good_free p (st f out) = Some (st IS_FREE out')" if "p \<noteq> 0" for p f out
    using good_free_chunks [of "st f out" p] that by (auto simp: st_def zero_chunk_def)
  have fits: "fits (st IS_FREE out) 32 i \<longleftrightarrow> i \<ge> 2" if "i < 3" for i out
    using that by (auto simp: less_Suc_eq numeral_3_eq_3 numeral_2_eq_2 fits_def st_def block_of_def
        IS_FREE_def IS_NOT_FREE_def)
  have again: "\<exists>out'. good_malloc 32 (st IS_FREE out) = Some (st IS_NOT_FREE out', base + 64)" for out
    using good_malloc_reuse [of "st IS_FREE out" 32 2] fits [of _ out]
    by (auto simp: st_def n_chunks_def block_of_def)
  have used: "(block_of p)\<lparr>isFree := IS_NOT_FREE\<rparr> = block_of p" for p by (simp add: block_of_def)
  obtain out where start: "do { (s, p) \<leftarrow> good_malloc 32 (ma_init base limit);
      (s, p2) \<leftarrow> good_malloc 32 s; (s, p3) \<leftarrow> good_malloc 32 s; Some (s, p, p2, p3) }
    = Some (st IS_NOT_FREE out, base, base + 32, base + 64)"
    using main_allocations [OF assms(2)] by (auto simp: st_def used)
  have print: "ma_print w (st f out) = st f (out @ w)" for w f out
    by (simp add: ma_print_def st_def)
  obtain ws o' where ws: "main_writes base (base + 64) (base + 64) 40 = (ws, o')"
    by (cases "main_writes base (base + 64) (base + 64) 40")
  then have "base + 64 + 4 * 39 \<in> set ws"
    using main_writes_addresses [of base "base + 64" "base + 64" 40] by (auto intro!: bexI [of _ 39])
  moreover have "\<exists>out'. ma_main base limit =
      Some (st IS_FREE out', [base, base + 32, base + 64, base + 64], ws)"
  proof -
    obtain s1 s2 where s: "good_malloc 32 (ma_init base limit) = Some (s1, base)"
      "good_malloc 32 s1 = Some (s2, base + 32)" "good_malloc 32 s2 = Some (st IS_NOT_FREE out, base + 64)"
      using start by (auto simp: bind_eq_Some_conv split: prod.splits)
    obtain o1 where "good_free (base + 32) (st IS_NOT_FREE out) = Some (st IS_FREE o1)"
      using free assms(1) by (metis add_nonneg_eq_0_iff less_imp_le zero_less_numeral less_irrefl)
    moreover obtain o2 where "good_malloc 32 (st IS_FREE o1) = Some (st IS_NOT_FREE o2, base + 64)"
      using again by blast
    moreover obtain o3 where "good_free base (st IS_NOT_FREE (o2 @ o')) = Some (st IS_FREE o3)"
      using free [of base] assms(1) by blast
    moreover obtain o4 where "good_free (base + 64) (st IS_FREE o3) = Some (st IS_FREE o4)"
      using free [of "base + 64"] assms(1) by fastforce
    moreover obtain o5 where "good_free (base + 64) (st IS_FREE o4) = Some (st IS_FREE o5)"
      using free [of "base + 64"] assms(1) by fastforce
    ultimately show ?thesis using s ws by (simp add: ma_main_def print) blast
  qed
  ultimately show ?thesis
    by (auto simp: st_def block_of_def)
qed

theorem main_gets_live_block_witness:
  "\<exists>s ws. ma_main 4096 139264 = Some (s, [4096, 4128, 4160, 4160], ws) \<and> brk s = 4192 \<and> 4316 \<in> set ws"
  using main_gets_live_block [of 4096 139264] by auto

section \<open>The hook\<close>

text \<open>The replaced \<open>malloc\<close> always returns, with the pointer of the C library's and the
  flag as it was; it logs exactly when the hook is active, once, although the logging function
  calls \<open>malloc\<close> again.\<close>

theorem malloc_logs_once:
  "malloc libc n s =
     (s\<lparr>hk_out := hk_out s @ (if hook_active s then ''logging hook'' @ nl else [])\<rparr>, libc n)"
  by (cases s) (simp add: malloc.simps my_not_deprecated_malloc.simps)

end
