(* ===== verification/LifeSim.thy ===== *)
theory LifeSim
  imports Prelude
begin

text \<open>
  \<open>lifeSimulator.c\<close> of \<open>les14_threads\<close>: two providers and three buyers share five storages,
  each with a mutex that every thread only tries. The model interleaves the threads at the
  granularity of their accesses to shared variables: \<open>remains[i] += ...\<close> is a load and a store,
  and a buyer looks at \<open>remains[i]\<close> before it tries the mutex. Sleeping is a step that changes
  nothing; \<open>demands[b]\<close> is read and written by its own buyer only, so both writes of \<open>buy\<close> are
  one step. The arrays are functions of their index; the program's indices are constants in
  range. Amounts are integers: storage \<open>i\<close> holds at most 1000 plus 500 per delivery, and a
  delivery takes four seconds, so \<open>int\<close> does not overflow within centuries.
\<close>

section \<open>Constants and state\<close>

definition START_DEMAND :: int where "START_DEMAND = 10000"
definition BUY_RESTRICT :: int where "BUY_RESTRICT = 150"
definition START_AMOUNT :: int where "START_AMOUNT = 1000"
definition PROV_AMOUNT :: int where "PROV_AMOUNT = 500"
definition PROV_SLEEP :: int where "PROV_SLEEP = 1"
definition N_STORAGES :: nat where "N_STORAGES = 5"
definition N_BUYERS :: nat where "N_BUYERS = 3"
definition N_PROVIDERS :: nat where "N_PROVIDERS = 2"

text \<open>Where a provider stands in \<open>provider_logic\<close>; \<open>PStore i r\<close> has loaded \<open>remains[i]\<close>.\<close>

datatype prov_pc =
    PTry nat
  | PLoad nat
  | PStore nat int
  | PTell nat
  | PUnlock nat
  | PAsleep

text \<open>Where a buyer stands in \<open>buyer_logic\<close>.\<close>

datatype buyer_pc =
    BLoop
  | BLook nat
  | BTry nat
  | BEnter nat
  | BLoad nat
  | BStore nat int
  | BUnlock nat
  | BExit nat
  | BDone

datatype thread_id = Prov nat | Buyer nat

record life =
  remains :: "nat \<Rightarrow> int"
  demands :: "nat \<Rightarrow> int"
  storage_mut :: "nat \<Rightarrow> thread_id option"
  prov :: "nat \<Rightarrow> prov_pc"
  buyer :: "nat \<Rightarrow> buyer_pc"
  deliveries :: nat
  lf_out :: "string list"

text \<open>
  What \<open>main\<close> sets up before the threads take their first steps. \<open>deliveries\<close> counts the
  executions of \<open>provide\<close>; the program has no such variable.
\<close>

definition life_init :: life where
  "life_init = \<lparr>remains = (\<lambda>_. START_AMOUNT), demands = (\<lambda>_. START_DEMAND), storage_mut = (\<lambda>_. None),
     prov = (\<lambda>_. PTry 0), buyer = (\<lambda>_. BLoop), deliveries = 0, lf_out = []\<rparr>"

definition lf_print :: "string \<Rightarrow> life \<Rightarrow> life" where
  "lf_print w s = s\<lparr>lf_out := lf_out s @ [w]\<rparr>"

section \<open>The threads\<close>

text \<open>\<open>provide\<close> on the value loaded.\<close>

definition provide :: "int \<Rightarrow> int" where
  "provide r = r + PROV_AMOUNT"

text \<open>The next step of provider \<open>p\<close> in \<open>provider_logic\<close>.\<close>

definition prov_step :: "nat \<Rightarrow> life \<Rightarrow> life" where
  "prov_step p s =
     (case prov s p of
        PTry i \<Rightarrow>
          if i < N_STORAGES then
            (if storage_mut s i = None
             then s\<lparr>storage_mut := (storage_mut s)(i := Some (Prov p)), prov := (prov s)(p := PLoad i)\<rparr>
             else s\<lparr>prov := (prov s)(p := PTry (i + 1))\<rparr>)
          else s\<lparr>prov := (prov s)(p := PTry 0)\<rparr>
      | PLoad i \<Rightarrow> s\<lparr>prov := (prov s)(p := PStore i (remains s i))\<rparr>
      | PStore i r \<Rightarrow>
          s\<lparr>remains := (remains s)(i := provide r), deliveries := deliveries s + 1,
            prov := (prov s)(p := PTell i)\<rparr>
      | PTell i \<Rightarrow>
          lf_print (''provider '' @ dec (int p) @ '' delivered some goods to '' @ dec (int i)
                    @ '' storage (now it has '' @ dec (remains s i) @ '')'' @ nl)
            (s\<lparr>prov := (prov s)(p := PUnlock i)\<rparr>)
      | PUnlock i \<Rightarrow>
          s\<lparr>storage_mut := (storage_mut s)(i := None), prov := (prov s)(p := PAsleep)\<rparr>
      | PAsleep \<Rightarrow>
          lf_print (''provider falled asleep for '' @ dec PROV_SLEEP @ '' secs'' @ nl)
            (s\<lparr>prov := (prov s)(p := PTry 0)\<rparr>))"

text \<open>\<open>buy\<close>: from what the storage has and the buyer wants to what remains of both.\<close>

definition buy :: "int \<Rightarrow> int \<Rightarrow> int \<times> int" where
  "buy r d =
     (if r > 0 then
        (if r \<le> BUY_RESTRICT \<and> d \<ge> r then (0, d - r)
         else if r \<le> BUY_RESTRICT \<and> d < r then (r - d, 0)
         else if r > BUY_RESTRICT \<and> d \<ge> BUY_RESTRICT then (r - BUY_RESTRICT, d - BUY_RESTRICT)
         else if r > BUY_RESTRICT \<and> d < BUY_RESTRICT then (r - d, 0)
         else (r, d))
      else (r, d))"

definition status_line :: "nat \<Rightarrow> int \<Rightarrow> string \<Rightarrow> nat \<Rightarrow> int \<Rightarrow> string" where
  "status_line b d verb i r =
     ''Buyer '' @ dec (int b) @ '' (want '' @ dec d @ '') '' @ verb @ '' storage '' @ dec (int i)
     @ '' (storage has '' @ dec r @ '')'' @ nl"

text \<open>The next step of buyer \<open>b\<close> in \<open>buyer_logic\<close>, none when it has returned.\<close>

definition buyer_step :: "nat \<Rightarrow> life \<Rightarrow> life option" where
  "buyer_step b s =
     (case buyer s b of
        BLoop \<Rightarrow> Some (s\<lparr>buyer := (buyer s)(b := if demands s b > 0 then BLook 0 else BDone)\<rparr>)
      | BLook i \<Rightarrow>
          Some (s\<lparr>buyer := (buyer s)(b := if i < N_STORAGES
                                        then (if remains s i > 0 then BTry i else BLook (i + 1))
                                        else BLoop)\<rparr>)
      | BTry i \<Rightarrow>
          Some (if storage_mut s i = None
                then s\<lparr>storage_mut := (storage_mut s)(i := Some (Buyer b)), buyer := (buyer s)(b := BEnter i)\<rparr>
                else s\<lparr>buyer := (buyer s)(b := BLook (i + 1))\<rparr>)
      | BEnter i \<Rightarrow>
          Some (lf_print (status_line b (demands s b) ''entered'' i (remains s i))
                  (s\<lparr>buyer := (buyer s)(b := BLoad i)\<rparr>))
      | BLoad i \<Rightarrow> Some (s\<lparr>buyer := (buyer s)(b := BStore i (remains s i))\<rparr>)
      | BStore i r \<Rightarrow>
          (let (r', d') = buy r (demands s b)
           in Some (s\<lparr>remains := (remains s)(i := r'), demands := (demands s)(b := d'),
                      buyer := (buyer s)(b := BUnlock i)\<rparr>))
      | BUnlock i \<Rightarrow>
          Some (s\<lparr>storage_mut := (storage_mut s)(i := None), buyer := (buyer s)(b := BExit i)\<rparr>)
      | BExit i \<Rightarrow>
          Some (lf_print (status_line b (demands s b) ''exited'' i (remains s i))
                  (s\<lparr>buyer := (buyer s)(b := BLook (i + 1))\<rparr>))
      | BDone \<Rightarrow> None)"

text \<open>Any thread takes its next step.\<close>

inductive life_step :: "life \<Rightarrow> life \<Rightarrow> bool" where
  ls_prov: "p < N_PROVIDERS \<Longrightarrow> life_step s (prov_step p s)"
| ls_buyer: "b < N_BUYERS \<Longrightarrow> buyer_step b s = Some t \<Longrightarrow> life_step s t"

section \<open>Locks\<close>

fun prov_holds :: "prov_pc \<Rightarrow> nat option" where
  "prov_holds (PLoad i) = Some i"
| "prov_holds (PStore i r) = Some i"
| "prov_holds (PTell i) = Some i"
| "prov_holds (PUnlock i) = Some i"
| "prov_holds _ = None"

fun buyer_holds :: "buyer_pc \<Rightarrow> nat option" where
  "buyer_holds (BEnter i) = Some i"
| "buyer_holds (BLoad i) = Some i"
| "buyer_holds (BStore i r) = Some i"
| "buyer_holds (BUnlock i) = Some i"
| "buyer_holds _ = None"

text \<open>The storage in whose critical section a thread is.\<close>

fun holds :: "life \<Rightarrow> thread_id \<Rightarrow> nat option" where
  "holds s (Prov p) = prov_holds (prov s p)"
| "holds s (Buyer b) = buyer_holds (buyer s b)"

text \<open>A mutex is owned by exactly the thread that is in its critical section.\<close>

definition lock_inv :: "life \<Rightarrow> bool" where
  "lock_inv s \<longleftrightarrow> (\<forall>t i. holds s t = Some i \<longleftrightarrow> storage_mut s i = Some t)"

text \<open>The value a thread has loaded is still the value of the storage.\<close>

definition loaded_inv :: "life \<Rightarrow> bool" where
  "loaded_inv s \<longleftrightarrow>
     (\<forall>p i r. prov s p = PStore i r \<longrightarrow> r = remains s i)
     \<and> (\<forall>b i r. buyer s b = BStore i r \<longrightarrow> r = remains s i)"

definition in_range :: "life \<Rightarrow> bool" where
  "in_range s \<longleftrightarrow> (\<forall>t i. holds s t = Some i \<longrightarrow> i < N_STORAGES)
     \<and> (\<forall>b i. buyer s b = BTry i \<longrightarrow> i < N_STORAGES)"

definition stock_inv :: "life \<Rightarrow> bool" where
  "stock_inv s \<longleftrightarrow> (\<forall>i. 0 \<le> remains s i) \<and> (\<forall>b. 0 \<le> demands s b)
     \<and> (\<forall>b. buyer s b = BDone \<longrightarrow> demands s b = 0)
     \<and> (\<Sum>i < N_STORAGES. remains s i) + (\<Sum>b < N_BUYERS. START_DEMAND - demands s b)
       = int N_STORAGES * START_AMOUNT + PROV_AMOUNT * int (deliveries s)"

definition life_inv :: "life \<Rightarrow> bool" where
  "life_inv s \<longleftrightarrow> lock_inv s \<and> loaded_inv s \<and> in_range s \<and> stock_inv s"

text \<open>What \<open>buy\<close> takes: as much as there is and as is wanted, at most 150.\<close>

lemma buy_amount:
  assumes "0 \<le> r" and "0 \<le> d"
  shows "buy r d = (r - min r (min d BUY_RESTRICT), d - min r (min d BUY_RESTRICT))"
  using assms by (auto simp: buy_def BUY_RESTRICT_def)

section \<open>The invariants\<close>

lemma lf_print_simps [simp]:
  "remains (lf_print w s) = remains s" "demands (lf_print w s) = demands s"
  "storage_mut (lf_print w s) = storage_mut s" "prov (lf_print w s) = prov s"
  "buyer (lf_print w s) = buyer s" "deliveries (lf_print w s) = deliveries s"
  by (simp_all add: lf_print_def)

lemma holds_def2: "holds s t = (case t of Prov p \<Rightarrow> prov_holds (prov s p) | Buyer b \<Rightarrow> buyer_holds (buyer s b))"
  by (cases t) simp_all

text \<open>Which change of the locks keeps them consistent.\<close>

lemma lock_inv_keep:
  "lock_inv s \<Longrightarrow> storage_mut t = storage_mut s \<Longrightarrow> (\<forall>x. holds t x = holds s x) \<Longrightarrow> lock_inv t"
  by (simp add: lock_inv_def)

lemma lock_inv_take:
  "lock_inv s \<Longrightarrow> storage_mut s i = None \<Longrightarrow> holds s x = None \<Longrightarrow>
   storage_mut t = (storage_mut s)(i := Some x) \<Longrightarrow> (\<forall>y. holds t y = (if y = x then Some i else holds s y)) \<Longrightarrow>
   lock_inv t"
  unfolding lock_inv_def by (auto split: if_splits) (metis option.distinct(1))+

lemma lock_inv_drop:
  "lock_inv s \<Longrightarrow> holds s x = Some i \<Longrightarrow>
   storage_mut t = (storage_mut s)(i := None) \<Longrightarrow> (\<forall>y. holds t y = (if y = x then None else holds s y)) \<Longrightarrow>
   lock_inv t"
  unfolding lock_inv_def by (auto split: if_splits) (metis option.inject)+

lemma prov_step_holds:
  "holds (prov_step p s) x = (if x = Prov p then prov_holds (prov (prov_step p s) p) else holds s x)"
  by (cases x; cases "prov s p") (auto simp: prov_step_def)

lemma buyer_step_holds:
  "buyer_step b s = Some t \<Longrightarrow> holds t x = (if x = Buyer b then buyer_holds (buyer t b) else holds s x)"
  by (cases x; cases "buyer s b") (auto simp: buyer_step_def split: if_splits prod.splits)

lemma prov_step_lock: "lock_inv s \<Longrightarrow> lock_inv (prov_step p s)"
proof -
  assume inv: "lock_inv s"
  show ?thesis
  proof (cases "prov s p")
    case (PTry i)
    show ?thesis
    proof (cases "i < N_STORAGES \<and> storage_mut s i = None")
      case True
      with PTry show ?thesis
        by (intro lock_inv_take [OF inv, of i "Prov p"])
          (simp_all add: prov_step_holds, simp_all add: prov_step_def)
    next
      case False
      with PTry show ?thesis
        by (intro lock_inv_keep [OF inv]) (simp_all add: prov_step_holds, auto simp: prov_step_def)
    qed
  next
    case (PUnlock i)
    then show ?thesis
      by (intro lock_inv_drop [OF inv, of "Prov p" i])
        (simp_all add: prov_step_holds, simp_all add: prov_step_def)
  qed (rule lock_inv_keep [OF inv], simp add: prov_step_def, simp add: prov_step_holds,
      simp add: prov_step_def)+
qed

lemma buyer_step_lock:
  assumes inv: "lock_inv s" and step: "buyer_step b s = Some t"
  shows "lock_inv t"
proof (cases "buyer s b")
  case (BTry i)
  show ?thesis
  proof (cases "storage_mut s i = None")
    case True
    with BTry step show ?thesis
      by (intro lock_inv_take [OF inv, of i "Buyer b"])
        (simp_all add: buyer_step_holds [OF step], auto simp: buyer_step_def)
  next
    case False
    with BTry step show ?thesis
      by (intro lock_inv_keep [OF inv]) (simp_all add: buyer_step_holds [OF step], auto simp: buyer_step_def)
  qed
next
  case (BUnlock i)
  with step show ?thesis
    by (intro lock_inv_drop [OF inv, of "Buyer b" i])
      (simp_all add: buyer_step_holds [OF step], auto simp: buyer_step_def)
qed (rule lock_inv_keep [OF inv],
    use step in \<open>force simp: buyer_step_def split: prod.splits if_splits\<close>,
    use step in \<open>simp add: buyer_step_holds [OF step]\<close>,
    use step in \<open>force simp: buyer_step_def split: prod.splits if_splits\<close>)+

lemma lock_unique: "lock_inv s \<Longrightarrow> holds s x = Some i \<Longrightarrow> holds s y = Some i \<Longrightarrow> x = y"
  unfolding lock_inv_def by (metis option.inject)

lemma store_excludes:
  assumes "lock_inv s" and "holds s x = Some i"
  shows "prov s p = PStore i r \<Longrightarrow> x = Prov p" and "buyer s b = BStore i r \<Longrightarrow> x = Buyer b"
  using lock_unique [OF assms, of "Prov p"] lock_unique [OF assms, of "Buyer b"] by simp_all

text \<open>A step that leaves the storages alone, or changes one that its thread holds.\<close>

lemma loaded_inv_step:
  assumes "loaded_inv s" and "lock_inv s"
    and "remains t = remains s \<or> (\<exists>i r. holds s x = Some i \<and> remains t = (remains s)(i := r))"
    and "\<forall>p. Prov p \<noteq> x \<longrightarrow> prov t p = prov s p" and "\<forall>b. Buyer b \<noteq> x \<longrightarrow> buyer t b = buyer s b"
    and "\<forall>p i r. x = Prov p \<and> prov t p = PStore i r \<longrightarrow> r = remains t i"
    and "\<forall>b i r. x = Buyer b \<and> buyer t b = BStore i r \<longrightarrow> r = remains t i"
  shows "loaded_inv t"
  unfolding loaded_inv_def
proof (intro conjI allI impI)
  fix p i r
  assume a: "prov t p = PStore i r"
  show "r = remains t i"
  proof (cases "x = Prov p")
    case False
    with a assms(4) have "prov s p = PStore i r" by auto
    with assms(1,2,3) False show ?thesis
      by (auto simp: loaded_inv_def dest: store_excludes)
  qed (use a assms(6) in auto)
next
  fix b i r
  assume a: "buyer t b = BStore i r"
  show "r = remains t i"
  proof (cases "x = Buyer b")
    case False
    with a assms(5) have "buyer s b = BStore i r" by auto
    with assms(1,2,3) False show ?thesis
      by (auto simp: loaded_inv_def dest: store_excludes)
  qed (use a assms(7) in auto)
qed

lemma prov_step_loaded: "loaded_inv s \<Longrightarrow> lock_inv s \<Longrightarrow> loaded_inv (prov_step p s)"
  by (rule loaded_inv_step [where s = s and x = "Prov p"])
    (auto simp: prov_step_def split: prov_pc.splits if_splits)

lemma buyer_step_loaded: "loaded_inv s \<Longrightarrow> lock_inv s \<Longrightarrow> buyer_step b s = Some t \<Longrightarrow> loaded_inv t"
  by (rule loaded_inv_step [where s = s and x = "Buyer b"])
    (auto simp: buyer_step_def split: buyer_pc.splits if_splits prod.splits)

lemma in_range_step:
  assumes "in_range s" and "\<forall>y. y \<noteq> x \<longrightarrow> holds t y = holds s y"
    and "\<forall>b. Buyer b \<noteq> x \<longrightarrow> buyer t b = buyer s b"
    and "\<forall>i. holds t x = Some i \<longrightarrow> i < N_STORAGES"
    and "\<forall>b i. x = Buyer b \<and> buyer t b = BTry i \<longrightarrow> i < N_STORAGES"
  shows "in_range t"
  using assms unfolding in_range_def by metis

lemma prov_step_in_range: "in_range s \<Longrightarrow> in_range (prov_step p s)"
proof (rule in_range_step [where s = s and x = "Prov p"])
  assume inv: "in_range s"
  then have "\<forall>i. prov_holds (prov s p) = Some i \<longrightarrow> i < N_STORAGES"
    unfolding in_range_def by (metis holds.simps(1))
  then show "\<forall>i. holds (prov_step p s) (Prov p) = Some i \<longrightarrow> i < N_STORAGES"
    by (auto simp: prov_step_def split: prov_pc.splits if_splits)
qed (auto simp: prov_step_holds, auto simp: prov_step_def split: prov_pc.splits if_splits)

lemma buyer_step_in_range: "in_range s \<Longrightarrow> buyer_step b s = Some t \<Longrightarrow> in_range t"
proof (rule in_range_step [where s = s and x = "Buyer b"])
  assume inv: "in_range s" and step: "buyer_step b s = Some t"
  from inv have "\<forall>i. buyer_holds (buyer s b) = Some i \<longrightarrow> i < N_STORAGES"
    "\<forall>i. buyer s b = BTry i \<longrightarrow> i < N_STORAGES"
    unfolding in_range_def by (metis holds.simps(2), blast)
  with step show "\<forall>i. holds t (Buyer b) = Some i \<longrightarrow> i < N_STORAGES"
    by (auto simp: buyer_step_def split: buyer_pc.splits if_splits prod.splits)
  show "\<forall>c. Buyer c \<noteq> Buyer b \<longrightarrow> buyer t c = buyer s c"
    using step by (auto simp: buyer_step_def split: buyer_pc.splits if_splits prod.splits)
  show "\<forall>c i. Buyer b = Buyer c \<and> buyer t c = BTry i \<longrightarrow> i < N_STORAGES"
    using step by (auto simp: buyer_step_def split: buyer_pc.splits if_splits prod.splits)
qed (auto simp: buyer_step_holds)

lemma sum_upd:
  "k < n \<Longrightarrow> (\<Sum>i < n. (f(k := v)) i) = (\<Sum>i < n. f i) - f k + (v :: int)" for n k :: nat
proof (induction n)
  case (Suc n)
  show ?case
  proof (cases "k = n")
    case True
    have "(\<Sum>i < n. (f(n := v)) i) = (\<Sum>i < n. f i)" by (rule sum.cong) auto
    with True show ?thesis by simp
  next
    case False
    with Suc show ?thesis by simp
  qed
qed simp

lemma prov_step_stock:
  assumes "stock_inv s" and "loaded_inv s" and "in_range s"
  shows "stock_inv (prov_step p s)"
proof (cases "\<exists>i r. prov s p = PStore i r")
  case True
  then obtain i r where st: "prov s p = PStore i r" by blast
  then have r: "r = remains s i" and i: "i < N_STORAGES"
    using assms by (auto simp: loaded_inv_def in_range_def dest!: spec [of _ "Prov p"])
  with st assms(1) show ?thesis
    by (auto simp: stock_inv_def prov_step_def provide_def PROV_AMOUNT_def sum_upd [OF i] algebra_simps
        simp del: fun_upd_apply intro!: add_nonneg_nonneg) (simp_all add: fun_upd_apply)
next
  case False
  with assms(1) show ?thesis
    by (cases "prov s p") (auto simp: stock_inv_def prov_step_def)
qed

lemma buy_bounds:
  assumes "buy r d = (r', d')" and "0 \<le> r" and "0 \<le> d"
  shows "0 \<le> r'" and "0 \<le> d'" and "r' - d' = r - d" and "d' \<le> d"
  using assms buy_amount [OF assms(2,3)] by (auto simp: min_def BUY_RESTRICT_def split: if_splits)

lemma buyer_step_stock:
  assumes "stock_inv s" and "loaded_inv s" and "in_range s" and "b < N_BUYERS" and "buyer_step b s = Some t"
  shows "stock_inv t"
proof (cases "\<exists>i r. buyer s b = BStore i r")
  case True
  then obtain i r where st: "buyer s b = BStore i r" by blast
  then have r: "r = remains s i" and i: "i < N_STORAGES"
    using assms by (auto simp: loaded_inv_def in_range_def dest!: spec [of _ "Buyer b"])
  obtain r' d' where buy: "buy r (demands s b) = (r', d')" by fastforce
  with assms(5) st have t: "remains t = (remains s)(i := r')" "demands t = (demands s)(b := d')"
    "buyer t = (buyer s)(b := BUnlock i)" "deliveries t = deliveries s"
    by (auto simp: buyer_step_def)
  have bounds: "0 \<le> r'" "0 \<le> d'" "r' - d' = r - demands s b"
    using buy_bounds [OF buy] assms(1) by (simp_all add: r stock_inv_def)
  have "(\<Sum>c < N_BUYERS. START_DEMAND - demands t c) =
      (\<Sum>c < N_BUYERS. START_DEMAND - demands s c) + (demands s b - d')"
    using sum_upd [OF assms(4), of "\<lambda>c. START_DEMAND - demands s c" "START_DEMAND - d'"]
    by (simp add: t fun_upd_def if_distrib cong: if_cong)
  with sum_upd [OF i, of "remains s" r'] bounds r assms(1) show ?thesis
    by (auto simp: stock_inv_def t)
next
  case False
  have "0 \<le> demands s b" using assms(1) by (simp add: stock_inv_def)
  then have "\<not> 0 < demands s b \<Longrightarrow> demands s b = 0" by simp
  with False assms(1,5) show ?thesis
    by (cases "buyer s b") (auto simp: stock_inv_def buyer_step_def split: if_splits prod.splits)
qed

lemma life_step_inv: "life_inv s \<Longrightarrow> life_step s t \<Longrightarrow> life_inv t"
  by (erule life_step.cases)
    (auto simp: life_inv_def prov_step_lock prov_step_loaded prov_step_in_range prov_step_stock
      intro: buyer_step_lock buyer_step_loaded buyer_step_in_range buyer_step_stock)

lemma life_init_inv: "life_inv life_init"
proof -
  have "holds life_init t = None" for t by (cases t) (simp_all add: life_init_def)
  then show ?thesis
    by (auto simp: life_inv_def lock_inv_def loaded_inv_def in_range_def stock_inv_def life_init_def
        START_AMOUNT_def START_DEMAND_def)
qed

interpretation life_machine: invariant_machine "\<lambda>s. s = life_init" life_step life_inv
  by unfold_locales (auto intro: life_init_inv life_step_inv)

section \<open>What the simulation guarantees\<close>

text \<open>C5: mutual exclusion. In every state the simulation reaches, two threads are never in the
  critical section of the same storage, a thread's critical section owns the mutex, and the
  amount a thread has loaded from a storage and is about to update is still what it holds: no
  update is lost, though providers and buyers never wait for a mutex.\<close>

theorem storage_exclusive:
  assumes "reachable (\<lambda>s. s = life_init) life_step s"
  shows "(holds s x = Some i \<and> holds s y = Some i \<longrightarrow> x = y)
    \<and> (holds s x = Some i \<longleftrightarrow> storage_mut s i = Some x)
    \<and> (prov s p = PStore i r \<longrightarrow> r = remains s i) \<and> (buyer s b = BStore i r \<longrightarrow> r = remains s i)"
  using life_machine.inv_reachable [OF assms]
  by (auto simp: life_inv_def loaded_inv_def lock_inv_def dest: lock_unique)

theorem storage_exclusive_witness:
  "life_step life_init (prov_step 1 life_init) \<and> holds (prov_step 1 life_init) (Prov 1) = Some 0
   \<and> storage_mut (prov_step 1 life_init) 0 = Some (Prov 1)"
proof -
  have step: "life_step life_init (prov_step 1 life_init)"
    by (rule ls_prov) (simp add: N_PROVIDERS_def)
  have reach: "reachable (\<lambda>s. s = life_init) life_step (prov_step 1 life_init)"
    by (rule reach_step [where s = life_init], rule reach_start, rule refl, rule step)
  have "holds (prov_step 1 life_init) (Prov 1) = Some 0"
    by (simp add: prov_step_def life_init_def N_STORAGES_def)
  with storage_exclusive [OF reach, of "Prov 1" 0] step show ?thesis by simp
qed



text \<open>\<open>buy\<close> moves from the storage to the buyer the least of what is there, what is wanted
  and 150; the amounts stay non-negative, and it moves nothing only if one of them is zero.\<close>

theorem buy_takes_least:
  assumes "0 \<le> r" and "0 \<le> d"
  shows "buy r d = (r - min r (min d BUY_RESTRICT), d - min r (min d BUY_RESTRICT))
    \<and> (buy r d = (r, d) \<longleftrightarrow> r = 0 \<or> d = 0)"
  using assms buy_amount [OF assms] by (auto simp: BUY_RESTRICT_def min_def)

theorem buy_takes_least_witness: "(0 :: int) \<le> 100 \<and> buy 100 9000 = (0, 8900)"
  using buy_takes_least [of 100 9000] by (simp add: BUY_RESTRICT_def)

end
