(* ===== verification/LifeLiveness.thy ===== *)
theory LifeLiveness
  imports LifeSim
begin

text \<open>
  The simulation of \<open>lifeSimulator.c\<close> can always be completed: from every reachable state there is a
  continuation after which all buyers have returned, so that \<open>main\<close>, which joins only them, ends.
  Threads only ever try a mutex, so no thread can be stuck; what has to be shown is that buyers
  can be supplied.
\<close>

section \<open>Continuations\<close>

text \<open>
  A continuation that serves buyer \<open>b\<close>: the other buyers stand still, the demand does not grow, and
  providers outside of a storage end outside.
\<close>

definition leads :: "nat \<Rightarrow> life \<Rightarrow> life \<Rightarrow> bool" where
  "leads b s t \<longleftrightarrow> life_step\<^sup>*\<^sup>* s t \<and> (\<forall>c. c \<noteq> b \<longrightarrow> buyer t c = buyer s c) \<and> demands t b \<le> demands s b
     \<and> (\<forall>p. prov_holds (prov s p) = None \<longrightarrow> prov_holds (prov t p) = None)"

lemma leads_refl [simp]: "leads b s s"
  by (simp add: leads_def)

lemma leads_trans: "leads b s t \<Longrightarrow> leads b t u \<Longrightarrow> leads b s u"
  by (auto simp: leads_def)

lemma leads_inv: "leads b s t \<Longrightarrow> life_inv s \<Longrightarrow> life_inv t"
  using life_machine.inv_run by (auto simp: leads_def)

lemma buyer_leads:
  assumes "life_inv s" and "b < N_BUYERS" and "buyer_step b s = Some t"
  shows "leads b s t"
proof -
  have st: "\<forall>i r. buyer s b = BStore i r \<longrightarrow> r = remains s i" "\<forall>i. 0 \<le> remains s i" "0 \<le> demands s b"
    using assms(1) by (auto simp: life_inv_def loaded_inv_def stock_inv_def)
  have "demands t b \<le> demands s b"
  proof (cases "buyer s b")
    case (BStore i r)
    obtain r' d' where buy: "buy r (demands s b) = (r', d')" by fastforce
    then have "d' \<le> demands s b" using buy_bounds(4) [OF buy] st BStore by simp
    with buy BStore assms(3) show ?thesis by (auto simp: buyer_step_def)
  qed (use assms(3) in \<open>auto simp: buyer_step_def split: if_splits\<close>)
  moreover have "prov t = prov s" "\<forall>c. c \<noteq> b \<longrightarrow> buyer t c = buyer s c"
    using assms(3) by (cases "buyer s b"; auto simp: buyer_step_def split: if_splits prod.splits)+
  moreover have "life_step s t" using assms(2,3) by (rule ls_buyer)
  ultimately show ?thesis by (simp add: leads_def)
qed

section \<open>Leaving a storage\<close>

text \<open>How many steps a thread is away from unlocking.\<close>

fun prov_rank :: "prov_pc \<Rightarrow> nat" where
  "prov_rank (PLoad i) = 4"
| "prov_rank (PStore i r) = 3"
| "prov_rank (PTell i) = 2"
| "prov_rank (PUnlock i) = 1"
| "prov_rank _ = 0"

lemma prov_step_frame:
  "buyer (prov_step p s) = buyer s" "demands (prov_step p s) = demands s"
  "q \<noteq> p \<Longrightarrow> prov (prov_step p s) q = prov s q"
  by (cases "prov s p"; simp add: prov_step_def)+

text \<open>A provider in a storage delivers and leaves.\<close>

lemma prov_release:
  "life_inv s \<Longrightarrow> p < N_PROVIDERS \<Longrightarrow> prov_holds (prov s p) \<noteq> None \<Longrightarrow>
   \<exists>t. life_step\<^sup>*\<^sup>* s t \<and> prov t p = PAsleep \<and> (\<forall>q. q \<noteq> p \<longrightarrow> prov t q = prov s q)
     \<and> buyer t = buyer s \<and> demands t = demands s \<and> (\<forall>i. remains s i \<le> remains t i)
     \<and> (\<forall>i. prov s p = PLoad i \<or> (\<exists>r. prov s p = PStore i r) \<longrightarrow> 0 < remains t i)"
proof (induction "prov_rank (prov s p)" arbitrary: s rule: less_induct)
  case less
  let ?u = "prov_step p s"
  have step: "life_step s ?u" using less.prems(2) by (rule ls_prov)
  then have inv: "life_inv ?u" using less.prems(1) life_step_inv by blast
  have pos: "\<forall>i. 0 \<le> remains s i" "\<forall>i r. prov s p = PStore i r \<longrightarrow> r = remains s i"
    using less.prems(1) by (auto simp: life_inv_def stock_inv_def loaded_inv_def)
  have mono: "\<forall>i. remains s i \<le> remains ?u i"
    using pos by (cases "prov s p") (auto simp: prov_step_def provide_def PROV_AMOUNT_def)
  show ?case
  proof (cases "\<exists>i. prov s p = PUnlock i")
    case True
    with step less.prems(1) show ?thesis
      by (intro exI [of _ ?u]) (auto simp: prov_step_def)
  next
    case False
    with less.prems(3) have rank: "prov_rank (prov ?u p) < prov_rank (prov s p)" "prov_holds (prov ?u p) \<noteq> None"
      by (cases "prov s p"; simp add: prov_step_def)+
    obtain t where t: "life_step\<^sup>*\<^sup>* ?u t" "prov t p = PAsleep" "\<forall>q. q \<noteq> p \<longrightarrow> prov t q = prov ?u q"
      "buyer t = buyer ?u" "demands t = demands ?u" "\<forall>i. remains ?u i \<le> remains t i"
      "\<forall>i. prov ?u p = PLoad i \<or> (\<exists>r. prov ?u p = PStore i r) \<longrightarrow> 0 < remains t i"
      using less.hyps [OF rank(1) inv less.prems(2) rank(2)] by blast
    have "0 < remains t i" if "prov s p = PLoad i \<or> (\<exists>r. prov s p = PStore i r)" for i
    proof (cases "prov s p = PLoad i")
      case True
      with t(7) show ?thesis by (simp add: prov_step_def)
    next
      case False
      with that obtain r where "prov s p = PStore i r" by blast
      then have "0 < remains ?u i" using pos by (simp add: prov_step_def provide_def PROV_AMOUNT_def add_nonneg_pos)
      with t(6) show ?thesis by (meson less_le_trans)
    qed
    moreover have "remains s i \<le> remains t i" for i using mono t(6) order_trans by blast
    ultimately show ?thesis
      using t step by (intro exI [of _ t]) (auto simp: prov_step_frame intro: converse_rtranclp_into_rtranclp)
  qed
qed

fun buyer_rank :: "buyer_pc \<Rightarrow> nat" where
  "buyer_rank (BLook i) = 8 * (5 - i) + 1"
| "buyer_rank (BTry i) = 8 * (4 - i) + 7"
| "buyer_rank (BEnter i) = 8 * (4 - i) + 6"
| "buyer_rank (BLoad i) = 8 * (4 - i) + 5"
| "buyer_rank (BStore i r) = 8 * (4 - i) + 4"
| "buyer_rank (BUnlock i) = 8 * (4 - i) + 3"
| "buyer_rank (BExit i) = 8 * (4 - i) + 2"
| "buyer_rank _ = 0"

text \<open>A buyer that goes on alone comes back to the head of its loop.\<close>

lemma buyer_pass:
  "life_inv s \<Longrightarrow> b < N_BUYERS \<Longrightarrow> buyer s b \<noteq> BDone \<Longrightarrow> \<exists>t. leads b s t \<and> buyer t b = BLoop"
proof (induction "buyer_rank (buyer s b)" arbitrary: s rule: less_induct)
  case less
  show ?case
  proof (cases "buyer s b = BLoop")
    case False
    have "buyer_step b s \<noteq> None"
      using less.prems(3) by (cases "buyer s b") (auto simp: buyer_step_def split: prod.splits)
    then obtain u where u: "buyer_step b s = Some u" by blast
    have rank: "buyer_rank (buyer u b) < buyer_rank (buyer s b)" "buyer u b \<noteq> BDone"
      using u False less.prems(3)
      by (cases "buyer s b"; auto simp: buyer_step_def N_STORAGES_def split: if_splits prod.splits)+
    have l: "leads b s u" by (rule buyer_leads [OF less.prems(1,2) u])
    obtain t where "leads b u t" "buyer t b = BLoop"
      using less.hyps [OF rank(1) leads_inv [OF l less.prems(1)] less.prems(2) rank(2)] by blast
    with leads_trans [OF l] show ?thesis by blast
  qed (intro exI [of _ s], simp)
qed

text \<open>Outside of all storages, every mutex is free.\<close>

definition quiet :: "life \<Rightarrow> bool" where
  "quiet s \<longleftrightarrow> (\<forall>x. holds s x = None)"

lemma quiet_free: "life_inv s \<Longrightarrow> quiet s \<Longrightarrow> storage_mut s i = None"
  by (cases "storage_mut s i") (auto simp: life_inv_def lock_inv_def quiet_def)

lemma quiet_leads: "quiet s \<Longrightarrow> leads b s t \<Longrightarrow> buyer_holds (buyer t b) = None \<Longrightarrow> quiet t"
  unfolding quiet_def leads_def holds_def2
  by (metis (no_types, lifting) thread_id.exhaust thread_id.simps(5) thread_id.simps(6))

lemma quiet_prov: "quiet s \<Longrightarrow> prov_holds (prov s p) = None" and quiet_buyer: "quiet s \<Longrightarrow> buyer_holds (buyer s b) = None"
  unfolding quiet_def using holds.simps by metis+

section \<open>Supplying a buyer\<close>

lemma prov_alone:
  assumes "life_inv s" and "p < N_PROVIDERS" and "prov_holds (prov (prov_step p s) p) = None"
  shows "leads b s (prov_step p s)"
proof -
  have "prov_holds (prov (prov_step p s) q) = None" if "prov_holds (prov s q) = None" for q
    using that assms(3) prov_step_frame(3) [of q p s] by (cases "q = p") simp_all
  then show ?thesis using ls_prov [OF assms(2), of s] by (simp add: leads_def prov_step_frame)
qed

text \<open>A provider outside of the storages delivers to the storage it tries next.\<close>

lemma prov_delivers:
  assumes inv: "life_inv s" and q: "quiet s" and p: "prov s 0 = PTry i" "i < N_STORAGES"
  shows "\<exists>t. leads b s t \<and> quiet t \<and> prov t 0 = PAsleep \<and> 0 < remains t i \<and> buyer t b = buyer s b"
proof -
  let ?u = "prov_step 0 s"
  have p0: "0 < N_PROVIDERS" by (simp add: N_PROVIDERS_def)
  have u: "prov ?u 0 = PLoad i" using p quiet_free [OF inv q] by (simp add: prov_step_def)
  have step: "life_step s ?u" using p0 by (rule ls_prov)
  then have "life_inv ?u" by (rule life_step_inv [OF inv])
  then obtain t where t: "life_step\<^sup>*\<^sup>* ?u t" "prov t 0 = PAsleep" "\<forall>q. q \<noteq> 0 \<longrightarrow> prov t q = prov ?u q"
    "buyer t = buyer ?u" "demands t = demands ?u" "0 < remains t i"
    using prov_release [of ?u 0] p0 u by auto
  have other: "prov t x = prov s x" if "x \<noteq> 0" for x using t(3) that prov_step_frame(3) by simp
  have "prov_holds (prov t x) = None" for x
    using other [of x] t(2) quiet_prov [OF q] by (cases "x = 0") simp_all
  then have l: "leads b s t"
    using t step by (auto simp: leads_def prov_step_frame intro: converse_rtranclp_into_rtranclp)
  moreover have "quiet t"
    using quiet_leads [OF q l] quiet_buyer [OF q] t(4) prov_step_frame(1) by simp
  ultimately show ?thesis using t prov_step_frame(1) by auto
qed

lemma storage_supplied:
  assumes inv: "life_inv s" and q: "quiet s"
  shows "\<exists>t. leads b s t \<and> quiet t \<and> 0 < remains t 0 \<and> buyer t b = buyer s b"
proof -
  have p0: "0 < N_PROVIDERS" by (simp add: N_PROVIDERS_def)
  have deliver: "\<exists>t. leads b u t \<and> quiet t \<and> 0 < remains t 0 \<and> buyer t b = buyer u b"
    if "life_inv u" "quiet u" "prov u 0 = PTry 0" for u
    using prov_delivers [OF that] by (auto simp: N_STORAGES_def)
  have move: "\<exists>t. leads b u t \<and> quiet t \<and> prov t 0 = PTry 0 \<and> buyer t b = buyer u b"
    if "life_inv u" "quiet u" "prov u 0 = PAsleep \<or> (\<exists>i. prov u 0 = PTry i \<and> \<not> i < N_STORAGES)" for u
  proof -
    have v: "prov (prov_step 0 u) 0 = PTry 0" using that(3) by (auto simp: prov_step_def)
    then have l: "leads b u (prov_step 0 u)" using prov_alone [OF that(1) p0] by simp
    have "quiet (prov_step 0 u)"
      using quiet_leads [OF that(2) l] quiet_buyer [OF that(2)] prov_step_frame(1) by simp
    with l v show ?thesis using prov_step_frame(1) by (intro exI [of _ "prov_step 0 u"]) simp
  qed
  have asleep: "\<exists>t. leads b u t \<and> quiet t \<and> 0 < remains t 0 \<and> buyer t b = buyer u b"
    if u: "life_inv u" "quiet u" "prov u 0 = PAsleep \<or> (\<exists>i. prov u 0 = PTry i \<and> \<not> i < N_STORAGES)" for u
  proof -
    obtain v where v: "leads b u v" "quiet v" "prov v 0 = PTry 0" "buyer v b = buyer u b" using move [OF u] by blast
    with deliver [OF leads_inv [OF v(1) u(1)] v(2,3)] leads_trans [OF v(1)] show ?thesis by metis
  qed
  show ?thesis
  proof (cases "\<exists>i < N_STORAGES. prov s 0 = PTry i")
    case True
    then obtain i where i: "i < N_STORAGES" "prov s 0 = PTry i" by blast
    obtain v where v: "leads b s v" "quiet v" "prov v 0 = PAsleep" "buyer v b = buyer s b"
      using prov_delivers [OF inv q i(2,1)] by blast
    with asleep [OF leads_inv [OF v(1) inv] v(2)] leads_trans [OF v(1)] show ?thesis by metis
  next
    case False
    with quiet_prov [OF q, of 0] have "prov s 0 = PAsleep \<or> (\<exists>i. prov s 0 = PTry i \<and> \<not> i < N_STORAGES)"
      by (cases "prov s 0") auto
    with asleep [OF inv q] show ?thesis by blast
  qed
qed

section \<open>Serving a buyer\<close>

text \<open>On the way to buying from storage 0.\<close>

definition will_buy :: "nat \<Rightarrow> life \<Rightarrow> bool" where
  "will_buy b s \<longleftrightarrow> 0 < demands s b \<and> 0 < remains s 0 \<and>
     (case buyer s b of
        BLoop \<Rightarrow> storage_mut s 0 = None
      | BLook i \<Rightarrow> i = 0 \<and> storage_mut s 0 = None
      | BTry i \<Rightarrow> i = 0 \<and> storage_mut s 0 = None
      | BEnter i \<Rightarrow> i = 0
      | BLoad i \<Rightarrow> i = 0
      | BStore i r \<Rightarrow> i = 0
      | _ \<Rightarrow> False)"

fun way :: "buyer_pc \<Rightarrow> nat" where
  "way BLoop = 6"
| "way (BLook i) = 5"
| "way (BTry i) = 4"
| "way (BEnter i) = 3"
| "way (BLoad i) = 2"
| "way (BStore i r) = 1"
| "way _ = 0"

lemma buyer_buys:
  "life_inv s \<Longrightarrow> b < N_BUYERS \<Longrightarrow> will_buy b s \<Longrightarrow>
   \<exists>t. leads b s t \<and> demands t b < demands s b \<and> buyer t b = BUnlock 0"
proof (induction "way (buyer s b)" arbitrary: s rule: less_induct)
  case less
  show ?case
  proof (cases "\<exists>r. buyer s b = BStore 0 r")
    case True
    then obtain r where st: "buyer s b = BStore 0 r" by blast
    then have r: "r = remains s 0" using less.prems(1) by (auto simp: life_inv_def loaded_inv_def)
    have d: "0 < demands s b" "0 < remains s 0" using less.prems(3) by (simp_all add: will_buy_def)
    let ?a = "min r (min (demands s b) BUY_RESTRICT)"
    have buy: "buy r (demands s b) = (r - ?a, demands s b - ?a)"
      using d r by (intro buy_amount) simp_all
    have a: "0 < ?a" using d r by (simp add: BUY_RESTRICT_def)
    let ?t = "s\<lparr>remains := (remains s)(0 := r - ?a), demands := (demands s)(b := demands s b - ?a),
      buyer := (buyer s)(b := BUnlock 0)\<rparr>"
    have "buyer_step b s = Some ?t" using st buy by (simp add: buyer_step_def)
    from buyer_leads [OF less.prems(1,2) this] a show ?thesis by (intro exI [of _ ?t]) simp
  next
    case False
    obtain u where u: "buyer_step b s = Some u" "will_buy b u" "way (buyer u b) < way (buyer s b)"
      "demands u b = demands s b"
      using less.prems(3) False
      by (cases "buyer s b") (auto simp: buyer_step_def will_buy_def N_STORAGES_def)
    have l: "leads b s u" by (rule buyer_leads [OF less.prems(1,2) u(1)])
    obtain t where "leads b u t" "demands t b < demands u b" "buyer t b = BUnlock 0"
      using less.hyps [OF u(3) leads_inv [OF l less.prems(1)] less.prems(2) u(2)] by blast
    with leads_trans [OF l] u(4) show ?thesis by metis
  qed
qed

lemma leads_done:
  assumes "life_inv s" and "b < N_BUYERS" and "buyer s b = BLoop" and "\<not> 0 < demands s b"
  shows "\<exists>t. leads b s t \<and> buyer t b = BDone"
proof -
  have "buyer_step b s = Some (s\<lparr>buyer := (buyer s)(b := BDone)\<rparr>)"
    using assms(3,4) by (simp add: buyer_step_def)
  from buyer_leads [OF assms(1,2) this] show ?thesis by (intro exI conjI) (assumption, simp)
qed

text \<open>A buyer that is not done, in a quiet state, can finish.\<close>

lemma buyer_finishes:
  "life_inv s \<Longrightarrow> b < N_BUYERS \<Longrightarrow> quiet s \<Longrightarrow>
   \<exists>t. leads b s t \<and> quiet t \<and> buyer t b = BDone"
proof (induction "nat (demands s b)" arbitrary: s rule: less_induct)
  case less
  show ?case
  proof (cases "buyer s b = BDone")
    case False
    obtain u where u: "leads b s u" "buyer u b = BLoop"
      using buyer_pass [OF less.prems(1,2) False] by blast
    have uinv: "life_inv u" by (rule leads_inv [OF u(1) less.prems(1)])
    have uq: "quiet u" using quiet_leads [OF less.prems(3) u(1)] u(2) by simp
    show ?thesis
    proof (cases "0 < demands u b")
      case True
      obtain v where v: "leads b u v" "quiet v" "0 < remains v 0" "buyer v b = BLoop"
        using storage_supplied [OF uinv uq, of b] u(2) by auto
      have vinv: "life_inv v" by (rule leads_inv [OF v(1) uinv])
      show ?thesis
      proof (cases "0 < demands v b")
        case True
        then have "will_buy b v" using v(3,4) quiet_free [OF vinv v(2)] by (simp add: will_buy_def)
        then obtain x where x: "leads b v x" "demands x b < demands v b" "buyer x b = BUnlock 0"
          using buyer_buys [OF vinv less.prems(2)] by blast
        have xinv: "life_inv x" by (rule leads_inv [OF x(1) vinv])
        obtain y where y: "leads b x y" "buyer y b = BLoop"
          using buyer_pass [OF xinv less.prems(2)] x(3) by auto
        have sy: "leads b s y" using leads_trans u(1) v(1) x(1) y(1) by blast
        have yq: "quiet y" using quiet_leads [OF less.prems(3) sy] y(2) by simp
        have yinv: "life_inv y" by (rule leads_inv [OF sy less.prems(1)])
        have "demands y b < demands s b" using x(2) y(1) u(1) v(1) by (simp add: leads_def)
        moreover have "0 \<le> demands y b" using yinv by (simp add: life_inv_def stock_inv_def)
        ultimately have "nat (demands y b) < nat (demands s b)" by simp
        from less.hyps [OF this yinv less.prems(2) yq] leads_trans [OF sy] show ?thesis by blast
      next
        case False
        obtain t where t: "leads b v t" "buyer t b = BDone" using leads_done [OF vinv less.prems(2) v(4) False] by blast
        have "leads b s t" using leads_trans u(1) v(1) t(1) by blast
        with quiet_leads [OF less.prems(3) this] t(2) show ?thesis by auto
      qed
    next
      case False
      obtain t where t: "leads b u t" "buyer t b = BDone" using leads_done [OF uinv less.prems(2) u(2) False] by blast
      have "leads b s t" using leads_trans u(1) t(1) by blast
      with quiet_leads [OF less.prems(3) this] t(2) show ?thesis by auto
    qed
  qed (use less.prems(3) in \<open>intro exI [of _ s], simp\<close>)
qed

section \<open>From any reachable state\<close>

text \<open>Only the threads that were created move.\<close>

definition idle :: "life \<Rightarrow> bool" where
  "idle s \<longleftrightarrow> (\<forall>p. N_PROVIDERS \<le> p \<longrightarrow> prov s p = PTry 0) \<and> (\<forall>b. N_BUYERS \<le> b \<longrightarrow> buyer s b = BLoop)"

lemma buyer_step_others:
  "buyer_step b s = Some t \<Longrightarrow> prov t = prov s \<and> (\<forall>c. c \<noteq> b \<longrightarrow> buyer t c = buyer s c)"
  by (cases "buyer s b") (auto simp: buyer_step_def split: if_splits prod.splits)

interpretation idle_machine: invariant_machine "\<lambda>s. s = life_init" life_step idle
proof unfold_locales
  show "idle s" if "s = life_init" for s using that by (simp add: idle_def life_init_def)
  show "idle t" if "idle s" "life_step s t" for s t
    using that(2)
  proof cases
    case (ls_prov p)
    with that(1) show ?thesis by (auto simp: idle_def prov_step_frame)
  next
    case (ls_buyer b)
    with that(1) buyer_step_others [OF ls_buyer(2)] show ?thesis by (auto simp: idle_def)
  qed
qed

text \<open>First the providers leave their storages, then the buyers.\<close>

lemma prov_leaves:
  assumes "life_inv s" and "p < N_PROVIDERS"
  shows "\<exists>t. life_step\<^sup>*\<^sup>* s t \<and> prov_holds (prov t p) = None \<and> (\<forall>q. q \<noteq> p \<longrightarrow> prov t q = prov s q)"
proof (cases "prov_holds (prov s p) = None")
  case False
  with prov_release [OF assms] show ?thesis by fastforce
qed auto

lemma buyer_leaves:
  assumes "life_inv s" and "b < N_BUYERS"
  shows "\<exists>t. leads b s t \<and> buyer_holds (buyer t b) = None"
proof (cases "buyer s b = BDone")
  case False
  with buyer_pass [OF assms] show ?thesis by fastforce
qed (intro exI [of _ s], simp)

lemma all_leave:
  assumes inv: "life_inv s" and idle: "idle s"
  shows "\<exists>t. life_step\<^sup>*\<^sup>* s t \<and> quiet t"
proof -
  have p: "0 < N_PROVIDERS" "1 < N_PROVIDERS" and b: "0 < N_BUYERS" "1 < N_BUYERS" "2 < N_BUYERS"
    by (simp_all add: N_PROVIDERS_def N_BUYERS_def)
  obtain s1 where s1: "life_step\<^sup>*\<^sup>* s s1" "prov_holds (prov s1 0) = None" "\<forall>q. q \<noteq> 0 \<longrightarrow> prov s1 q = prov s q"
    using prov_leaves [OF inv p(1)] by blast
  note inv1 = life_machine.inv_run [OF s1(1) inv]
  obtain s2 where s2: "life_step\<^sup>*\<^sup>* s1 s2" "prov_holds (prov s2 1) = None" "\<forall>q. q \<noteq> 1 \<longrightarrow> prov s2 q = prov s1 q"
    using prov_leaves [OF inv1 p(2)] by blast
  note inv2 = life_machine.inv_run [OF s2(1) inv1]
  obtain s3 where s3: "leads 0 s2 s3" "buyer_holds (buyer s3 0) = None" using buyer_leaves [OF inv2 b(1)] by blast
  note inv3 = leads_inv [OF s3(1) inv2]
  obtain s4 where s4: "leads 1 s3 s4" "buyer_holds (buyer s4 1) = None" using buyer_leaves [OF inv3 b(2)] by blast
  note inv4 = leads_inv [OF s4(1) inv3]
  obtain s5 where s5: "leads 2 s4 s5" "buyer_holds (buyer s5 2) = None" using buyer_leaves [OF inv4 b(3)] by blast
  have run: "life_step\<^sup>*\<^sup>* s s5" 
    using rtranclp_trans [OF s1(1) s2(1)] s3(1) s4(1) s5(1) unfolding leads_def by (meson rtranclp_trans)
  have idle5: "idle s5" by (rule idle_machine.inv_run [OF run idle])
  have provs: "prov_holds (prov s2 q) = None" for q
  proof (cases "q = 0 \<or> q = 1")
    case True
    then show ?thesis using s1(2) s2(2,3) by (metis zero_neq_one)
  next
    case False
    then have "prov s2 q = PTry 0"
      using idle_machine.inv_run [OF rtranclp_trans [OF s1(1) s2(1)] idle] by (simp add: idle_def N_PROVIDERS_def)
    then show ?thesis by simp
  qed
  then have "prov_holds (prov s5 q) = None" for q using s3(1) s4(1) s5(1) by (simp add: leads_def)
  moreover have "buyer_holds (buyer s5 c) = None" for c
  proof (cases "c < 3")
    case True
    then have "c = 0 \<or> c = 1 \<or> c = 2" by auto
    then show ?thesis using s3 s4 s5 by (auto simp: leads_def)
  next
    case False
    then have "buyer s5 c = BLoop" using idle5 by (simp add: idle_def N_BUYERS_def)
    then show ?thesis by simp
  qed
  ultimately have "holds s5 x = None" for x by (cases x) simp_all
  with run show ?thesis unfolding quiet_def by blast
qed

text \<open>C6: no deadlock: from every state the simulation can reach, there is a
  continuation after which all three buyers have returned with their demands met, and \<open>main\<close> ends.\<close>

theorem simulation_can_end:
  assumes "reachable (\<lambda>s. s = life_init) life_step s"
  shows "\<exists>t. life_step\<^sup>*\<^sup>* s t \<and> (\<forall>b < N_BUYERS. buyer t b = BDone \<and> demands t b = 0)"
proof -
  have inv: "life_inv s" by (rule life_machine.inv_reachable [OF assms])
  have b: "0 < N_BUYERS" "1 < N_BUYERS" "2 < N_BUYERS" by (simp_all add: N_BUYERS_def)
  obtain q where q: "life_step\<^sup>*\<^sup>* s q" "quiet q"
    using all_leave [OF inv idle_machine.inv_reachable [OF assms]] by blast
  note invq = life_machine.inv_run [OF q(1) inv]
  obtain t0 where t0: "leads 0 q t0" "quiet t0" "buyer t0 0 = BDone" using buyer_finishes [OF invq b(1) q(2)] by blast
  note inv0 = leads_inv [OF t0(1) invq]
  obtain t1 where t1: "leads 1 t0 t1" "quiet t1" "buyer t1 1 = BDone" using buyer_finishes [OF inv0 b(2) t0(2)] by blast
  note inv1 = leads_inv [OF t1(1) inv0]
  obtain t2 where t2: "leads 2 t1 t2" "buyer t2 2 = BDone" using buyer_finishes [OF inv1 b(3) t1(2)] by blast
  have run: "life_step\<^sup>*\<^sup>* s t2" 
    using q(1) t0(1) t1(1) t2(1) unfolding leads_def by (meson rtranclp_trans)
  have "buyer t2 c = BDone" if "c < N_BUYERS" for c
  proof -
    from that have "c = 0 \<or> c = 1 \<or> c = 2" by (auto simp: N_BUYERS_def)
    then show ?thesis using t0(3) t1(1,3) t2 by (auto simp: leads_def)
  qed
  moreover have "stock_inv t2" using life_machine.inv_run [OF run inv] by (simp add: life_inv_def)
  ultimately show ?thesis using run by (intro exI [of _ t2]) (simp add: stock_inv_def)
qed

theorem simulation_can_end_witness:
  "\<exists>t. life_step\<^sup>*\<^sup>* life_init t \<and> (\<forall>b \<in> {0, 1, 2}. buyer t b = BDone \<and> demands t b = 0)"
  using simulation_can_end [OF reach_start [of "\<lambda>s. s = life_init" life_init life_step, OF refl]]
  by (auto simp: N_BUYERS_def)

section \<open>Well-formed states\<close>

text \<open>The threads \<open>main\<close> creates, and where a thread accesses the arrays.\<close>

fun thread_exists :: "thread_id \<Rightarrow> bool" where
  "thread_exists (Prov p) \<longleftrightarrow> p < N_PROVIDERS"
| "thread_exists (Buyer b) \<longleftrightarrow> b < N_BUYERS"

lemma holder_exists: "idle s \<Longrightarrow> holds s x = Some i \<Longrightarrow> thread_exists x"
proof (cases x)
  case (Prov p)
  assume "idle s" and "holds s x = Some i"
  then have "\<not> N_PROVIDERS \<le> p" using Prov by (auto simp: idle_def)
  then show ?thesis using Prov by simp
next
  case (Buyer b)
  assume "idle s" and "holds s x = Some i"
  then have "\<not> N_BUYERS \<le> b" using Buyer by (auto simp: idle_def)
  then show ?thesis using Buyer by simp
qed

text \<open>C7: in every reachable state each mutex is free or owned by a thread that exists and is in the
  critical section of that storage, only the five storages are ever locked, and whatever
  element of the arrays a thread works on, or is about to lock, is one of the five.\<close>

theorem life_typed:
  assumes "reachable (\<lambda>s. s = life_init) life_step s"
  shows "(storage_mut s i = Some x \<longrightarrow> i < N_STORAGES \<and> thread_exists x \<and> holds s x = Some i) \<and>
    (holds s x = Some i \<longrightarrow> i < N_STORAGES \<and> thread_exists x) \<and>
    (buyer s b = BTry i \<longrightarrow> i < N_STORAGES \<and> b < N_BUYERS)"
proof -
  have inv: "life_inv s" by (rule life_machine.inv_reachable [OF assms])
  have idle: "idle s" by (rule idle_machine.inv_reachable [OF assms])
  have "holds s x = Some i \<longleftrightarrow> storage_mut s i = Some x" using inv by (simp add: life_inv_def lock_inv_def)
  moreover have "holds s x = Some i \<Longrightarrow> i < N_STORAGES" using inv by (simp add: life_inv_def in_range_def)
  moreover have "i < N_STORAGES \<and> b < N_BUYERS" if "buyer s b = BTry i"
  proof -
    have "\<not> N_BUYERS \<le> b" using idle that by (auto simp: idle_def)
    then show ?thesis using that inv by (auto simp: life_inv_def in_range_def)
  qed
  ultimately show ?thesis using holder_exists [OF idle, of x i] by blast
qed

theorem life_typed_witness:
  "storage_mut (prov_step 1 life_init) 0 = Some (Prov 1) \<and> thread_exists (Prov 1)"
proof -
  have step: "life_step life_init (prov_step 1 life_init)" by (rule ls_prov) (simp add: N_PROVIDERS_def)
  have reach: "reachable (\<lambda>s. s = life_init) life_step (prov_step 1 life_init)"
    by (rule reach_step [where s = life_init], rule reach_start, rule refl, rule step)
  have "storage_mut (prov_step 1 life_init) 0 = Some (Prov 1)"
    by (simp add: prov_step_def life_init_def N_STORAGES_def)
  with life_typed [OF reach, of 0 "Prov 1"] show ?thesis by blast
qed

end
