(* ===== verification/Multiproto.thy ===== *)
theory Multiproto
  imports CLib
begin

text \<open>
  \<open>les22_multiprotocol_server\<close>: one server that answers datagrams and connections, written
  three times, over \<open>epoll\<close>, \<open>poll\<close> and \<open>select\<close>. Each makes ten turns. A turn of the model says
  what the waiting call reports and what the calls that follow receive, if they are made; the
  state is the buffer of 256 bytes, which is never cleared, the \<open>events\<close> array of the epoll
  server, the output, and the replies sent.
\<close>

section \<open>State and turns\<close>

type_synonym address = u32

datatype reply = UdpReply address string | TcpReply address string

record server =
  sv_buffer :: string
  sv_events :: "int \<times> int"
  sv_out :: string
  sv_sent :: "reply list"

record turn =
  udp_ready :: bool
  tcp_ready :: bool
  stdin_ready :: bool
  udp_first :: bool
  datagram :: "address \<times> string"
  connection :: "address \<times> string"
  key :: char
  turn_errno :: int

definition sv_print :: "string \<Rightarrow> server \<Rightarrow> server" where
  "sv_print w s = s\<lparr>sv_out := sv_out s @ w\<rparr>"

text \<open>\<open>recvfrom\<close> and \<open>recv\<close>: at most 256 bytes, the rest of the buffer stays.\<close>

definition receive :: "string \<Rightarrow> string \<Rightarrow> string" where
  "receive d buf = take 256 d @ drop (length d) buf"

text \<open>\<open>buffer[0] = 'H'\<close> to \<open>buffer[4] = '_'\<close>.\<close>

definition greet :: "string \<Rightarrow> string" where
  "greet buf = ((((buf[0 := CHR ''H''])[1 := CHR ''O''])[2 := CHR ''L''])[3 := CHR ''A''])[4 := CHR ''_'']"

text \<open>The two branches; \<open>%s\<close> of a buffer without terminator runs out of it.\<close>

definition serve_udp :: "turn \<Rightarrow> server \<Rightarrow> server option" where
  "serve_udp t s = do {
     let (addr, d) = datagram t;
     let buffer = receive d (sv_buffer s);
     n \<leftarrow> strlen buffer;
     let s = sv_print (''received via udp '' @ take n buffer @ nl) s;
     let buffer = greet buffer;
     Some (s\<lparr>sv_buffer := buffer, sv_sent := sv_sent s @ [UdpReply addr buffer]\<rparr>)
   }"

definition serve_tcp :: "turn \<Rightarrow> server \<Rightarrow> server option" where
  "serve_tcp t s = do {
     let (addr, d) = connection t;
     let buffer = receive d (sv_buffer s);
     n \<leftarrow> strlen buffer;
     let s = sv_print (''received via tcp '' @ take n buffer @ nl) s;
     let buffer = greet buffer;
     Some (s\<lparr>sv_buffer := buffer, sv_sent := sv_sent s @ [TcpReply addr buffer]\<rparr>)
   }"

definition flag :: "bool \<Rightarrow> int" where
  "flag b = (if b then 1 else 0)"

section \<open>epoll\<close>

text \<open>
  \<open>epoll_wait\<close> fills the array from its beginning, in the kernel's order; entries that are not
  filled keep what an earlier turn, or the stack, left in them.
\<close>

definition epoll_events :: "int \<Rightarrow> int \<Rightarrow> turn \<Rightarrow> int \<times> int \<Rightarrow> int \<times> int" where
  "epoll_events udpSock tcpSock t old =
     (if udp_ready t \<and> tcp_ready t
      then (if udp_first t then (udpSock, tcpSock) else (tcpSock, udpSock))
      else if udp_ready t then (udpSock, snd old)
      else if tcp_ready t then (tcpSock, snd old)
      else old)"

definition epoll_turn :: "int \<Rightarrow> int \<Rightarrow> turn \<Rightarrow> server \<Rightarrow> server option" where
  "epoll_turn udpSock tcpSock t s = do {
     let events = epoll_events udpSock tcpSock t (sv_events s);
     let res = flag (udp_ready t) + flag (tcp_ready t);
     let s = sv_print (dec res @ '' ('' @ dec (fst events) @ '' '' @ dec (snd events) @ '') (udp = ''
               @ dec udpSock @ '' tcp = '' @ dec tcpSock @ '')'' @ nl) (s\<lparr>sv_events := events\<rparr>);
     s \<leftarrow> (if fst events = udpSock then serve_udp t s else Some s);
     if fst events = tcpSock then serve_tcp t (sv_print ''receiving'' s) else Some s
   }"

text \<open>The loop, with \<open>n\<close> turns left; an error that \<open>errno\<close> remembers ends it.\<close>

fun epoll_loop :: "nat \<Rightarrow> (int \<Rightarrow> string) \<Rightarrow> int \<Rightarrow> int \<Rightarrow> turn list \<Rightarrow> server \<Rightarrow> server option" where
  "epoll_loop (Suc n) strerror udpSock tcpSock (t # ts) s =
     (if turn_errno t \<noteq> 0 then Some (sv_print (strerror (turn_errno t) @ nl) s)
      else case epoll_turn udpSock tcpSock t s of
        None \<Rightarrow> None
      | Some u \<Rightarrow> epoll_loop n strerror udpSock tcpSock ts u)"
| "epoll_loop _ strerror udpSock tcpSock _ s = Some s"

definition server_on_epoll :: "(int \<Rightarrow> string) \<Rightarrow> int \<Rightarrow> int \<Rightarrow> turn list \<Rightarrow> server \<Rightarrow> server option" where
  "server_on_epoll strerror udpSock tcpSock ts s = epoll_loop 10 strerror udpSock tcpSock ts s"

section \<open>poll\<close>

definition poll_turn :: "turn \<Rightarrow> server \<Rightarrow> server option" where
  "poll_turn t s = do {
     let res = flag (udp_ready t) + flag (tcp_ready t);
     let s = sv_print (dec res @ '' ('' @ dec (flag (tcp_ready t)) @ '' '' @ dec (flag (udp_ready t)) @ '')'' @ nl) s;
     s \<leftarrow> (if udp_ready t then serve_udp t s else Some s);
     if tcp_ready t then serve_tcp t (sv_print ''receiving'' s) else Some s
   }"

fun poll_loop :: "nat \<Rightarrow> turn list \<Rightarrow> server \<Rightarrow> server option" where
  "poll_loop (Suc n) (t # ts) s =
     (case poll_turn t s of None \<Rightarrow> None | Some u \<Rightarrow> poll_loop n ts u)"
| "poll_loop _ _ s = Some s"

definition server_on_poll :: "turn list \<Rightarrow> server \<Rightarrow> server option" where
  "server_on_poll ts s = poll_loop 10 ts s"

section \<open>select\<close>

text \<open>The select server also watches the standard input and reads one byte of it.\<close>

definition select_turn :: "turn \<Rightarrow> server \<Rightarrow> server option" where
  "select_turn t s = do {
     let res = flag (udp_ready t) + flag (tcp_ready t) + flag (stdin_ready t);
     let s = sv_print (dec res @ '' ('' @ dec (flag (udp_ready t)) @ '' '' @ dec (flag (tcp_ready t)) @ '')'' @ nl) s;
     s \<leftarrow> (if udp_ready t then serve_udp t s else Some s);
     s \<leftarrow> (if tcp_ready t then serve_tcp t s else Some s);
     Some (if stdin_ready t then s\<lparr>sv_buffer := (sv_buffer s)[0 := key t]\<rparr> else s)
   }"

fun select_loop :: "nat \<Rightarrow> turn list \<Rightarrow> server \<Rightarrow> server option" where
  "select_loop (Suc n) (t # ts) s =
     (case select_turn t s of None \<Rightarrow> None | Some u \<Rightarrow> select_loop n ts u)"
| "select_loop _ _ s = Some s"

definition server_on_select :: "turn list \<Rightarrow> server \<Rightarrow> server option" where
  "server_on_select ts s = select_loop 10 ts s"

text \<open>\<open>main\<close>: the server the last argument names, with the exit status and the final state.\<close>

definition mp_main :: "int \<Rightarrow> string \<Rightarrow> (int \<Rightarrow> string) \<Rightarrow> int \<Rightarrow> int \<Rightarrow> turn list \<Rightarrow> server
    \<Rightarrow> (server \<times> int) option" where
  "mp_main argc arg strerror udpSock tcpSock ts s =
     (if argc = 1 then Some (s, - 1)
      else map_option (\<lambda>t. (t, 0))
        (if arg = ''epoll'' then server_on_epoll strerror udpSock tcpSock ts s
         else if arg = ''poll'' then server_on_poll ts s
         else if arg = ''select'' then server_on_select ts s
         else Some (sv_print (''Select poll|epoll|select'' @ nl @ nl) s)))"

section \<open>What the servers have in common\<close>

text \<open>Buffer and replies, without the output, in which the servers differ.\<close>

definition core :: "server \<Rightarrow> string \<times> reply list" where
  "core s = (sv_buffer s, sv_sent s)"

definition answer :: "(address \<Rightarrow> string \<Rightarrow> reply) \<Rightarrow> address \<times> string \<Rightarrow> string \<times> reply list
    \<Rightarrow> (string \<times> reply list) option" where
  "answer kind r c =
     (let buffer = receive (snd r) (fst c)
      in if NUL \<in> set buffer then Some (greet buffer, snd c @ [kind (fst r) (greet buffer)]) else None)"

definition answers :: "bool \<Rightarrow> bool \<Rightarrow> turn \<Rightarrow> string \<times> reply list \<Rightarrow> (string \<times> reply list) option" where
  "answers udp tcp t c =
     Option.bind (if udp then answer UdpReply (datagram t) c else Some c)
       (\<lambda>c. if tcp then answer TcpReply (connection t) c else Some c)"

lemma core_simps [simp]:
  "core (sv_print w s) = core s" "core (s\<lparr>sv_events := e\<rparr>) = core s"
  "sv_sent (sv_print w s) = sv_sent s" "sv_buffer (sv_print w s) = sv_buffer s"
  by (simp_all add: core_def sv_print_def)

lemma core_serve:
  "map_option core (serve_udp t s) = answer UdpReply (datagram t) (core s)"
  "map_option core (serve_tcp t s) = answer TcpReply (connection t) (core s)"
  by (auto simp: serve_udp_def serve_tcp_def answer_def strlen_def split_beta Let_def core_def)

lemma core_bind:
  "map_option core (Option.bind x f) = Option.bind x (\<lambda>s. map_option core (f s))"
  by (cases x) simp_all

lemma bind_core:
  "(\<And>s. map_option core (f s) = g (core s)) \<Longrightarrow>
   Option.bind x (\<lambda>s. map_option core (f s)) = Option.bind (map_option core x) g"
  by (cases x) simp_all

text \<open>The loop that all three servers have, and its contract: a turn answers what is ready.\<close>

fun turns :: "(turn \<Rightarrow> server \<Rightarrow> server option) \<Rightarrow> nat \<Rightarrow> turn list \<Rightarrow> server \<Rightarrow> server option" where
  "turns step (Suc n) (t # ts) s =
     (case step t s of None \<Rightarrow> None | Some u \<Rightarrow> turns step n ts u)"
| "turns step _ _ s = Some s"

fun all_answers :: "nat \<Rightarrow> turn list \<Rightarrow> string \<times> reply list \<Rightarrow> (string \<times> reply list) option" where
  "all_answers (Suc n) (t # ts) c =
     Option.bind (answers (udp_ready t) (tcp_ready t) t c) (all_answers n ts)"
| "all_answers _ _ c = Some c"

locale answering =
  fixes step :: "turn \<Rightarrow> server \<Rightarrow> server option"
    and ok :: "turn \<Rightarrow> bool"
  assumes step_core: "ok t \<Longrightarrow>
    map_option core (step t s) = answers (udp_ready t) (tcp_ready t) t (core s)"
begin

lemma turns_core:
  "list_all ok ts \<Longrightarrow> map_option core (turns step n ts s) = all_answers n ts (core s)"
proof (induction n arbitrary: ts s)
  case (Suc n)
  show ?case
  proof (cases ts)
    case (Cons t us)
    with Suc.prems have "map_option core (step t s) = answers (udp_ready t) (tcp_ready t) t (core s)"
      by (intro step_core) simp
    from sym [OF this] Suc Cons show ?thesis by (cases "step t s") simp_all
  qed simp
qed simp

end

lemma poll_loop_turns: "poll_loop n ts s = turns poll_turn n ts s"
  by (induction n ts s rule: poll_loop.induct) (simp_all split: option.split)

lemma select_loop_turns: "select_loop n ts s = turns select_turn n ts s"
  by (induction n ts s rule: select_loop.induct) (simp_all split: option.split)

lemma epoll_loop_turns:
  "list_all (\<lambda>t. turn_errno t = 0) ts \<Longrightarrow>
   epoll_loop n strerror u t ts s = turns (epoll_turn u t) n ts s"
  by (induction n strerror u t ts s rule: epoll_loop.induct) (simp_all split: option.split)

lemma serve_pair:
  "map_option core (Option.bind (if b then serve_udp t s else Some s)
      (\<lambda>s. if c then serve_tcp t (sv_print w s) else Some s)) = answers b c t (core s)"
  "map_option core (Option.bind (if b then serve_udp t s else Some s)
      (\<lambda>s. if c then serve_tcp t s else Some s)) = answers b c t (core s)"
proof -
  have udp: "map_option core (if b then serve_udp t s else Some s) =
      (if b then answer UdpReply (datagram t) (core s) else Some (core s))"
    by (simp add: core_serve)
  show "map_option core (Option.bind (if b then serve_udp t s else Some s)
      (\<lambda>s. if c then serve_tcp t (sv_print w s) else Some s)) = answers b c t (core s)"
    unfolding core_bind answers_def udp [symmetric]
    by (rule bind_core) (simp add: core_serve)
  show "map_option core (Option.bind (if b then serve_udp t s else Some s)
      (\<lambda>s. if c then serve_tcp t s else Some s)) = answers b c t (core s)"
    unfolding core_bind answers_def udp [symmetric]
    by (rule bind_core) (simp add: core_serve)
qed

interpretation poll_server: answering poll_turn "\<lambda>t. True"
  by unfold_locales (simp only: poll_turn_def Let_def serve_pair core_simps)

interpretation select_server: answering select_turn "\<lambda>t. \<not> stdin_ready t"
  by unfold_locales (simp add: select_turn_def Let_def serve_pair)

text \<open>The turns on which exactly one of the two sockets is ready.\<close>

definition one_ready :: "turn \<Rightarrow> bool" where
  "one_ready t \<longleftrightarrow> udp_ready t \<noteq> tcp_ready t"

lemma epoll_turn_core:
  assumes "udpSock \<noteq> tcpSock" and "udp_ready t \<or> tcp_ready t"
  shows "map_option core (epoll_turn udpSock tcpSock t s) =
    (if udp_ready t \<and> (tcp_ready t \<longrightarrow> udp_first t) then answer UdpReply (datagram t) (core s)
     else answer TcpReply (connection t) (core s))"
  using assms by (auto simp: epoll_turn_def epoll_events_def Let_def core_serve)

interpretation epoll_server: answering "epoll_turn u t" "\<lambda>r. u \<noteq> t \<and> one_ready r" for u t
  by unfold_locales (auto simp: epoll_turn_core one_ready_def answers_def)

section \<open>The three servers\<close>



text \<open>What a reply contains. It has 256 bytes: the greeting \<open>HOLA_\<close> over the first five,
  then the bytes just received, and behind them whatever the buffer held before: the tail of an
  earlier message, of another client or another protocol, or of the uninitialised stack.\<close>

theorem reply_content:
  assumes "length (sv_buffer s) = 256" and "serve_udp t s = Some u \<or> serve_tcp t s = Some u"
  shows "\<exists>kind addr d b. sv_sent u = sv_sent s @ [kind addr b] \<and> sv_buffer u = b \<and> length b = 256
    \<and> (kind = UdpReply \<and> (addr, d) = datagram t \<or> kind = TcpReply \<and> (addr, d) = connection t)
    \<and> take 5 b = ''HOLA_''
    \<and> (\<forall>k. 5 \<le> k \<and> k < 256 \<longrightarrow> b ! k = (if k < length d then d ! k else sv_buffer s ! k))"
proof -
  have content: "length (greet (receive d (sv_buffer s))) = 256 \<and> take 5 (greet (receive d (sv_buffer s))) = ''HOLA_''
      \<and> (\<forall>k. 5 \<le> k \<and> k < 256 \<longrightarrow>
          greet (receive d (sv_buffer s)) ! k = (if k < length d then d ! k else sv_buffer s ! k))" for d
  proof -
    have len: "length (receive d (sv_buffer s)) = 256" using assms(1) by (auto simp: receive_def)
    then obtain c0 c1 c2 c3 c4 rest where "receive d (sv_buffer s) = c0 # c1 # c2 # c3 # c4 # rest"
      by (auto simp: length_Suc_conv numeral_eq_Suc)
    then have "take 5 (greet (receive d (sv_buffer s))) = ''HOLA_''"
      by (simp add: greet_def eval_nat_numeral)
    moreover have "receive d (sv_buffer s) ! k = (if k < length d then d ! k else sv_buffer s ! k)" if "k < 256" for k
      using that assms(1) by (auto simp: receive_def nth_append)
    ultimately show ?thesis using len by (simp add: greet_def)
  qed
  from assms(2) show ?thesis
  proof
    assume "serve_udp t s = Some u"
    then have "sv_sent u = sv_sent s @ [UdpReply (fst (datagram t)) (greet (receive (snd (datagram t)) (sv_buffer s)))]
        \<and> sv_buffer u = greet (receive (snd (datagram t)) (sv_buffer s))"
      by (auto simp: serve_udp_def Let_def strlen_def split_beta split: if_splits)
    with content show ?thesis by (metis prod.collapse)
  next
    assume "serve_tcp t s = Some u"
    then have "sv_sent u = sv_sent s @ [TcpReply (fst (connection t)) (greet (receive (snd (connection t)) (sv_buffer s)))]
        \<and> sv_buffer u = greet (receive (snd (connection t)) (sv_buffer s))"
      by (auto simp: serve_tcp_def Let_def strlen_def split_beta split: if_splits)
    with content show ?thesis by (metis prod.collapse)
  qed
qed

theorem reply_content_witness:
  "\<exists>t s u. length (sv_buffer s) = 256 \<and> serve_udp t s = Some u \<and> snd (datagram t) = ''hi''
    \<and> sv_buffer s ! 9 = CHR ''x'' \<and> sv_buffer u ! 9 = CHR ''x''"
proof -
  define s where "s = \<lparr>sv_buffer = replicate 255 (CHR ''x'') @ [NUL], sv_events = (0, 0), sv_out = [], sv_sent = []\<rparr>"
  define t where "t = \<lparr>udp_ready = True, tcp_ready = False, stdin_ready = False, udp_first = True,
    datagram = (7, ''hi''), connection = (0, []), key = NUL, turn_errno = 0\<rparr>"
  have len: "length (sv_buffer s) = 256" by (simp add: s_def)
  have "NUL \<in> set (receive ''hi'' (sv_buffer s))" by (simp add: receive_def s_def)
  then obtain u where u: "serve_udp t s = Some u"
    by (simp add: serve_udp_def t_def strlen_def Let_def)
  have nine: "sv_buffer s ! 9 = CHR ''x''" by (simp add: s_def nth_append)
  have "sv_buffer u ! 9 = sv_buffer s ! 9"
  proof -
    have "serve_udp t s = Some u \<or> serve_tcp t s = Some u" using u by simp
    from reply_content [OF len this] obtain d where
      "d = snd (datagram t) \<or> d = snd (connection t)"
      "\<forall>k. 5 \<le> k \<and> k < 256 \<longrightarrow> sv_buffer u ! k = (if k < length d then d ! k else sv_buffer s ! k)"
      by (metis prod.sel(2))
    then show ?thesis by (auto simp: t_def)
  qed
  with len u nine show ?thesis by (intro exI [of _ t] exI [of _ s] exI [of _ u]) (simp add: t_def)
qed

end
