(* ===== verification/FSMServer.thy ===== *)
theory FSMServer
  imports Multiproto
begin

text \<open>
  \<open>les21_FSM/src/server.c\<close>: a main process that receives the first datagram of each client and
  queues its address, and ten handler processes that take addresses from the System V message
  queue and talk to the clients. Main and handlers are the state machines of the code, composed
  through the queue; \<open>SIGINT\<close> may arrive at any process at any time. What the system calls
  deliver, \<open>errno\<close> included, is the parameter of a step. A step of the model is one turn of a
  process's loop.
\<close>

section \<open>States\<close>

text \<open>The states the preprocessor defines.\<close>

datatype fsm_state = CREATE_HANDLERS | CREATE_QUEUE | WAIT_FOR_CLIENT | QUEUE_CLIENT | TALKING | ERROR

definition state_code :: "fsm_state \<Rightarrow> int" where
  "state_code s = (case s of CREATE_HANDLERS \<Rightarrow> 1 | CREATE_QUEUE \<Rightarrow> 2 | WAIT_FOR_CLIENT \<Rightarrow> 3
     | QUEUE_CLIENT \<Rightarrow> 4 | TALKING \<Rightarrow> 5 | ERROR \<Rightarrow> - 1)"

text \<open>\<open>struct msgbuf\<close>; \<open>main\<close> never assigns \<open>fd\<close>.\<close>

record msgbuf =
  priority :: int
  msg_fd :: int
  msg_address :: address

record child =
  c_state :: fsm_state
  c_isExit :: bool
  c_errno :: int
  c_buff :: msgbuf
  c_buffer :: string
  c_sent :: "(address \<times> string) list"
  c_out :: string
  c_exit :: "int option"

text \<open>\<open>Shutdown\<close>: the main process is inside \<open>main_handler\<close> and waits for its children.\<close>

datatype main_phase = Running | Shutdown | Ended int

record fsm =
  m_state :: fsm_state
  m_isExit :: bool
  m_errno :: int
  m_phase :: main_phase
  m_handler :: bool
  m_address :: address
  m_fd :: int
  m_out :: string
  children :: "child list"
  queue :: "msgbuf list"
  received :: "address list"
  taken :: "address list"
  lost :: "address list"

text \<open>
  The start of \<open>main\<close>; \<open>fd\<close> is what \<open>msgbuf.fd\<close> happens to hold. \<open>received\<close>, \<open>taken\<close> and
  \<open>lost\<close> record the clients the main process heard of, those a handler took from the queue,
  and those \<open>msgsnd\<close> refused; the program has no such variables.
\<close>

definition fsm_init :: "int \<Rightarrow> address \<Rightarrow> fsm" where
  "fsm_init fd addr =
     \<lparr>m_state = CREATE_QUEUE, m_isExit = False, m_errno = 0, m_phase = Running, m_handler = False,
      m_address = addr, m_fd = fd, m_out = [], children = [], queue = [],
      received = [], taken = [], lost = []\<rparr>"

definition hello :: string where
  "hello = ''Hello, my dear client. Are you ok?'' @ nl"

definition sorry_text :: string where
  "sorry_text = ''Sorry, your string was too small... Shutting down the connection.''"

text \<open>A handler as \<open>waitClient\<close> starts it; \<open>buff\<close> is not initialised.\<close>

definition child_init :: "msgbuf \<Rightarrow> child" where
  "child_init garbage =
     \<lparr>c_state = WAIT_FOR_CLIENT, c_isExit = False, c_errno = 0, c_buff = garbage,
      c_buffer = hello @ replicate (256 - length hello) NUL, c_sent = [], c_out = [], c_exit = None\<rparr>"

section \<open>The handlers\<close>

definition c_print :: "string \<Rightarrow> child \<Rightarrow> child" where
  "c_print w c = c\<lparr>c_out := c_out c @ w\<rparr>"

definition c_send :: "child \<Rightarrow> child" where
  "c_send c = c\<lparr>c_sent := c_sent c @ [(msg_address (c_buff c), c_buffer c)]\<rparr>"

text \<open>
  The turns of \<open>waitClient\<close>. \<open>msg\<close> is the message \<open>msgrcv\<close> took, none if it failed; \<open>errno\<close>
  its value afterwards; \<open>pid\<close> and \<open>sock\<close> are what is printed.
\<close>

definition child_wait :: "int \<Rightarrow> int \<Rightarrow> (int \<Rightarrow> string) \<Rightarrow> msgbuf option \<Rightarrow> int \<Rightarrow> child \<Rightarrow> child option" where
  "child_wait pid sock strerror msg errno c = do {
     let c = c_print (dec pid @ '' entered WAIT_FOR_CLIENT state'' @ nl) c;
     let c = c\<lparr>c_buff := (case msg of None \<Rightarrow> c_buff c | Some b \<Rightarrow> b), c_errno := errno\<rparr>;
     if msg_fd (c_buff c) = - 1 \<or> errno \<noteq> 0 then Some (c\<lparr>c_isExit := True\<rparr>)
     else do {
       let c = c_print (''pid '' @ dec pid @ '' socket '' @ dec sock @ '' ('' @ strerror errno @ '')'' @ nl)
                 (c\<lparr>c_state := TALKING\<rparr>);
       buffer \<leftarrow> strcpy (c_buffer c) hello;
       Some (c_send (c\<lparr>c_buffer := buffer\<rparr>))
     }
   }"

text \<open>\<open>TALKING\<close>: \<open>dgram\<close> is the sender and the bytes received, none if \<open>recvfrom\<close> failed.\<close>

definition child_talk :: "int \<Rightarrow> (address \<times> string) option \<Rightarrow> int \<Rightarrow> child \<Rightarrow> child option" where
  "child_talk pid dgram errno c = do {
     let c = c_print (dec pid @ '' entered TALKING state'' @ nl) c;
     let c = (case dgram of None \<Rightarrow> c
              | Some (a, d) \<Rightarrow> c\<lparr>c_buff := (c_buff c)\<lparr>msg_address := a\<rparr>, c_buffer := receive d (c_buffer c)\<rparr>);
     let c = c\<lparr>c_errno := errno\<rparr>;
     n \<leftarrow> strlen (c_buffer c);
     let c = c_print (dec pid @ '' received '' @ take n (c_buffer c) @ nl) c;
     if n \<le> 3 then Some (c\<lparr>c_state := ERROR\<rparr>)
     else Some (c_send (c\<lparr>c_buffer := (c_buffer c)[0 := CHR ''H'', 1 := CHR ''I'', 2 := CHR ''_'']\<rparr>))
   }"

definition child_error :: "int \<Rightarrow> child \<Rightarrow> child option" where
  "child_error pid c = do {
     let c = c_print (dec pid @ '' entered ERROR state'' @ nl) c;
     buffer \<leftarrow> strcpy (c_buffer c) sorry_text;
     Some ((c_send (c\<lparr>c_buffer := buffer\<rparr>))\<lparr>c_state := WAIT_FOR_CLIENT\<rparr>)
   }"

text \<open>After the loop: \<open>exit(0)\<close> from the waiting state, \<open>exit(15)\<close> from any other.\<close>

definition child_end :: "int \<Rightarrow> child \<Rightarrow> child" where
  "child_end pid c =
     (if c_state c = WAIT_FOR_CLIENT then c\<lparr>c_exit := Some 0\<rparr>
      else (c_print (''CRASHED child '' @ dec pid @ ''! in '' @ dec (state_code (c_state c)) @ '' state '' @ nl) c)
             \<lparr>c_exit := Some 15\<rparr>)"

section \<open>The main process\<close>

definition m_print :: "string \<Rightarrow> fsm \<Rightarrow> fsm" where
  "m_print w s = s\<lparr>m_out := m_out s @ w\<rparr>"

text \<open>
  One turn of \<open>main\<close>'s loop. \<open>errno\<close> is its value after the calls of the turn, \<open>kids\<close> the
  handlers that \<open>fork\<close> did create, \<open>sender\<close> the client a datagram came from, \<open>accepted\<close> whether
  \<open>msgsnd\<close> took the message.
\<close>

definition main_turn :: "int \<Rightarrow> int \<Rightarrow> child list \<Rightarrow> address \<Rightarrow> bool \<Rightarrow> fsm \<Rightarrow> fsm" where
  "main_turn pid errno kids sender accepted s =
     (let s = m_print (''state = '' @ dec (state_code (m_state s)) @ ''   '') (s\<lparr>m_errno := errno\<rparr>) in
      case m_state s of
        CREATE_QUEUE \<Rightarrow>
          if errno \<noteq> 0 then s\<lparr>m_state := ERROR\<rparr>
          else (m_print (''Queue created'' @ nl) s)\<lparr>m_state := CREATE_HANDLERS\<rparr>
      | CREATE_HANDLERS \<Rightarrow>
          let s = s\<lparr>children := children s @ kids, m_handler := True\<rparr> in
          if errno \<noteq> 0 then s\<lparr>m_state := ERROR\<rparr>
          else (m_print (''Handlers created (my pid = '' @ dec pid @ '')'' @ nl) s)\<lparr>m_state := WAIT_FOR_CLIENT\<rparr>
      | WAIT_FOR_CLIENT \<Rightarrow>
          let s = s\<lparr>m_address := sender\<rparr> in
          if errno \<noteq> 0 then s\<lparr>m_state := ERROR\<rparr>
          else s\<lparr>m_state := QUEUE_CLIENT, received := received s @ [sender]\<rparr>
      | QUEUE_CLIENT \<Rightarrow>
          let b = \<lparr>priority = 1, msg_fd = m_fd s, msg_address = m_address s\<rparr> in
          if accepted then s\<lparr>queue := queue s @ [b], m_state := WAIT_FOR_CLIENT\<rparr>
          else s\<lparr>lost := lost s @ [m_address s], m_state := WAIT_FOR_CLIENT\<rparr>
      | _ \<Rightarrow> s\<lparr>m_isExit := True\<rparr>)"

text \<open>After the loop, \<open>main\<close> prints its last line and returns.\<close>

definition main_end :: "fsm \<Rightarrow> fsm" where
  "main_end s =
     (m_print (''Main process finished with '' @ dec (m_errno s) @ '' code on '' @ dec (state_code (m_state s))
        @ '' state'') s)\<lparr>m_phase := Ended 0\<rparr>"

text \<open>\<open>main_handler\<close>, when every child it waits for has ended.\<close>

fun waiting_lines :: "nat \<Rightarrow> string" where
  "waiting_lines 0 = []"
| "waiting_lines (Suc n) = waiting_lines n @ ''Waiting for process '' @ dec (int n) @ '' to shutdown '' @ ''DONE'' @ nl"

definition main_shutdown :: "fsm \<Rightarrow> fsm" where
  "main_shutdown s = (m_print (waiting_lines 10) s)\<lparr>m_phase := Ended 0\<rparr>"

section \<open>The system\<close>

text \<open>No library call sets \<open>errno\<close> back to 0.\<close>

definition errno_ok :: "int \<Rightarrow> int \<Rightarrow> bool" where
  "errno_ok old new \<longleftrightarrow> (old \<noteq> 0 \<longrightarrow> new \<noteq> 0)"

definition put_child :: "nat \<Rightarrow> child \<Rightarrow> fsm \<Rightarrow> fsm" where
  "put_child i c s = s\<lparr>children := (children s)[i := c]\<rparr>"

text \<open>A handler takes a turn: it exists, has not ended and was not told to.\<close>

definition turns_child :: "fsm \<Rightarrow> nat \<Rightarrow> fsm_state \<Rightarrow> bool" where
  "turns_child s i st \<longleftrightarrow> i < length (children s) \<and> c_exit (children s ! i) = None
     \<and> \<not> c_isExit (children s ! i) \<and> c_state (children s ! i) = st"

inductive fsm_step :: "fsm \<Rightarrow> fsm \<Rightarrow> bool" where
  main_turn: "m_phase s = Running \<Longrightarrow> \<not> m_isExit s \<Longrightarrow> errno_ok (m_errno s) errno \<Longrightarrow>
    length kids \<le> 10 \<Longrightarrow> set kids \<subseteq> range child_init \<Longrightarrow>
    fsm_step s (main_turn pid errno kids sender accepted s)"
| main_end: "m_phase s = Running \<Longrightarrow> m_isExit s \<Longrightarrow> fsm_step s (main_end s)"
| main_sigint: "m_phase s = Running \<Longrightarrow>
    fsm_step s (if m_handler s then s\<lparr>m_isExit := True, m_phase := Shutdown\<rparr> else s\<lparr>m_isExit := True\<rparr>)"
| main_shutdown: "m_phase s = Shutdown \<Longrightarrow> list_all (\<lambda>c. c_exit c \<noteq> None) (children s) \<Longrightarrow>
    fsm_step s (main_shutdown s)"
| child_takes: "turns_child s i WAIT_FOR_CLIENT \<Longrightarrow> queue s = b # bs \<Longrightarrow>
    errno_ok (c_errno (children s ! i)) errno \<Longrightarrow>
    child_wait pid sock strerror (Some b) errno (children s ! i) = Some c \<Longrightarrow>
    fsm_step s (put_child i c (s\<lparr>queue := bs, taken := taken s @ [msg_address b]\<rparr>))"
| child_fails: "turns_child s i WAIT_FOR_CLIENT \<Longrightarrow> errno \<noteq> 0 \<Longrightarrow>
    child_wait pid sock strerror None errno (children s ! i) = Some c \<Longrightarrow>
    fsm_step s (put_child i c s)"
| child_talks: "turns_child s i TALKING \<Longrightarrow> errno_ok (c_errno (children s ! i)) errno \<Longrightarrow>
    child_talk pid dgram errno (children s ! i) = Some c \<Longrightarrow> fsm_step s (put_child i c s)"
| child_errs: "turns_child s i ERROR \<Longrightarrow> child_error pid (children s ! i) = Some c \<Longrightarrow>
    fsm_step s (put_child i c s)"
| child_ends: "i < length (children s) \<Longrightarrow> c_exit (children s ! i) = None \<Longrightarrow> c_isExit (children s ! i) \<Longrightarrow>
    fsm_step s (put_child i (child_end pid (children s ! i)) s)"
| child_sigint: "i < length (children s) \<Longrightarrow> c_exit (children s ! i) = None \<Longrightarrow>
    fsm_step s (put_child i ((children s ! i)\<lparr>c_isExit := True\<rparr>) s)"

section \<open>Invariants\<close>

text \<open>Every client heard of is in one place: taken, queued, refused, or about to be queued.\<close>

definition pending :: "fsm \<Rightarrow> address multiset" where
  "pending s = (if m_state s = QUEUE_CLIENT then {# m_address s #} else {#})"

definition clients_inv :: "fsm \<Rightarrow> bool" where
  "clients_inv s \<longleftrightarrow> mset (received s) =
     mset (taken s) + mset (map msg_address (queue s)) + mset (lost s) + pending s"

definition child_inv :: "child \<Rightarrow> bool" where
  "child_inv c \<longleftrightarrow> c_state c \<in> {WAIT_FOR_CLIENT, TALKING, ERROR} \<and> length (c_buffer c) = 256
     \<and> (c_exit c \<noteq> None \<longrightarrow> c_isExit c)
     \<and> (c_exit c = None \<or> c_exit c = Some (if c_state c = WAIT_FOR_CLIENT then 0 else 15))"

definition shape_inv :: "fsm \<Rightarrow> bool" where
  "shape_inv s \<longleftrightarrow> m_state s \<noteq> TALKING \<and> length (children s) \<le> 10
     \<and> list_all child_inv (children s) \<and> list_all (\<lambda>b. priority b = 1) (queue s)
     \<and> (m_state s \<in> {CREATE_QUEUE, CREATE_HANDLERS} \<longrightarrow> children s = [] \<and> m_errno s = 0)
     \<and> (m_errno s \<noteq> 0 \<longrightarrow> m_state s \<in> {ERROR, WAIT_FOR_CLIENT})"

lemma print_simps [simp]:
  "c_state (c_print w c) = c_state c" "c_isExit (c_print w c) = c_isExit c" "c_exit (c_print w c) = c_exit c"
  "c_buff (c_print w c) = c_buff c" "c_buffer (c_print w c) = c_buffer c" "c_sent (c_print w c) = c_sent c"
  "c_state (c_send c) = c_state c" "c_isExit (c_send c) = c_isExit c" "c_exit (c_send c) = c_exit c"
  "c_buffer (c_send c) = c_buffer c" "c_sent (c_send c) = c_sent c @ [(msg_address (c_buff c), c_buffer c)]"
  by (simp_all add: c_print_def c_send_def)

lemma m_print_simps [simp]:
  "m_state (m_print w s) = m_state s" "children (m_print w s) = children s" "queue (m_print w s) = queue s"
  "received (m_print w s) = received s" "taken (m_print w s) = taken s" "lost (m_print w s) = lost s"
  "m_address (m_print w s) = m_address s" "m_errno (m_print w s) = m_errno s"
  by (simp_all add: m_print_def)

lemma put_child_simps [simp]:
  "m_state (put_child i c s) = m_state s" "queue (put_child i c s) = queue s" "received (put_child i c s) = received s"
  "taken (put_child i c s) = taken s" "lost (put_child i c s) = lost s" "m_address (put_child i c s) = m_address s"
  "m_errno (put_child i c s) = m_errno s" "children (put_child i c s) = (children s)[i := c]"
  by (simp_all add: put_child_def)

lemma clients_inv_step: "fsm_step s t \<Longrightarrow> clients_inv s \<Longrightarrow> clients_inv t"
  by (erule fsm_step.cases)
    (auto simp: clients_inv_def pending_def main_turn_def main_end_def main_shutdown_def Let_def
      split: fsm_state.splits)

lemma hello_fits: "length buf = 256 \<Longrightarrow> \<exists>b. strcpy buf hello = Some b \<and> length b = 256"
  and sorry_fits: "length buf = 256 \<Longrightarrow> \<exists>b. strcpy buf sorry_text = Some b \<and> length b = 256"
  by (simp_all add: strcpy_def hello_def sorry_text_def nl_def)

lemma length_receive: "length buf = 256 \<Longrightarrow> length (receive d buf) = 256"
  by (auto simp: receive_def)

lemma child_init_inv: "child_inv (child_init g)"
  by (simp add: child_inv_def child_init_def hello_def nl_def)

lemma child_wait_inv:
  "child_wait pid sock strerror msg errno c = Some d \<Longrightarrow> child_inv c \<Longrightarrow> c_exit c = None \<Longrightarrow> child_inv d"
  by (auto simp: child_wait_def child_inv_def Let_def bind_eq_Some_conv dest: length_strcpy split: if_splits)

lemma child_talk_inv:
  "child_talk pid dgram errno c = Some d \<Longrightarrow> child_inv c \<Longrightarrow> c_exit c = None \<Longrightarrow> child_inv d"
  by (auto simp: child_talk_def child_inv_def Let_def bind_eq_Some_conv length_receive
      split: if_splits option.splits)

lemma child_error_inv:
  "child_error pid c = Some d \<Longrightarrow> child_inv c \<Longrightarrow> c_exit c = None \<Longrightarrow> child_inv d"
  by (auto simp: child_error_def child_inv_def Let_def bind_eq_Some_conv dest: length_strcpy)

lemma child_end_inv: "child_inv c \<Longrightarrow> c_isExit c \<Longrightarrow> child_inv (child_end pid c)"
  by (auto simp: child_end_def child_inv_def)

lemma put_child_shape: "shape_inv s \<Longrightarrow> child_inv c \<Longrightarrow> shape_inv (put_child i c s)"
  by (auto simp: shape_inv_def list_all_iff dest!: subsetD [OF set_update_subset_insert])

lemma nth_child: "shape_inv s \<Longrightarrow> i < length (children s) \<Longrightarrow> child_inv (children s ! i)"
  by (simp add: shape_inv_def list_all_length)

lemma main_turn_shape:
  assumes "shape_inv s" and "errno_ok (m_errno s) errno" and "length kids \<le> 10"
    and "set kids \<subseteq> range child_init"
  shows "shape_inv (main_turn pid errno kids sender accepted s)"
proof -
  have kids: "list_all child_inv kids"
    using assms(4) child_init_inv by (auto simp: list_all_iff)
  show ?thesis
    using assms(1-3) kids
    by (cases "m_state s") (auto simp: shape_inv_def main_turn_def Let_def errno_ok_def)
qed

lemma shape_inv_step:
  assumes "fsm_step s t" and "shape_inv s"
  shows "shape_inv t"
  using assms(1)
proof cases
  case (main_turn errno kids pid sender accepted)
  with assms(2) show ?thesis by (simp add: main_turn_shape)
next
  case (child_takes i b bs errno pid sock strerror c)
  then have "child_inv c"
    using child_wait_inv nth_child [OF assms(2)] by (auto simp: turns_child_def)
  moreover have "shape_inv (s\<lparr>queue := bs, taken := taken s @ [msg_address b]\<rparr>)"
    using assms(2) child_takes by (simp add: shape_inv_def)
  ultimately show ?thesis using child_takes by (simp add: put_child_shape)
next
  case (child_fails i errno pid sock strerror c)
  then have "child_inv c"
    using child_wait_inv nth_child [OF assms(2)] by (auto simp: turns_child_def)
  with child_fails assms(2) show ?thesis by (simp add: put_child_shape)
next
  case (child_talks i errno pid dgram c)
  then have "child_inv c"
    using child_talk_inv nth_child [OF assms(2)] by (auto simp: turns_child_def)
  with child_talks assms(2) show ?thesis by (simp add: put_child_shape)
next
  case (child_errs i pid c)
  then have "child_inv c"
    using child_error_inv nth_child [OF assms(2)] by (auto simp: turns_child_def)
  with child_errs assms(2) show ?thesis by (simp add: put_child_shape)
next
  case (child_ends i pid)
  with child_end_inv nth_child [OF assms(2)] assms(2) show ?thesis by (simp add: put_child_shape)
next
  case (child_sigint i)
  with nth_child [OF assms(2), of i] have "child_inv ((children s ! i)\<lparr>c_isExit := True\<rparr>)"
    by (simp add: child_inv_def)
  with child_sigint assms(2) show ?thesis by (simp add: put_child_shape)
qed (use assms(2) in \<open>auto simp: shape_inv_def main_end_def main_shutdown_def\<close>)

interpretation fsm_machine: invariant_machine "\<lambda>s. \<exists>fd addr. s = fsm_init fd addr" fsm_step
  "\<lambda>s. clients_inv s \<and> shape_inv s"
proof unfold_locales
  show "clients_inv s \<and> shape_inv s" if "\<exists>fd addr. s = fsm_init fd addr" for s
    using that by (auto simp: clients_inv_def pending_def shape_inv_def fsm_init_def)
  show "clients_inv t \<and> shape_inv t" if "clients_inv s \<and> shape_inv s" "fsm_step s t" for s t
    using that clients_inv_step shape_inv_step by blast
qed

section \<open>What the server guarantees\<close>

text \<open>The steps of the main process until it hears of a client.\<close>

lemma fsm_start:
  "fsm_step (fsm_init fd a) (main_turn 1 0 [] a True (fsm_init fd a))"
  by (rule main_turn) (simp_all add: fsm_init_def errno_ok_def)

text \<open>A run in which the main process has created one handler and heard of one client.\<close>

lemma example_run:
  "\<exists>s. fsm_step\<^sup>*\<^sup>* (fsm_init 0 9) s \<and> reachable (\<lambda>s. \<exists>fd addr. s = fsm_init fd addr) fsm_step s \<and>
     received s = [7] \<and> taken s = [] \<and> queue s = [] \<and> lost s = [] \<and> m_state s = QUEUE_CLIENT \<and> m_address s = 7"
proof -
  let ?g = "child_init \<lparr>priority = 0, msg_fd = 0, msg_address = 0\<rparr>"
  define s1 where "s1 = main_turn 1 0 [] 9 True (fsm_init 0 9)"
  define s2 where "s2 = main_turn 1 0 [?g] 9 True s1"
  define s3 where "s3 = main_turn 1 0 [] 7 True s2"
  note defs = s1_def s2_def s3_def main_turn_def fsm_init_def m_print_def Let_def
  have 1: "fsm_step (fsm_init 0 9) s1" unfolding s1_def by (rule fsm_start)
  have 2: "fsm_step s1 s2"
    unfolding s2_def by (rule main_turn) (simp_all add: defs errno_ok_def)
  have 3: "fsm_step s2 s3"
    unfolding s3_def by (rule main_turn) (simp_all add: defs errno_ok_def)
  have run: "fsm_step\<^sup>*\<^sup>* (fsm_init 0 9) s3"
    by (rule rtranclp.rtrancl_into_rtrancl [OF rtranclp.rtrancl_into_rtrancl [OF r_into_rtranclp]])
      (rule 1 2 3)+
  have "reachable (\<lambda>s. \<exists>fd addr. s = fsm_init fd addr) fsm_step s3"
    by (rule reachable_trans [OF run]) blast
  with run show ?thesis by (intro exI [of _ s3]) (simp add: defs)
qed

text \<open>C1: no client is invented or duplicated. In every state the processes reach, in any
  interleaving and with signals and failing calls at any point, each client the main process
  heard of is in exactly one place: taken by a handler, in the queue, refused by \<open>msgsnd\<close>, or
  about to be queued. So handlers never take a client more often than it was heard of, and the
  queue holds only messages of the priority they ask for.\<close>

theorem clients_accounted:
  assumes "reachable (\<lambda>s. \<exists>fd addr. s = fsm_init fd addr) fsm_step s"
  shows "mset (received s) = mset (taken s) + mset (map msg_address (queue s)) + mset (lost s)
      + (if m_state s = QUEUE_CLIENT then {# m_address s #} else {#})
    \<and> (\<forall>a. count (mset (taken s)) a \<le> count (mset (received s)) a)
    \<and> (\<forall>b \<in> set (queue s). priority b = 1)"
  using fsm_machine.inv_reachable [OF assms]
  by (auto simp: clients_inv_def shape_inv_def pending_def list_all_iff)

theorem clients_accounted_witness:
  "\<exists>s. fsm_step\<^sup>*\<^sup>* (fsm_init 0 9) s \<and> received s = [7] \<and> m_state s = QUEUE_CLIENT \<and> m_address s = 7
     \<and> mset (received s) = mset (taken s) + mset (map msg_address (queue s)) + mset (lost s) + {# 7 #}"
  using example_run clients_accounted by fastforce

text \<open>C26: the states of the processes. The main process is never in the state \<open>TALKING\<close>,
  creates at most ten handlers, once, and when \<open>errno\<close> was ever set it accepts no further
  client: from the waiting state it goes to \<open>ERROR\<close>, and from there it leaves its loop. A handler
  that has ended was told to, with exit status 0 if it was waiting and 15 if it was not.\<close>

theorem process_states:
  assumes "reachable (\<lambda>s. \<exists>fd addr. s = fsm_init fd addr) fsm_step s"
  shows "m_state s \<noteq> TALKING \<and> length (children s) \<le> 10
    \<and> (m_state s \<in> {CREATE_QUEUE, CREATE_HANDLERS} \<longrightarrow> children s = [])
    \<and> (m_errno s \<noteq> 0 \<and> errno_ok (m_errno s) errno \<longrightarrow>
        m_state s \<in> {WAIT_FOR_CLIENT, ERROR} \<and>
        (let t = main_turn pid errno kids sender accepted s in
           m_state t = ERROR \<and> received t = received s \<and> queue t = queue s
           \<and> (m_state s = ERROR \<longrightarrow> m_isExit t)))
    \<and> (\<forall>c \<in> set (children s). c_state c \<in> {WAIT_FOR_CLIENT, TALKING, ERROR}
        \<and> (c_exit c \<noteq> None \<longrightarrow> c_isExit c \<and> c_exit c = Some (if c_state c = WAIT_FOR_CLIENT then 0 else 15)))"
proof -
  have inv: "shape_inv s" using fsm_machine.inv_reachable [OF assms] by blast
  then have "m_errno s \<noteq> 0 \<Longrightarrow> m_state s = WAIT_FOR_CLIENT \<or> m_state s = ERROR"
    by (auto simp: shape_inv_def)
  with inv show ?thesis
    by (fastforce simp: shape_inv_def list_all_iff child_inv_def main_turn_def Let_def errno_ok_def)
qed

theorem process_states_witness:
  "\<exists>s. fsm_step (fsm_init 0 9) s \<and> m_errno s = 13 \<and> m_state s = ERROR
     \<and> m_isExit (main_turn 1 13 [] 0 True s)"
proof -
  define s where "s = main_turn 1 13 [] 9 True (fsm_init 0 9)"
  have step: "fsm_step (fsm_init 0 9) s"
    unfolding s_def by (rule main_turn) (simp_all add: fsm_init_def errno_ok_def)
  have reach: "reachable (\<lambda>s. \<exists>fd addr. s = fsm_init fd addr) fsm_step s"
    by (rule reach_step [where s = "fsm_init 0 9"]) (use step in blast)+
  have "m_errno s = 13" "m_state s = ERROR"
    by (simp_all add: s_def main_turn_def fsm_init_def Let_def m_print_def)
  with process_states [OF reach, of 13 1 "[]" 0 True] step show ?thesis
    by (intro exI [of _ s]) (auto simp: errno_ok_def Let_def)
qed

text \<open>C27: the dialogue of a handler. A datagram whose text has at most three characters is not
  answered in the state \<open>TALKING\<close>; the next turn sends the apology to its sender, and the handler
  waits for a new client. To any longer text it answers with 256 bytes that begin with \<open>HI_\<close>, to
  whoever sent it, and goes on talking.\<close>

theorem child_dialogue:
  assumes "length (c_buffer c) = 256" and "child_talk pid (Some (a, d)) errno c = Some t"
    and "n = length (cstr (receive d (c_buffer c)))"
  shows "if n \<le> 3
    then c_sent t = c_sent c \<and> c_state t = ERROR \<and>
      (\<exists>u w. child_error pid t = Some u \<and> c_state u = WAIT_FOR_CLIENT
        \<and> c_sent u = c_sent c @ [(a, w)] \<and> cstr w = sorry_text)
    else c_state t = c_state c \<and>
      (\<exists>w. c_sent t = c_sent c @ [(a, w)] \<and> length w = 256 \<and> take 3 w = ''HI_''
        \<and> drop 3 w = drop 3 (receive d (c_buffer c)))"
proof -
  let ?buf = "receive d (c_buffer c)"
  have len: "length ?buf = 256" by (rule length_receive [OF assms(1)])
  have nul: "NUL \<in> set ?buf"
    using assms(2) by (auto simp: child_talk_def Let_def strlen_def bind_eq_Some_conv split: if_splits)
  show ?thesis
  proof (cases "n \<le> 3")
    case True
    with assms(2) nul have t: "c_sent t = c_sent c" "c_state t = ERROR" "c_buffer t = ?buf"
      "msg_address (c_buff t) = a"
      by (auto simp: child_talk_def Let_def strlen_def assms(3))
    obtain w where w: "strcpy ?buf sorry_text = Some w" "length w = 256"
      using sorry_fits [OF len] by blast
    have "NUL \<notin> set sorry_text" by (simp add: sorry_text_def NUL_def)
    then have "cstr w = sorry_text" by (rule cstr_strcpy [OF w(1)])
    with t w True show ?thesis by (simp add: child_error_def Let_def)
  next
    case False
    obtain c0 c1 c2 rest where buf: "?buf = c0 # c1 # c2 # rest"
      using len by (auto simp: length_Suc_conv numeral_eq_Suc)
    from False assms(2) nul have "c_state t = c_state c"
      "c_sent t = c_sent c @ [(a, ?buf[0 := CHR ''H'', 1 := CHR ''I'', 2 := CHR ''_''])]"
      by (auto simp: child_talk_def Let_def strlen_def assms(3))
    with False len show ?thesis by (simp add: buf numeral_2_eq_2 numeral_3_eq_3)
  qed
qed

theorem child_dialogue_witness:
  "\<exists>c t. length (c_buffer c) = 256 \<and> child_talk 5 (Some (7, ''ok'' @ [NUL])) 0 c = Some t \<and> c_state t = ERROR"
proof -
  define c where "c = (child_init \<lparr>priority = 0, msg_fd = 0, msg_address = 0\<rparr>)\<lparr>c_state := TALKING\<rparr>"
  have len: "length (c_buffer c) = 256" by (simp add: c_def child_init_def hello_def nl_def)
  have cstr: "cstr (receive (''ok'' @ [NUL]) (c_buffer c)) = ''ok''"
    by (simp add: receive_def cstr_def NUL_def)
  have "NUL \<in> set (receive (''ok'' @ [NUL]) (c_buffer c))" by (simp add: receive_def)
  then have "\<exists>t. child_talk 5 (Some (7, ''ok'' @ [NUL])) 0 c = Some t"
    by (simp add: child_talk_def Let_def strlen_def)
  then obtain t where t: "child_talk 5 (Some (7, ''ok'' @ [NUL])) 0 c = Some t" by blast
  from child_dialogue [OF len t refl, unfolded cstr] have "c_state t = ERROR" by simp
  with len t show ?thesis by blast
qed

end
