(* ===== verification/Shell.thy ===== *)
theory Shell
  imports CLib
begin

text \<open>
  \<open>interpretator.c\<close> of \<open>les15_pipes\<close>: the command line is read into a buffer of 256 bytes, cut
  at \<open>|\<close> and at the newline, each part split into a program and one argument, and the programs
  run in a pipeline. \<open>command\<close> and \<open>arg\<close> are buffers of 512 bytes that live as long as the
  program and are not initialised; indices into them are absolute, as in the code. An access
  outside a buffer is \<open>None\<close>.
\<close>

section \<open>Reading a line\<close>

text \<open>
  \<open>my_getline\<close>: at the end of the input \<open>read\<close> stores nothing and \<open>c\<close> keeps what the stack
  holds, \<open>garbage i\<close> in turn \<open>i\<close>; \<open>buff\<close> is what \<open>malloc\<close> returned.
\<close>

function getline_loop :: "(nat \<Rightarrow> char) \<Rightarrow> nat \<Rightarrow> string \<Rightarrow> string \<Rightarrow> string \<times> string" where
  "getline_loop garbage i input buff =
     (if i < 255 then
        (let c = (case input of [] \<Rightarrow> garbage i | x # _ \<Rightarrow> x);
             input = tl input;
             buff = buff[i := c]
         in if buff ! i = CHR 0x0A then (buff[i + 1 := NUL], input)
            else getline_loop garbage (Suc i) input buff)
      else (buff, input))"
  by pat_completeness auto
termination by (relation "measure (\<lambda>(g, i, inp, b). 255 - i)") auto

declare getline_loop.simps [simp del]

definition my_getline :: "(nat \<Rightarrow> char) \<Rightarrow> string \<Rightarrow> string \<Rightarrow> string \<times> string" where
  "my_getline garbage heap input = getline_loop garbage 0 input heap"

section \<open>Cutting it\<close>

definition blank :: char where
  "blank = CHR '' ''"

text \<open>\<open>while(buf[i] == ' ') i++;\<close> and the same with a bound: the first index from \<open>i\<close> on
  without a blank, the length of the buffer if there is none.\<close>

definition skip_blanks :: "string \<Rightarrow> nat \<Rightarrow> nat" where
  "skip_blanks buf i = i + length (takeWhile (\<lambda>c. c = blank) (drop i buf))"

text \<open>The first index from \<open>i\<close> on with a blank or the terminator.\<close>

definition find_blank :: "string \<Rightarrow> nat \<Rightarrow> nat" where
  "find_blank buf i = i + length (takeWhile (\<lambda>c. c \<noteq> blank \<and> c \<noteq> NUL) (drop i buf))"

text \<open>\<open>i = strlen(pointer) - 1; while (pointer[i] == ' ' && i >= 0) i--; pointer[i + 1] = 0;\<close>:
  the index from the start of the buffer where the terminator is put.\<close>

fun cut_tail :: "string \<Rightarrow> nat \<Rightarrow> nat \<Rightarrow> nat" where
  "cut_tail buf p 0 = p"
| "cut_tail buf p (Suc n) = (if buf ! (p + n) = blank then cut_tail buf p n else p + Suc n)"

text \<open>
  \<open>parse_args\<close>: the string stored in \<open>*arg\<close> and the command buffer, into which the terminator
  is written.
\<close>

definition parse_args :: "string \<Rightarrow> (string \<times> string) option" where
  "parse_args command = do {
     let i = skip_blanks command 0;
     n \<leftarrow> strlen command;
     if i < length command then
       (let i = find_blank command i in
        if i < n then
          (let pointer = skip_blanks command i;
               len = n - pointer;
               command = command[cut_tail command pointer len := NUL]
           in Some (cstr (drop pointer command), command))
        else Some ([], command))
     else None
   }"

text \<open>\<open>parse_com\<close>: a terminator over the first blank.\<close>

definition parse_com :: "string \<Rightarrow> string option" where
  "parse_com command = do {
     n \<leftarrow> strlen command;
     let i = find_blank command 0;
     Some (if i < n then command[i := NUL] else command)
   }"

text \<open>
  \<open>for(int j = strlen(command); j > 0; j--) if (command[j] == ' ') command[j] = 0; else break;\<close>
\<close>

fun trim_loop :: "string \<Rightarrow> nat \<Rightarrow> string" where
  "trim_loop command 0 = command"
| "trim_loop command (Suc j) =
     (if command ! Suc j = blank then trim_loop (command[Suc j := NUL]) j else command)"

text \<open>\<open>command[j - start] = buff[j]\<close> for \<open>j\<close> from \<open>start\<close> below \<open>i\<close>, then \<open>command[i] = 0\<close>.\<close>

definition copy_part :: "string \<Rightarrow> nat \<Rightarrow> nat \<Rightarrow> string \<Rightarrow> string" where
  "copy_part buff start i command =
     (let part = take (i - start) (drop start buff)
      in (part @ drop (length part) command)[i := NUL])"

text \<open>
  The loop of \<open>main\<close> over the line, from index \<open>i\<close>: the final \<open>command\<close> and the programs and
  arguments found. After a separator \<open>i\<close> stands on the first character of the next part, and
  the loop's own increment passes over it.
\<close>

function parse_loop :: "string \<Rightarrow> nat \<Rightarrow> nat \<Rightarrow> nat \<Rightarrow> string \<Rightarrow> (string \<times> string) list
    \<Rightarrow> (string \<times> (string \<times> string) list) option" where
  "parse_loop buff n start i command found =
     (if i < n then
        (if buff ! i = CHR ''|'' \<or> buff ! i = CHR 0x0A then do {
           let command = copy_part buff start i command;
           let i = skip_blanks buff (Suc i);
           len \<leftarrow> strlen command;
           let command = trim_loop command len;
           (arg, command) \<leftarrow> parse_args command;
           command \<leftarrow> parse_com command;
           parse_loop buff n i (Suc i) command (found @ [(cstr command, arg)])
         } else parse_loop buff n start (Suc i) command found)
      else Some (command, found))"
  by pat_completeness auto
termination
  by (relation "measure (\<lambda>(b, n, s, i, c, f). n - i)") (auto simp: skip_blanks_def)

declare parse_loop.simps [simp del]

definition parse_line :: "string \<Rightarrow> string \<Rightarrow> (string \<times> (string \<times> string) list) option" where
  "parse_line buff command = do {
     n \<leftarrow> strlen buff;
     parse_loop buff n 0 0 command []
   }"

section \<open>Running it\<close>

datatype endpoint = Terminal | Pipe nat | Drained

text \<open>A process \<open>recursive_call\<close> forks: its program, arguments, input and output.\<close>

record process =
  program :: string
  arguments :: "string list"
  input_from :: endpoint
  output_to :: endpoint

text \<open>
  \<open>recursive_call\<close>: process \<open>i\<close> writes to its own pipe and reads from the one before, since the
  parent makes each pipe its standard input in turn. \<open>stdin\<close> is the standard input the
  interpreter has when it is called; afterwards it is the last pipe, which the parent has read
  to its end and copied to the terminal.
\<close>

fun fork_all :: "nat \<Rightarrow> endpoint \<Rightarrow> (string \<times> string) list \<Rightarrow> process list" where
  "fork_all k stdin [] = []"
| "fork_all k stdin ((prog, arg) # rest) =
     (let p = \<lparr>program = prog,
               arguments = (if arg = [] \<or> hd arg = blank then [prog] else [prog, arg]),
               input_from = stdin, output_to = Pipe k\<rparr>
      in p # fork_all (Suc k) (Pipe k) rest)"

definition recursive_call :: "endpoint \<Rightarrow> (string \<times> string) list \<Rightarrow> process list \<times> endpoint" where
  "recursive_call stdin found =
     (if found = [] then ([], stdin) else (fork_all 0 stdin found, Drained))"

text \<open>One turn of the interpreter's loop: none when the line is \<open>quit\<close>.\<close>

definition quit_line :: string where
  "quit_line = ''quit'' @ nl"

definition sh_turn :: "(nat \<Rightarrow> char) \<Rightarrow> string \<Rightarrow> string \<Rightarrow> endpoint \<Rightarrow> string
    \<Rightarrow> (process list \<times> endpoint \<times> string \<times> string) option option" where
  "sh_turn garbage heap command stdin input = do {
     let (buff, rest) = my_getline garbage heap input;
     n \<leftarrow> strlen buff;
     if take n buff = quit_line then Some None
     else do {
       (command, found) \<leftarrow> parse_line buff command;
       let (ps, last) = recursive_call stdin found;
       Some (Some (ps, last, command, rest))
     }
   }"

section \<open>One part\<close>

text \<open>What a part should become: its first word, and the rest without blanks around it.\<close>

definition first_word :: "string \<Rightarrow> string" where
  "first_word s = takeWhile (\<lambda>c. c \<noteq> blank) s"

definition rtrim :: "string \<Rightarrow> string" where
  "rtrim s = rev (dropWhile (\<lambda>c. c = blank) (rev s))"

definition argument_of :: "string \<Rightarrow> string" where
  "argument_of s =
     rtrim (dropWhile (\<lambda>c. c = blank) (dropWhile (\<lambda>c. c \<noteq> blank) (dropWhile (\<lambda>c. c = blank) s)))"

lemma NUL_not_blank [simp]: "NUL \<noteq> blank" "blank \<noteq> NUL"
  by (simp_all add: NUL_def blank_def)

lemma strlen_NUL: "NUL \<notin> set s \<Longrightarrow> strlen (s @ NUL # t) = Some (length s)"
  by (simp add: strlen_def)

text \<open>A part is blanks, a word, blanks and a remainder.\<close>

lemma part_split:
  obtains a p b v where "s = a @ p @ b @ v" and "set a \<subseteq> {blank}" and "blank \<notin> set p"
    and "set b \<subseteq> {blank}" and "p = [] \<longrightarrow> b = [] \<and> v = []" and "b = [] \<longrightarrow> v = []"
    and "v = [] \<or> hd v \<noteq> blank" and "argument_of s = rtrim v" and "first_word s = (if a = [] then p else [])"
proof -
  define a where "a = takeWhile (\<lambda>c. c = blank) s"
  define t where "t = dropWhile (\<lambda>c. c = blank) s"
  define p where "p = takeWhile (\<lambda>c. c \<noteq> blank) t"
  define u where "u = dropWhile (\<lambda>c. c \<noteq> blank) t"
  define b where "b = takeWhile (\<lambda>c. c = blank) u"
  define v where "v = dropWhile (\<lambda>c. c = blank) u"
  note defs = a_def t_def p_def u_def b_def v_def
  have s: "s = a @ p @ b @ v"
    unfolding b_def v_def takeWhile_dropWhile_id unfolding p_def u_def takeWhile_dropWhile_id
    unfolding a_def t_def takeWhile_dropWhile_id ..
  have t0: "t = [] \<or> hd t \<noteq> blank" unfolding t_def by (metis (mono_tags) hd_dropWhile)
  have u0: "u = [] \<or> hd u = blank" unfolding u_def by (metis (mono_tags) hd_dropWhile)
  have pe: "p = [] \<longrightarrow> b = [] \<and> v = []"
    using t0 by (cases t) (auto simp: p_def u_def b_def v_def)
  have be: "b = [] \<longrightarrow> v = []"
    using u0 by (cases u) (auto simp: b_def v_def)
  have fw: "first_word s = (if a = [] then p else [])"
  proof (cases "a = []")
    case True
    then have "s = t" using takeWhile_dropWhile_id [of "\<lambda>c. c = blank" s] by (simp add: a_def t_def)
    then show ?thesis using True by (simp add: first_word_def p_def)
  next
    case False
    then have "s \<noteq> [] \<and> hd s = blank" by (cases s) (auto simp: a_def split: if_splits)
    then show ?thesis using False by (cases s) (auto simp: first_word_def)
  qed
  have v0: "v = [] \<or> hd v \<noteq> blank" unfolding v_def by (metis (mono_tags) hd_dropWhile)
  show thesis
    by (rule that [OF s _ _ _ pe be v0 _ fw])
      (auto simp: a_def p_def b_def argument_of_def v_def u_def t_def dest: set_takeWhileD)
qed

lemma takeWhile_blanks: "set a \<subseteq> {blank} \<Longrightarrow> t \<noteq> [] \<Longrightarrow> hd t \<noteq> blank \<Longrightarrow> takeWhile (\<lambda>c. c = blank) (a @ t) = a"
  by (induction a) (auto simp: neq_Nil_conv)

lemma skip_blanks_at:
  "set b \<subseteq> {blank} \<Longrightarrow> t \<noteq> [] \<Longrightarrow> hd t \<noteq> blank \<Longrightarrow> skip_blanks (h @ b @ t) (length h) = length h + length b"
  by (simp add: skip_blanks_def takeWhile_blanks)

lemma find_blank_at:
  "blank \<notin> set p \<Longrightarrow> NUL \<notin> set p \<Longrightarrow> t \<noteq> [] \<Longrightarrow> hd t = blank \<or> hd t = NUL \<Longrightarrow>
   find_blank (h @ p @ t) (length h) = length h + length p"
  by (induction p) (auto simp: find_blank_def neq_Nil_conv)

lemma cut_tail_rtrim:
  "cut_tail (h @ v @ t) (length h) (length v) = length h + length (rtrim v)"
proof (induction v arbitrary: t rule: rev_induct)
  case (snoc x v)
  have eq: "cut_tail (h @ (v @ [x]) @ t) (length h) (length v) = length h + length (rtrim v)"
    using snoc [of "x # t"] by simp
  then show ?case by (auto simp: nth_append rtrim_def)
qed (simp add: rtrim_def)

lemma rtrim_split: "\<exists>w. v = rtrim v @ w \<and> set w \<subseteq> {blank}"
proof -
  have "rev v = takeWhile (\<lambda>c. c = blank) (rev v) @ dropWhile (\<lambda>c. c = blank) (rev v)" by simp
  then have "v = rtrim v @ rev (takeWhile (\<lambda>c. c = blank) (rev v))"
    unfolding rtrim_def by (metis rev_append rev_rev_ident)
  then show ?thesis by (intro exI [of _ "rev (takeWhile (\<lambda>c. c = blank) (rev v))"])
      (auto dest: set_takeWhileD)
qed

lemma parse_args_eval:
  assumes "NUL \<notin> set s" and "s = a @ p @ b @ v" and "set a \<subseteq> {blank}" and "blank \<notin> set p"
    and "set b \<subseteq> {blank}" and "p = [] \<longrightarrow> b = [] \<and> v = []" and "b = [] \<longrightarrow> v = []" and "v = [] \<or> hd v \<noteq> blank"
  shows "\<exists>t. parse_args (s @ NUL # tail) = Some (rtrim v, a @ p @ b @ rtrim v @ NUL # t)
    \<and> length (rtrim v @ NUL # t) = length (v @ NUL # tail)"
proof -
  let ?cmd = "s @ NUL # tail"
  obtain w where w: "v = rtrim v @ w" using rtrim_split by blast
  have cmd: "?cmd = a @ (p @ b @ v @ NUL # tail)" using assms(2) by simp
  have hd0: "hd (p @ b @ v @ NUL # tail) \<noteq> blank"
    using assms(4,6) by (cases p) auto
  have i: "skip_blanks ?cmd 0 = length a"
    using skip_blanks_at [of a "p @ b @ v @ NUL # tail" "[]"] assms(3) hd0 by (simp add: cmd)
  have n: "strlen ?cmd = Some (length s)" by (rule strlen_NUL [OF assms(1)])
  have f: "find_blank ?cmd (length a) = length a + length p"
  proof -
    have "hd (b @ v @ NUL # tail) = blank \<or> hd (b @ v @ NUL # tail) = NUL"
      using assms(5,7) by (cases b) auto
    then show ?thesis
      using find_blank_at [of p "b @ v @ NUL # tail" a] assms(1,2,4) by (simp add: cmd)
  qed
  show ?thesis
  proof (cases "b = []")
    case True
    with assms(7) have v: "v = []" by simp
    have "parse_args ?cmd = Some ([], ?cmd)"
      unfolding parse_args_def Let_def i n Option.bind.simps f using assms(2) True v by simp
    with True v assms(2) show ?thesis by (intro exI [of _ tail]) (simp add: rtrim_def)
  next
    case False
    have hd1: "v @ NUL # tail \<noteq> [] \<and> hd (v @ NUL # tail) \<noteq> blank"
      using assms(8) by (cases v) auto
    have cmd2: "?cmd = (a @ p) @ b @ (v @ NUL # tail)" using assms(2) by simp
    have p: "skip_blanks ?cmd (length a + length p) = length (a @ p @ b)"
      unfolding cmd2 using skip_blanks_at [of b "v @ NUL # tail" "a @ p"] assms(5) hd1 by simp
    have len: "length s - length (a @ p @ b) = length v" by (simp add: assms(2))
    have cut: "cut_tail ?cmd (length (a @ p @ b)) (length v) = length (a @ p @ b) + length (rtrim v)"
      using cut_tail_rtrim [of "a @ p @ b" v "NUL # tail"] by (simp add: assms(2))
    have "length a + length p < length s" using False assms(2) by simp
    then have args: "parse_args ?cmd = Some (cstr (drop (length (a @ p @ b))
          (?cmd[length (a @ p @ b) + length (rtrim v) := NUL])), ?cmd[length (a @ p @ b) + length (rtrim v) := NUL])"
      unfolding parse_args_def Let_def i n Option.bind.simps f p len cut by simp
    obtain t where t: "(w @ NUL # tail)[0 := NUL] = NUL # t" "length (NUL # t) = length (w @ NUL # tail)"
      by (cases w) auto
    have "?cmd = (a @ p @ b @ rtrim v) @ (w @ NUL # tail)"
      by (subst assms(2), subst w) simp
    then have upd: "?cmd[length (a @ p @ b) + length (rtrim v) := NUL] = a @ p @ b @ rtrim v @ NUL # t"
      using t by (simp add: list_update_append)
    have "NUL \<notin> set (rtrim v)" using assms(1,2) w by (metis UnCI set_append)
    then have "cstr (drop (length (a @ p @ b)) (a @ p @ b @ rtrim v @ NUL # t)) = rtrim v" by simp
    moreover have "length (rtrim v @ NUL # t) = length (v @ NUL # tail)"
      using t w by (metis append.assoc length_append)
    ultimately show ?thesis using args upd by (intro exI [of _ t]) simp
  qed
qed

text \<open>Both parsing functions on a part in the buffer.\<close>

lemma parse_part:
  assumes "NUL \<notin> set s"
  shows "\<exists>c d. parse_args (s @ NUL # tail) = Some (argument_of s, c) \<and> parse_com c = Some d
    \<and> cstr d = first_word s"
proof -
  obtain a p b v where s: "s = a @ p @ b @ v" "set a \<subseteq> {blank}" "blank \<notin> set p" "set b \<subseteq> {blank}"
    "p = [] \<longrightarrow> b = [] \<and> v = []" "b = [] \<longrightarrow> v = []" "v = [] \<or> hd v \<noteq> blank" "argument_of s = rtrim v"
    "first_word s = (if a = [] then p else [])"
    by (rule part_split)
  obtain t where t: "parse_args (s @ NUL # tail) = Some (rtrim v, a @ p @ b @ rtrim v @ NUL # t)"
    using parse_args_eval [OF assms s(1-7)] by blast
  obtain w where w: "v = rtrim v @ w" using rtrim_split by blast
  have nul: "NUL \<notin> set (a @ p @ b @ rtrim v)" using assms s(1) w by (metis UnCI UnE set_append)
  let ?c = "a @ p @ b @ rtrim v @ NUL # t"
  have n: "strlen ?c = Some (length (a @ p @ b @ rtrim v))"
    using strlen_NUL [OF nul, of t] by simp
  have "\<exists>d. parse_com ?c = Some d \<and> cstr d = first_word s"
  proof (cases "a = [] \<and> b = []")
    case True
    then have v: "v = []" using s(6) by simp
    have "find_blank ?c 0 = length p"
      using find_blank_at [of p "NUL # t" "[]"] s(3) nul True v by (simp add: rtrim_def)
    then have "parse_com ?c = Some ?c"
      unfolding parse_com_def n using True v by (simp add: rtrim_def)
    then show ?thesis using True v s(9) nul by (simp add: rtrim_def)
  next
    case False
    define h where "h = (if a = [] then p else [])"
    obtain r where r: "?c = h @ blank # r"
    proof (cases "a = []")
      case True
      with False s(4) have "b = blank # tl b" by (cases b) auto
      then have "?c = h @ blank # tl b @ rtrim v @ NUL # t"
        using True by (metis append_Cons append_Nil h_def)
      then show thesis by (rule that)
    next
      case False
      with s(2) have "a = blank # tl a" by (cases a) auto
      then have "?c = h @ blank # tl a @ p @ b @ rtrim v @ NUL # t"
        using False by (metis append_Cons append_Nil h_def)
      then show thesis by (rule that)
    qed
    have hn: "blank \<notin> set h" "NUL \<notin> set h" using s(3) nul by (auto simp: h_def)
    have fb: "find_blank ?c 0 = length h"
      unfolding r using find_blank_at [of h "blank # r" "[]"] hn by simp
    have "length h < length (a @ p @ b @ rtrim v)"
      using False by (auto simp: h_def)
    then have "parse_com ?c = Some (?c[length h := NUL])"
      unfolding parse_com_def n Option.bind.simps Let_def fb by simp
    moreover have "?c[length h := NUL] = h @ NUL # r" unfolding r by simp
    ultimately show ?thesis using hn s(9) by (simp add: h_def split: if_splits)
  qed
  with t s(8) show ?thesis by auto
qed

section \<open>One line\<close>

text \<open>\<open>my_getline\<close> reads a line of at most 254 characters with its newline and terminates it.\<close>

lemma getline_loop_line:
  assumes "length heap = 256" and "CHR 0x0A \<notin> set s" and "length pre + length s \<le> 254"
    and "take (length pre) heap = pre"
  shows "getline_loop g (length pre) (s @ CHR 0x0A # rest) heap =
    (pre @ s @ CHR 0x0A # NUL # drop (length pre + length s + 2) heap, rest)"
  using assms
proof (induction s arbitrary: pre heap)
  case Nil
  have h: "heap = pre @ drop (length pre) heap" using Nil by (metis append_take_drop_id)
  obtain x y t where d: "drop (length pre) heap = x # y # t"
  proof -
    have "2 \<le> length (drop (length pre) heap)" using Nil by simp
    then show thesis using that by (cases "drop (length pre) heap"; cases "tl (drop (length pre) heap)") auto
  qed
  have t: "t = drop (length pre + 2) heap"
    using d by (metis add.commute drop_Suc_Cons drop0 drop_drop numeral_2_eq_2)
  have "heap[length pre := CHR 0x0A, Suc (length pre) := NUL] = pre @ CHR 0x0A # NUL # t"
    by (subst h, subst d) (simp add: list_update_append)
  with Nil t show ?case by (subst getline_loop.simps) simp
next
  case (Cons c s)
  have "heap[length pre := c] = pre @ c # drop (Suc (length pre)) heap"
    using Cons.prems by (subst id_take_nth_drop [of "length pre" heap]) (auto simp: list_update_append)
  moreover have "length (heap[length pre := c]) = 256" using Cons.prems by simp
  ultimately have "getline_loop g (length (pre @ [c])) (s @ CHR 0x0A # rest) (heap[length pre := c]) =
    ((pre @ [c]) @ s @ CHR 0x0A # NUL # drop (length (pre @ [c]) + length s + 2) (heap[length pre := c]), rest)"
    using Cons.prems by (intro Cons.IH) auto
  with Cons.prems show ?case by (subst getline_loop.simps) (auto simp: drop_update_cancel Let_def)
qed

lemma my_getline_line:
  assumes "length heap = 256" and "CHR 0x0A \<notin> set s" and "length s \<le> 254"
  shows "my_getline g heap (s @ CHR 0x0A # rest) = (s @ CHR 0x0A # NUL # drop (length s + 2) heap, rest)"
  using getline_loop_line [of heap s "[]" g rest] assms by (simp add: my_getline_def)

definition separator :: "char \<Rightarrow> bool" where
  "separator c \<longleftrightarrow> c = CHR ''|'' \<or> c = CHR 0x0A"

text \<open>The loop passes over the characters of a part.\<close>

lemma parse_loop_pass:
  "j \<le> n \<Longrightarrow> i \<le> j \<Longrightarrow> (\<forall>k. i \<le> k \<and> k < j \<longrightarrow> \<not> separator (buff ! k)) \<Longrightarrow>
   parse_loop buff n start i command found = parse_loop buff n start j command found"
proof (induction "j - i" arbitrary: i)
  case (Suc d)
  then have "\<not> separator (buff ! i)" "i < n" by auto
  then have "parse_loop buff n start i command found = parse_loop buff n start (Suc i) command found"
    by (subst parse_loop.simps) (simp add: separator_def)
  with Suc show ?case by simp
qed simp

lemma trim_loop_end: "strlen c = Some n \<Longrightarrow> trim_loop c n = c"
proof (cases n)
  case (Suc k)
  moreover assume n: "strlen c = Some n"
  ultimately have "c ! n = NUL"
    using cstr_split [of c] by (metis NUL_notin_cstr nth_append_length option.distinct(1) option.inject strlen_def)
  with Suc show ?thesis by simp
qed simp

text \<open>At a separator, the part in the buffer is parsed and the loop goes on behind it.\<close>

lemma parse_loop_part:
  assumes "i < n" and "separator (buff ! i)" and "copy_part buff start i command = s @ NUL # tail"
    and "NUL \<notin> set s"
  shows "\<exists>c d. parse_args (s @ NUL # tail) = Some (argument_of s, c) \<and> parse_com c = Some d
    \<and> parse_loop buff n start i command found =
      parse_loop buff n (skip_blanks buff (Suc i)) (Suc (skip_blanks buff (Suc i))) d
        (found @ [(first_word s, argument_of s)])"
proof -
  obtain c d where cd: "parse_args (s @ NUL # tail) = Some (argument_of s, c)" "parse_com c = Some d"
    "cstr d = first_word s"
    using parse_part [OF assms(4)] by blast
  have n: "strlen (s @ NUL # tail) = Some (length s)" by (rule strlen_NUL [OF assms(4)])
  have "parse_loop buff n start i command found =
      parse_loop buff n (skip_blanks buff (Suc i)) (Suc (skip_blanks buff (Suc i))) d
        (found @ [(first_word s, argument_of s)])"
    using assms(1,2) by (subst parse_loop.simps)
      (simp add: separator_def assms(3) n trim_loop_end [OF n] cd Let_def)
  with cd show ?thesis by blast
qed

lemma copy_first_part:
  "length s < length command \<Longrightarrow> copy_part (s @ t) 0 (length s) command = s @ NUL # drop (Suc (length s)) command"
  by (cases "drop (length s) command")
    (auto simp: copy_part_def Let_def list_update_append drop_Suc drop_tl)

lemma trim_loop_length [simp]: "length (trim_loop c n) = length c"
  by (induction n arbitrary: c) simp_all

lemma parse_args_length: "parse_args c = Some (a, d) \<Longrightarrow> length d = length c"
  by (auto simp: parse_args_def Let_def bind_eq_Some_conv split: if_splits)

lemma parse_com_length: "parse_com c = Some d \<Longrightarrow> length d = length c"
  by (auto simp: parse_com_def Let_def bind_eq_Some_conv)

lemma copy_part_length: "i \<le> length c \<Longrightarrow> length (copy_part buff start i c) = length c"
  by (simp add: copy_part_def Let_def)

lemma parse_loop_length:
  "parse_loop buff n start i c f = Some (d, g) \<Longrightarrow> n \<le> length c \<Longrightarrow> length d = length c"
proof (induction buff n start i c f rule: parse_loop.induct)
  case (1 buff n start i c f)
  show ?case
  proof (cases "i < n \<and> (buff ! i = CHR ''|'' \<or> buff ! i = CHR 0x0A)")
    case True
    then have "length (copy_part buff start i c) = length c" using "1.prems"(2) by (simp add: copy_part_length)
    note copied = this
    let ?i = "skip_blanks buff (Suc i)"
    from True "1.prems"(1) obtain len arg c1 c2 where
      len: "strlen (copy_part buff start i c) = Some len"
      and c1: "parse_args (trim_loop (copy_part buff start i c) len) = Some (arg, c1)"
      and c2: "parse_com c1 = Some c2"
      and rest: "parse_loop buff n ?i (Suc ?i) c2 (f @ [(cstr c2, arg)]) = Some (d, g)"
      by (subst (asm) parse_loop.simps) (auto simp: Let_def bind_eq_Some_conv)
    have l: "length c2 = length c"
      using parse_args_length [OF c1] parse_com_length [OF c2] copied by simp
    show ?thesis using "1.IH"(1) [OF _ _ refl refl len refl c1 refl c2 rest] True "1.prems"(2) l by simp
  next
    case False
    with "1.prems" "1.IH"(2) show ?thesis
      by (subst (asm) parse_loop.simps) (auto split: if_splits)
  qed
qed

text \<open>A turn of the loop for a line without a pipe.\<close>

lemma one_part_turn:
  assumes "length heap = 256" and "length command = 512" and "length s \<le> 254"
    and "\<forall>c \<in> set s. c \<noteq> CHR ''|'' \<and> c \<noteq> CHR 0x0A \<and> c \<noteq> NUL" and "s \<noteq> ''quit''"
  shows "\<exists>command'. length command' = 512 \<and> sh_turn g heap command stdin (s @ CHR 0x0A # rest) =
    Some (Some (fork_all 0 stdin [(first_word s, argument_of s)], Drained, command', rest))"
proof -
  have nul: "NUL \<notin> set s" and nl: "CHR 0x0A \<notin> set s" using assms(4) by auto
  let ?buff = "s @ CHR 0x0A # NUL # drop (length s + 2) heap"
  let ?n = "Suc (length s)"
  have line: "my_getline g heap (s @ CHR 0x0A # rest) = (?buff, rest)"
    by (rule my_getline_line [OF assms(1) nl assms(3)])
  have n: "strlen ?buff = Some ?n"
    using strlen_NUL [of "s @ [CHR 0x0A]" "drop (length s + 2) heap"] nul by (simp add: NUL_def)
  have quit: "take ?n ?buff \<noteq> quit_line"
    using assms(5) by (simp add: quit_line_def nl_def)
  have "parse_loop ?buff ?n 0 0 command [] = parse_loop ?buff ?n 0 (length s) command []"
    by (rule parse_loop_pass) (use assms(4) in \<open>auto simp: nth_append separator_def\<close>)
  moreover have "copy_part ?buff 0 (length s) command = s @ NUL # drop (Suc (length s)) command"
    by (rule copy_first_part) (use assms(2,3) in simp)
  from parse_loop_part [OF _ _ this nul, of ?n "[]"] obtain d where
    "parse_loop ?buff ?n 0 (length s) command [] =
      parse_loop ?buff ?n (skip_blanks ?buff ?n) (Suc (skip_blanks ?buff ?n)) d [(first_word s, argument_of s)]"
    by (auto simp: separator_def nth_append)
  moreover have "parse_loop ?buff ?n k (Suc (skip_blanks ?buff ?n)) d f = Some (d, f)" for k d f
    by (subst parse_loop.simps) (simp add: skip_blanks_def)
  ultimately have loop: "parse_loop ?buff ?n 0 0 command [] = Some (d, [(first_word s, argument_of s)])"
    by simp
  have "parse_line ?buff command = Some (d, [(first_word s, argument_of s)])"
    by (simp only: parse_line_def n Option.bind.simps loop)
  then have "sh_turn g heap command stdin (s @ CHR 0x0A # rest) = Some (Some
      (fork_all 0 stdin [(first_word s, argument_of s)], Drained, d, rest))"
    by (simp only: sh_turn_def line n quit Let_def prod.case Option.bind.simps if_False recursive_call_def
        list.distinct)
  moreover have "length d = 512" using parse_loop_length [OF loop] assms(2,3) by simp
  ultimately show ?thesis by blast
qed

text \<open>A line without a pipe. Whatever the buffers held, a line of at most 254 characters
  becomes one process: the program is its first word, the only argument the rest of the line
  without the blanks around it (no argument if that is empty), and it reads what the interpreter
  reads and writes to the pipe that is copied to the terminal.\<close>

theorem single_command:
  assumes "length heap = 256" and "length command = 512" and "length s \<le> 254"
    and "\<forall>c \<in> set s. c \<noteq> CHR ''|'' \<and> c \<noteq> CHR 0x0A \<and> c \<noteq> NUL" and "s \<noteq> ''quit''"
  shows "\<exists>command'. sh_turn g heap command stdin (s @ CHR 0x0A # rest) = Some (Some
    ([\<lparr>program = first_word s,
       arguments = (if argument_of s = [] \<or> hd (argument_of s) = blank then [first_word s]
                    else [first_word s, argument_of s]),
       input_from = stdin, output_to = Pipe 0\<rparr>], Drained, command', rest))"
  using one_part_turn [OF assms, of g stdin rest] by auto

theorem single_command_witness:
  "\<exists>command'. sh_turn (\<lambda>_. NUL) (replicate 256 (CHR ''?'')) (replicate 512 (CHR ''?'')) Terminal
      (''ls -l  '' @ nl @ ''quit'' @ nl) = Some (Some
    ([\<lparr>program = ''ls'', arguments = [''ls'', ''-l''], input_from = Terminal, output_to = Pipe 0\<rparr>],
      Drained, command', ''quit'' @ nl))"
proof -
  have len: "length (replicate 256 (CHR ''?'')) = 256" "length (replicate 512 (CHR ''?'')) = 512"
    "length ''ls -l  '' \<le> 254" by simp_all
  have chars: "\<forall>c \<in> set ''ls -l  ''. c \<noteq> CHR ''|'' \<and> c \<noteq> CHR 0x0A \<and> c \<noteq> NUL"
    by (simp add: NUL_def)
  have "first_word ''ls -l  '' = ''ls''" "argument_of ''ls -l  '' = ''-l''"
    by (simp_all add: first_word_def argument_of_def rtrim_def blank_def)
  with single_command [OF len chars, of "\<lambda>_. NUL" Terminal "''quit'' @ nl"] show ?thesis
    by (simp add: nl_def blank_def)
qed

section \<open>Two parts\<close>

text \<open>A part without blanks leaves the buffer as it is.\<close>

lemma parse_word:
  assumes "blank \<notin> set s" and "NUL \<notin> set s"
  shows "parse_args (s @ NUL # t) = Some ([], s @ NUL # t)" and "parse_com (s @ NUL # t) = Some (s @ NUL # t)"
proof -
  have n: "strlen (s @ NUL # t) = Some (length s)" by (rule strlen_NUL [OF assms(2)])
  have i: "skip_blanks (s @ NUL # t) 0 = 0"
    using assms(1) by (cases s) (auto simp: skip_blanks_def)
  have f: "find_blank (s @ NUL # t) 0 = length s"
    using find_blank_at [of s "NUL # t" "[]"] assms by simp
  show "parse_args (s @ NUL # t) = Some ([], s @ NUL # t)"
    unfolding parse_args_def n i Let_def Option.bind.simps f by simp
  show "parse_com (s @ NUL # t) = Some (s @ NUL # t)"
    unfolding parse_com_def n Let_def Option.bind.simps f by simp
qed

lemma word_of_blankfree:
  assumes "blank \<notin> set s"
  shows "first_word s = s" and "argument_of s = []"
proof -
  have word: "\<forall>c \<in> set s. c \<noteq> blank" using assms by blast
  then have drop: "dropWhile (\<lambda>c. c \<noteq> blank) s = []" by (simp only: dropWhile_eq_Nil_conv)
  have start: "dropWhile (\<lambda>c. c = blank) s = s" using assms by (cases s) auto
  show "first_word s = s" unfolding first_word_def using word by (simp only: takeWhile_eq_all_conv)
  show "argument_of s = []" unfolding argument_of_def start drop by (simp add: rtrim_def)
qed

lemma parse_loop_word:
  assumes "i < n" and "separator (buff ! i)" and "copy_part buff start i command = s @ NUL # tail"
    and "NUL \<notin> set s" and "blank \<notin> set s"
  shows "parse_loop buff n start i command found =
    parse_loop buff n (skip_blanks buff (Suc i)) (Suc (skip_blanks buff (Suc i))) (s @ NUL # tail) (found @ [(s, [])])"
  using parse_loop_part [OF assms(1-4), of found] parse_word [OF assms(5,4), of tail]
    word_of_blankfree [OF assms(5)] by simp

lemma replicate_NUL_update: "(s @ replicate k NUL)[j := NUL] = s @ replicate k NUL" if "length s \<le> j"
  using that by (simp add: list_update_append) (metis length_replicate list_update_beyond list_update_id not_le nth_replicate)

text \<open>The second part is copied over the first without its own terminator.\<close>

lemma copy_second_part:
  assumes "length a + length b < 500"
  shows "\<exists>t. copy_part (a @ CHR ''|'' # b @ rest) (Suc (length a)) (Suc (length a) + length b)
      (a @ NUL # replicate (511 - length a) NUL) = (b @ drop (length b) a) @ NUL # t"
proof -
  have rep: "NUL # replicate (511 - length a) NUL = replicate (512 - length a) NUL"
  proof -
    have "512 - length a = Suc (511 - length a)" using assms by simp
    then show ?thesis by (simp only: replicate_Suc)
  qed
  have "copy_part (a @ CHR ''|'' # b @ rest) (Suc (length a)) (Suc (length a) + length b)
      (a @ replicate (512 - length a) NUL) =
      ((b @ drop (length b) a) @ replicate (512 - length a - (length b - length a)) NUL)[Suc (length a) + length b := NUL]"
    by (simp add: copy_part_def Let_def)
  also have "\<dots> = (b @ drop (length b) a) @ replicate (512 - length a - (length b - length a)) NUL"
    by (rule replicate_NUL_update) simp
  also have "512 - length a - (length b - length a) = Suc (511 - length a - (length b - length a))"
    using assms by simp
  finally show ?thesis unfolding rep by (metis replicate_Suc)
qed



end
