(* ===== verification/Nano.thy ===== *)
theory Nano
  imports CLib
begin

text \<open>
  \<open>les10_my_nano\<close>: the editor of \<open>main.c\<close>, with its cursor \<open>tickX\<close> (the line) and \<open>tickY\<close>
  (the column), and \<open>reverse.c\<close>, which writes the bytes of a file backwards. What is done to the
  text window and to the hint window is recorded as a list of calls into ncurses for each; what is typed
  at a prompt, which ncurses echoes in the hint window, and what \<open>read\<close> and \<open>open\<close> answer are parameters.
\<close>

section \<open>Reading a file\<close>

text \<open>
  The loop of \<open>winRead\<close>: the text printed in the window. \<open>buffer\<close> has 15 bytes, \<open>read\<close> asks for
  13; when it fails, \<open>buffer[-1]\<close> is written. \<open>%s\<close> prints up to the first terminator.
\<close>

fun winRead :: "read_result list \<Rightarrow> string option" where
  "winRead [] = Some []"
| "winRead (Eof # rs) = Some []"
| "winRead (Failed # rs) = None"
| "winRead (Bytes b # rs) =
     (if length b < 15 then map_option ((@) (cstr (b @ [NUL]))) (winRead rs) else None)"

section \<open>The editor\<close>

datatype win_call = Move int int | AddChar char | PrintText string | Clear | Refresh

record nano =
  tickX :: int
  tickY :: int
  isInterrupted :: bool
  na_win :: "win_call list"
  na_hint :: "win_call list"
  na_files :: "string list list"

definition MAX_NAME_LENGTH :: nat where "MAX_NAME_LENGTH = 55"
definition HINT_WINDOW_HEIGHT :: int where "HINT_WINDOW_HEIGHT = 4"

definition mainHeight :: "int \<Rightarrow> int" where
  "mainHeight maxHeight = maxHeight - (HINT_WINDOW_HEIGHT + 4)"

definition win :: "win_call list \<Rightarrow> nano \<Rightarrow> nano" where
  "win cs s = s\<lparr>na_win := na_win s @ cs\<rparr>"

definition hint :: "win_call list \<Rightarrow> nano \<Rightarrow> nano" where
  "hint cs s = s\<lparr>na_hint := na_hint s @ cs\<rparr>"

definition clearHint :: "win_call list" where
  "clearHint = [Clear, PrintText (''ctrl+W Open'' @ nl @ ''ctrl+E Save'' @ nl @ ''ctrl+R Exit'' @ nl), Refresh]"

text \<open>
  The keys. Opening and saving come with the name typed in, the descriptor \<open>open\<close> gave, and what
  is read from the file, or what \<open>winstr\<close> finds in each line of the window.
\<close>

datatype key =
    KEY_DOWN | KEY_UP | KEY_LEFT | KEY_RIGHT | KEY_BACKSPACE
  | OpenFile string int "read_result list"
  | SaveFile string int "nat \<Rightarrow> string"
  | ExitKey
  | Newline
  | Symbol char

text \<open>
  \<open>funcWrite\<close>: \<open>winHeight\<close> lines, each with a newline. The moves it makes are recorded in the step
  below, \<open>row i\<close> is what \<open>winstr\<close> gives after the move to line \<open>i\<close>.
\<close>

definition funcWrite :: "(nat \<Rightarrow> string) \<Rightarrow> nat \<Rightarrow> string list" where
  "funcWrite row winHeight = map (\<lambda>i. row i @ nl) [0..<winHeight]"

text \<open>The \<open>switch\<close> of \<open>main\<close> in a terminal of \<open>maxHeight\<close> lines and \<open>maxWidth\<close> columns.\<close>

definition key_switch :: "int \<Rightarrow> int \<Rightarrow> key \<Rightarrow> nano \<Rightarrow> nano option" where
  "key_switch maxHeight maxWidth k s =
     (case k of
        KEY_DOWN \<Rightarrow>
          (let x = tickX s + 1;
               x = (if x \<ge> mainHeight maxHeight - 1 then mainHeight maxHeight - 1 else x)
           in Some (win [Move x (tickY s)] (s\<lparr>tickX := x\<rparr>)))
      | KEY_UP \<Rightarrow>
          Some (if tickX s = 0 then s
                else win [Move (tickX s - 1) (tickY s)] (s\<lparr>tickX := tickX s - 1\<rparr>))
      | KEY_LEFT \<Rightarrow>
          Some (if tickY s = 0 then s
                else win [Move (tickX s) (tickY s - 1)] (s\<lparr>tickY := tickY s - 1\<rparr>))
      | KEY_RIGHT \<Rightarrow>
          Some (if tickY s = maxWidth - 3 then s
                else win [Move (tickX s) (tickY s + 1)] (s\<lparr>tickY := tickY s + 1\<rparr>))
      | KEY_BACKSPACE \<Rightarrow>
          (let y = tickY s - 1; y = (if y < 0 then 0 else y)
           in Some (win [Move (tickX s) y, AddChar (CHR '' ''), Move (tickX s) y] (s\<lparr>tickY := y\<rparr>)))
      | OpenFile name fd results \<Rightarrow>
          (if MAX_NAME_LENGTH \<le> length name then None
           else
             (let s = hint (clearHint @ [PrintText ''File to open: '', PrintText (''Reading '' @ name @ '' '')]) s in
              if fd < 0 then Some (hint [PrintText ''FAILED''] s)
              else map_option (\<lambda>w. win [Clear, PrintText w, Refresh, Move 0 0] (hint [PrintText ''SUCCEEDED''] s))
                     (winRead results)))
      | SaveFile name fd row \<Rightarrow>
          (if MAX_NAME_LENGTH \<le> length name then None
           else
             (let s = hint (clearHint @ [PrintText ''Save as: '', Refresh]) s in
              if fd < 0 then Some (hint [PrintText ('' Error while creating file '' @ name)] s)
              else Some (win (map (\<lambda>i. Move (int i) 0) [0..<nat maxHeight])
                  (hint [PrintText (''File '' @ name @ '' created successfully''), Refresh]
                    (s\<lparr>na_files := na_files s @ [funcWrite row (nat maxHeight)]\<rparr>)))))
      | ExitKey \<Rightarrow> Some (win [PrintText ''Astelavista''] (s\<lparr>isInterrupted := True\<rparr>))
      | Newline \<Rightarrow>
          (let x = tickX s + 1; x = (if x = maxWidth - 1 then maxWidth - 1 else x)
           in Some (win [PrintText nl] (s\<lparr>tickX := x, tickY := 0\<rparr>)))
      | Symbol c \<Rightarrow>
          (let y = tickY s + 1; s = win [PrintText [c]] (s\<lparr>tickY := y\<rparr>)
           in Some (if y \<ge> maxWidth - 2 then s else win [Move (tickX s) y] s)))"

text \<open>One turn of the loop; it ends with the two windows brought to the screen.\<close>

definition key_step :: "int \<Rightarrow> int \<Rightarrow> key \<Rightarrow> nano \<Rightarrow> nano option" where
  "key_step maxHeight maxWidth k s =
     map_option (\<lambda>s. win [Refresh] (hint [Refresh] s)) (key_switch maxHeight maxWidth k s)"

fun key_loop :: "int \<Rightarrow> int \<Rightarrow> key list \<Rightarrow> nano \<Rightarrow> nano option" where
  "key_loop h w [] s = Some s"
| "key_loop h w (k # ks) s =
     (if isInterrupted s then Some s
      else case key_step h w k s of None \<Rightarrow> None | Some t \<Rightarrow> key_loop h w ks t)"

text \<open>\<open>main\<close>; a file named on the command line is read without looking at the descriptor.\<close>

definition nano_main :: "int \<Rightarrow> int \<Rightarrow> int \<Rightarrow> read_result list \<Rightarrow> key list \<Rightarrow> nano option" where
  "nano_main argc maxHeight maxWidth argfile ks = do {
     let s = \<lparr>tickX = 0, tickY = 0, isInterrupted = False, na_win = [PrintText [], Refresh],
              na_hint = clearHint, na_files = []\<rparr>;
     s \<leftarrow> (if argc = 2 then map_option (\<lambda>w. win [Clear, PrintText w, Refresh] s) (winRead argfile) else Some s);
     key_loop maxHeight maxWidth ks s
   }"

section \<open>reverse.c\<close>

text \<open>
  The counting loop (\<open>size\<close> is not initialised) and the writing loop over \<open>lseek(fd, -i, SEEK_END)\<close>
  and \<open>read\<close>: seeking before the start of the file fails and leaves the offset \<open>pos\<close>.
\<close>

fun count_loop :: "read_result list \<Rightarrow> int \<Rightarrow> int" where
  "count_loop [] size0 = size0"
| "count_loop (Eof # rs) size0 = size0"
| "count_loop (Failed # rs) size0 = size0 - 1"
| "count_loop (Bytes b # rs) size0 = count_loop rs (size0 + int (length b))"

function write_back :: "string \<Rightarrow> int \<Rightarrow> int \<Rightarrow> nat \<Rightarrow> string \<Rightarrow> string" where
  "write_back file sz i pos out =
     (if i \<le> sz then
        (let pos = (if int (length file) - i < 0 then pos else nat (int (length file) - i)) in
         if length file \<le> pos then out
         else write_back file sz (i + 1) (pos + 1) (out @ [file ! pos]))
      else out)"
  by pat_completeness auto
termination by (relation "measure (\<lambda>(f, sz, i, p, out). nat (sz + 1 - i))") (auto simp: Let_def)

declare write_back.simps [simp del]

definition reverse_main :: "int \<Rightarrow> read_result list \<Rightarrow> string \<Rightarrow> string" where
  "reverse_main stack results file =
     write_back file (count_loop results stack) 1 (length file) []"

text \<open>
  \<open>main\<close> with the results of its three calls of \<open>open\<close>: the text printed, the bytes written to the
  second file, and the status.
\<close>

fun count_out :: "read_result list \<Rightarrow> string" where
  "count_out [] = []"
| "count_out (Eof # rs) = []"
| "count_out (Failed # rs) = nl @ ''Readed -1 bytes''"
| "count_out (Bytes b # rs) = nl @ ''Readed '' @ dec (int (length b)) @ '' bytes'' @ count_out rs"

definition reverse_prog :: "string \<Rightarrow> string \<Rightarrow> int \<Rightarrow> int \<Rightarrow> int \<Rightarrow> int \<Rightarrow> read_result list \<Rightarrow> string
    \<Rightarrow> string \<times> string \<times> int" where
  "reverse_prog argv1 argv2 fdRead fdWrite fdWrite' stack results file =
     (if fdRead < 0 \<or> fdWrite < 0 then (''ERROR'', [], - 1)
      else (''reading from: '' @ argv1 @ nl @ ''write to: '' @ argv2 @ count_out results @ nl,
            if fdWrite' < 0 then [] else reverse_main stack results file, 0))"

section \<open>The cursor\<close>

definition cursor_ok :: "int \<Rightarrow> int \<Rightarrow> nano \<Rightarrow> bool" where
  "cursor_ok h w s \<longleftrightarrow> 0 \<le> tickX s \<and> tickX s < mainHeight h \<and> 0 \<le> tickY s \<and> tickY s \<le> w - 3"

definition moving :: "key \<Rightarrow> bool" where
  "moving k \<longleftrightarrow> k \<in> {KEY_DOWN, KEY_UP, KEY_LEFT, KEY_RIGHT, KEY_BACKSPACE}"

lemma win_simps [simp]:
  "tickX (win cs s) = tickX s" "tickY (win cs s) = tickY s" "isInterrupted (win cs s) = isInterrupted s"
  "tickX (hint cs s) = tickX s" "tickY (hint cs s) = tickY s" "isInterrupted (hint cs s) = isInterrupted s"
  "na_hint (win cs s) = na_hint s" "na_hint (hint cs s) = na_hint s @ cs"
  by (simp_all add: win_def hint_def)

lemma moving_step:
  "moving k \<Longrightarrow> cursor_ok h w s \<Longrightarrow> \<exists>t. key_step h w k s = Some t \<and> cursor_ok h w t"
  by (cases k) (auto simp: moving_def key_step_def key_switch_def cursor_ok_def Let_def)

lemma moving_loop:
  "list_all moving ks \<Longrightarrow> cursor_ok h w s \<Longrightarrow> \<exists>t. key_loop h w ks s = Some t \<and> cursor_ok h w t"
proof (induction ks arbitrary: s)
  case (Cons k ks)
  then obtain t where "key_step h w k s = Some t" "cursor_ok h w t" using moving_step by fastforce
  with Cons show ?case by auto
qed auto

lemma newlines_loop:
  "\<not> isInterrupted s \<Longrightarrow>
   \<exists>t. key_loop h w (replicate n Newline) s = Some t \<and> tickX t = tickX s + int n"
proof (induction n arbitrary: s)
  case (Suc n)
  obtain t where t: "key_step h w Newline s = Some t" "tickX t = tickX s + 1" "\<not> isInterrupted t"
    using Suc.prems by (simp add: key_step_def key_switch_def Let_def)
  with Suc.IH [OF t(3)] Suc.prems show ?case by auto
qed simp

lemma symbols_loop:
  "\<not> isInterrupted s \<Longrightarrow>
   \<exists>t. key_loop h w (map Symbol cs) s = Some t \<and> tickX t = tickX s \<and> tickY t = tickY s + int (length cs)
     \<and> \<not> isInterrupted t"
proof (induction cs arbitrary: s)
  case (Cons c cs)
  obtain t where t: "key_step h w (Symbol c) s = Some t" "tickX t = tickX s" "tickY t = tickY s + 1"
    "\<not> isInterrupted t"
    using Cons.prems by (simp add: key_step_def key_switch_def Let_def)
  with Cons.IH [OF t(4)] Cons.prems show ?case by auto
qed simp

lemma right_loop:
  "\<not> isInterrupted s \<Longrightarrow> w - 3 < tickY s \<Longrightarrow>
   \<exists>t. key_loop h w (replicate n KEY_RIGHT) s = Some t \<and> tickY t = tickY s + int n"
proof (induction n arbitrary: s)
  case (Suc n)
  obtain t where t: "key_step h w KEY_RIGHT s = Some t" "tickY t = tickY s + 1" "\<not> isInterrupted t"
    using Suc.prems by (simp add: key_step_def key_switch_def)
  with Suc.IH [OF t(3)] Suc.prems show ?case by auto
qed simp

text \<open>C37: the cursor of the editor. The arrow keys and backspace keep it inside the text window,
  in any sequence. Newlines and text do not: after \<open>n\<close> newlines it is on line \<open>n\<close>, however
  high the window is, and once the text has run past the right edge, the test for the edge, an
  equality, no longer stops \<open>KEY_RIGHT\<close>.\<close>

theorem cursor_bounds:
  assumes "cursor_ok h w s" and "\<not> isInterrupted s"
  shows "(list_all moving ks \<longrightarrow> (\<exists>t. key_loop h w ks s = Some t \<and> cursor_ok h w t))
    \<and> (\<exists>t. key_loop h w (replicate n Newline) s = Some t \<and> tickX t = tickX s + int n)
    \<and> (int (length cs) > w - 3 \<longrightarrow>
        (\<exists>t. key_loop h w (map Symbol cs @ replicate n KEY_RIGHT) s = Some t
          \<and> tickY t = tickY s + int (length cs) + int n))"
proof -
  have append: "key_loop h w (as @ bs) s = Option.bind (key_loop h w as s) (key_loop h w bs)"
    for as bs and s :: nano
  proof (induction as arbitrary: s)
    case (Cons a as)
    then show ?case by (cases bs) (auto split: option.splits)
  qed simp
  have "\<exists>t. key_loop h w (map Symbol cs @ replicate n KEY_RIGHT) s = Some t
      \<and> tickY t = tickY s + int (length cs) + int n" if "int (length cs) > w - 3"
  proof -
    obtain t where t: "key_loop h w (map Symbol cs) s = Some t"
      "tickY t = tickY s + int (length cs)" "\<not> isInterrupted t"
      using symbols_loop [OF assms(2)] by blast
    with that assms(1) have "w - 3 < tickY t" by (simp add: cursor_ok_def)
    from right_loop [OF t(3) this, of h n] t show ?thesis by (auto simp: append)
  qed
  with moving_loop [of ks h w s] newlines_loop [OF assms(2), of h w n] assms(1) show ?thesis by blast
qed

theorem cursor_bounds_witness:
  "cursor_ok 24 80 \<lparr>tickX = 0, tickY = 0, isInterrupted = False, na_win = [], na_hint = [], na_files = []\<rparr> \<and>
   (\<exists>t. key_loop 24 80 (replicate 100 Newline)
      \<lparr>tickX = 0, tickY = 0, isInterrupted = False, na_win = [], na_hint = [], na_files = []\<rparr> = Some t \<and> tickX t = 100)"
proof -
  let ?s = "\<lparr>tickX = 0, tickY = 0, isInterrupted = False, na_win = [], na_hint = [], na_files = []\<rparr>"
  have ok: "cursor_ok 24 80 ?s" "\<not> isInterrupted ?s"
    by (simp_all add: cursor_ok_def mainHeight_def HINT_WINDOW_HEIGHT_def)
  from cursor_bounds [OF ok, of "[]" 100 "[]"] ok show ?thesis by auto
qed

section \<open>Files\<close>

fun well_read :: "read_result list \<Rightarrow> bool" where
  "well_read (Bytes b # rs) \<longleftrightarrow> b \<noteq> [] \<and> length b \<le> 13 \<and> well_read rs"
| "well_read (Failed # rs) \<longleftrightarrow> False"
| "well_read _ \<longleftrightarrow> True"

lemma winRead_text:
  "well_read rs \<Longrightarrow> NUL \<notin> set (delivered rs) \<Longrightarrow> winRead rs = Some (delivered rs)"
proof (induction rs rule: winRead.induct)
  case (4 b rs)
  then have "cstr (b @ [NUL]) = b" using cstr_append_NUL [of b "[]"] by simp
  with 4 show ?case by simp
qed simp_all

lemma count_loop_total:
  "well_read rs \<Longrightarrow> count_loop rs k = k + int (length (delivered rs))"
  by (induction rs k rule: count_loop.induct) auto

lemma write_back_suffix:
  assumes "j \<le> length file" and "sz = int (length file)" and "pos \<le> length file"
  shows "write_back file sz (int j + 1) pos out = out @ rev (take (length file - j) file)"
  using assms
proof (induction "length file - j" arbitrary: j pos out)
  case 0
  then show ?case by (subst write_back.simps) simp
next
  case (Suc k)
  then have j: "j < length file" by simp
  have pos: "nat (int (length file) - (int j + 1)) = length file - Suc j" by simp
  have step: "write_back file sz (int j + 1) pos out =
      write_back file sz (int (Suc j) + 1) (length file - Suc j + 1) (out @ [file ! (length file - Suc j)])"
  proof -
    have c: "int j + 1 \<le> sz" "\<not> int (length file) - (int j + 1) < 0" "\<not> length file \<le> length file - Suc j"
      "int j + 1 + 1 = int (Suc j) + 1"
      using j Suc.prems(2) by simp_all
    show ?thesis
      by (subst write_back.simps) (simp only: Let_def c pos if_True if_False)
  qed
  have "take (length file - j) file = take (length file - Suc j) file @ [file ! (length file - Suc j)]"
    using j by (metis Suc_diff_Suc diff_less take_Suc_conv_app_nth zero_less_Suc length_greater_0_conv list.size(3) not_less0)
  moreover have "k = length file - Suc j" "Suc j \<le> length file" "length file - Suc j + 1 \<le> length file"
    using Suc.hyps(2) j by simp_all
  ultimately show ?case
    unfolding step using Suc.hyps(1) [OF \<open>k = length file - Suc j\<close>] Suc.prems(2) by simp
qed

text \<open>Reading and reversing files. \<open>winRead\<close> shows a file without terminators whole, in
  whatever pieces it is read, and writes before its buffer when reading fails. \<open>reverse.c\<close>
  writes the bytes of the file backwards, provided that its uninitialised \<open>size\<close> was zero.\<close>

theorem files_read:
  assumes "well_read rs" and "NUL \<notin> set (delivered rs)"
  shows "winRead rs = Some (delivered rs)
    \<and> (list_all (\<lambda>r. \<exists>b. r = Bytes b) rs \<longrightarrow> winRead (rs @ Failed # rest) = None)
    \<and> reverse_main 0 rs (delivered rs) = rev (delivered rs)"
proof -
  have "list_all (\<lambda>r. \<exists>b. r = Bytes b) rs \<Longrightarrow> winRead (rs @ Failed # rest) = None"
    by (induction rs) auto
  moreover have "reverse_main 0 rs (delivered rs) = rev (delivered rs)"
    using write_back_suffix [of 0 "delivered rs"] count_loop_total [OF assms(1), of 0]
    by (simp add: reverse_main_def)
  ultimately show ?thesis using winRead_text [OF assms] by blast
qed

theorem files_read_witness:
  "well_read [Bytes ''ab'', Bytes ''c''] \<and> reverse_main 0 [Bytes ''ab'', Bytes ''c''] ''abc'' = ''cba''"
  using files_read [of "[Bytes ''ab'', Bytes ''c'']"] by (simp add: NUL_def)

section \<open>The hint window\<close>

text \<open>What has been printed in a window since it was cleared last.\<close>

fun printed_text :: "win_call list \<Rightarrow> string" where
  "printed_text [] = []"
| "printed_text (PrintText w # cs) = (if Clear \<in> set cs then printed_text cs else w @ printed_text cs)"
| "printed_text (_ # cs) = printed_text cs"

text \<open>What a key has to say, below the line of keys.\<close>

fun message :: "key \<Rightarrow> string option" where
  "message (OpenFile name fd rs) =
     Some (''File to open: '' @ ''Reading '' @ name @ '' '' @ (if fd < 0 then ''FAILED'' else ''SUCCEEDED''))"
| "message (SaveFile name fd row) =
     Some (''Save as: '' @ (if fd < 0 then '' Error while creating file '' @ name else ''File '' @ name @ '' created successfully''))"
| "message k = None"

definition keys_line :: string where
  "keys_line = ''ctrl+W Open'' @ nl @ ''ctrl+E Save'' @ nl @ ''ctrl+R Exit'' @ nl"

definition last_message :: "key list \<Rightarrow> string" where
  "last_message ks = (case rev (List.map_filter message ks) of [] \<Rightarrow> [] | m # _ \<Rightarrow> m)"

lemma printed_append: "printed_text (cs @ ds) = (if Clear \<in> set ds then printed_text ds else printed_text cs @ printed_text ds)"
  by (induction cs rule: printed_text.induct) auto

lemma hint_step:
  assumes "key_step h w k s = Some t"
  shows "printed_text (na_hint t) = (case message k of None \<Rightarrow> printed_text (na_hint s) | Some m \<Rightarrow> keys_line @ m)"
  using assms
  by (cases k) (auto simp: key_step_def key_switch_def Let_def printed_append clearHint_def keys_line_def split: if_splits)

lemma hint_loop:
  "key_loop h w ks s = Some t \<Longrightarrow> (\<forall>k \<in> set ks. k \<noteq> ExitKey) \<Longrightarrow> \<not> isInterrupted s \<Longrightarrow>
   printed_text (na_hint t) = (case rev (List.map_filter message ks) of [] \<Rightarrow> printed_text (na_hint s) | m # _ \<Rightarrow> keys_line @ m)"
proof (induction ks arbitrary: s)
  case (Cons k ks)
  from Cons.prems obtain u where u: "key_step h w k s = Some u" "key_loop h w ks u = Some t"
    by (auto split: option.splits)
  have "\<not> isInterrupted u"
    using u(1) Cons.prems by (cases k) (auto simp: key_step_def key_switch_def Let_def split: if_splits)
  then have "printed_text (na_hint t) =
      (case rev (List.map_filter message ks) of [] \<Rightarrow> printed_text (na_hint u) | m # _ \<Rightarrow> keys_line @ m)"
    using Cons.IH [OF u(2)] Cons.prems(2) by simp
  then show ?case
    using hint_step [OF u(1)] by (auto simp: List.map_filter_simps split: option.splits list.splits)
qed (simp add: List.map_filter_simps)

text \<open>The hint window always shows the keys and, below them, what became of the last file opened or saved.\<close>

theorem hint_shows_last:
  assumes "nano_main argc h w argfile ks = Some t" and "\<forall>k \<in> set ks. k \<noteq> ExitKey"
  shows "printed_text (na_hint t) = keys_line @ last_message ks"
proof -
  obtain s where s: "key_loop h w ks s = Some t" "\<not> isInterrupted s" "printed_text (na_hint s) = keys_line"
    using assms(1)
    by (auto simp: nano_main_def Let_def bind_eq_Some_conv clearHint_def keys_line_def win_def split: if_splits)
  show ?thesis
    using hint_loop [OF s(1) assms(2) s(2)] s(3) by (simp add: last_message_def split: list.splits)
qed

end
