(* ===== verification/MC.thy ===== *)
theory MC
  imports CLib
begin

text \<open>
  \<open>les11_my_mc\<close>: the file manager with two windows. The state is the working directory of the
  process, the listing and the path of each window, the selected line and what the windows show.
  The file system is a parameter: \<open>world\<close> says how paths resolve, what \<open>scandir\<close> lists and
  which sizes \<open>stat\<close> gives, and each key comes with the world of its moment. Copying runs beside
  the thread of the progress bar; the two are a step relation of their own, and what it shows,
  whether copying returns, is used by the step of the main loop.
\<close>

section \<open>Sorting\<close>

datatype file_type = DT_DIR | DT_REG | DT_LNK | DT_UNKNOWN

record dirent =
  d_name :: string
  d_type :: file_type

fun strcmp :: "string \<Rightarrow> string \<Rightarrow> int" where
  "strcmp [] [] = 0"
| "strcmp [] (d # ds) = - of_char d"
| "strcmp (c # cs) [] = of_char c"
| "strcmp (c # cs) (d # ds) = (if c = d then strcmp cs ds else of_char c - of_char d)"

definition goodSort :: "dirent \<Rightarrow> dirent \<Rightarrow> int" where
  "goodSort a b =
     (if d_type a = DT_DIR \<and> d_type b = DT_DIR then strcmp (d_name a) (d_name b)
      else if d_type a = DT_DIR then -1
      else if d_type b = DT_DIR then 1
      else 0)"

section \<open>The world\<close>

text \<open>
  \<open>realpath c n\<close> resolves \<open>n\<close> in the directory \<open>c\<close>; \<open>chdir c p\<close> is the directory entered, \<open>None\<close>
  when that fails; \<open>scandir c p\<close> is the sorted listing of \<open>p\<close>; \<open>st_size c n\<close> is what \<open>stat\<close>
  gives for the resolved path, 0 when it fails.
\<close>

record world =
  realpath :: "string \<Rightarrow> string \<Rightarrow> string option"
  chdir :: "string \<Rightarrow> string \<Rightarrow> string option"
  scandir :: "string \<Rightarrow> string \<Rightarrow> dirent list option"
  st_size :: "string \<Rightarrow> string \<Rightarrow> int"

text \<open>Resolving into a buffer of \<open>n\<close> bytes; its contents are undefined when that fails.\<close>

definition realpath_into :: "nat \<Rightarrow> world \<Rightarrow> string \<Rightarrow> string \<Rightarrow> string option" where
  "realpath_into n w c name =
     Option.bind (realpath w c name) (\<lambda>p. if length p < n then Some p else None)"

definition chdir_to :: "world \<Rightarrow> string \<Rightarrow> string \<Rightarrow> string" where
  "chdir_to w c p = (case chdir w c p of None \<Rightarrow> c | Some d \<Rightarrow> d)"

text \<open>A failing \<open>scandir\<close> returns -1 and leaves the pointer to the listing as it was: dangling.\<close>

definition scandir_at :: "world \<Rightarrow> string \<Rightarrow> string \<Rightarrow> dirent list option \<times> int" where
  "scandir_at w c p = (case scandir w c p of None \<Rightarrow> (None, -1) | Some d \<Rightarrow> (Some d, int (length d)))"

definition entry_at :: "dirent list option \<Rightarrow> int \<Rightarrow> dirent option" where
  "entry_at dir i =
     (case dir of None \<Rightarrow> None
      | Some d \<Rightarrow> if 0 \<le> i \<and> i < int (length d) then Some (d ! nat i) else None)"

text \<open>\<open>memFree\<close>: undefined on a dangling pointer and beyond the entries.\<close>

definition memFree :: "dirent list option \<Rightarrow> int \<Rightarrow> unit option" where
  "memFree var n =
     (case var of None \<Rightarrow> None | Some d \<Rightarrow> if n \<le> int (length d) then Some () else None)"

section \<open>Showing a listing\<close>

text \<open>A line of a window, with whether it stands out, and the text printed for empty files.\<close>

datatype shown = Line bool string | MarkText string

definition entry_text :: "world \<Rightarrow> string \<Rightarrow> dirent \<Rightarrow> string option" where
  "entry_text w c e =
     (if d_type e = DT_DIR then Some (d_name e)
      else if (case realpath w c (d_name e) of None \<Rightarrow> False | Some p \<Rightarrow> 250 \<le> length p) then None
      else Some (d_name e @ '' <'' @ dec (sint (word_of_int (st_size w c (d_name e)) :: i32)) @ ''>''))"

definition marks :: "world \<Rightarrow> string \<Rightarrow> dirent \<Rightarrow> int \<Rightarrow> shown list" where
  "marks w c e i =
     (if d_type e \<noteq> DT_DIR \<and> st_size w c (d_name e) = 0
      then [MarkText (''mark '' @ d_name e @ '' ['' @ dec i @ '']'' @ nl)] else [])"

text \<open>The loops of \<open>redraw\<close> from \<open>i\<close> up to \<open>n\<close>: before the selected line (\<open>marking\<close>) and after it.\<close>

function redraw_loop :: "bool \<Rightarrow> world \<Rightarrow> string \<Rightarrow> dirent list option \<Rightarrow> int \<Rightarrow> int \<Rightarrow> shown list option" where
  "redraw_loop marking w c dir i n =
     (if i < n then do {
        e \<leftarrow> entry_at dir i;
        l \<leftarrow> entry_text w c e;
        rest \<leftarrow> redraw_loop marking w c dir (i + 1) n;
        Some ((if marking then marks w c e i else []) @ Line False l # rest)
      } else Some [])"
  by pat_completeness auto
termination by (relation "measure (\<lambda>(m, w, c, d, i, n). nat (n - i))") auto

declare redraw_loop.simps [simp del]

definition redraw :: "world \<Rightarrow> string \<Rightarrow> dirent list option \<Rightarrow> int \<Rightarrow> int \<Rightarrow> shown list option" where
  "redraw w c dir sz selected = do {
     before \<leftarrow> redraw_loop True w c dir 0 (min sz selected);
     rest \<leftarrow>
       (if selected < sz then do {
          e \<leftarrow> entry_at dir selected;
          l \<leftarrow> entry_text w c e;
          after \<leftarrow> redraw_loop False w c dir (selected + 1) sz;
          Some (Line True l # after)
        } else Some []);
     Some (before @ rest)
   }"

section \<open>Copying\<close>

text \<open>
  The reading loop of \<open>copy\<close>: the bytes written and \<open>progressNow\<close>. A failed \<open>read\<close> gives -1,
  which is added too; writing -1 bytes writes nothing.
\<close>

fun copy_loop :: "read_result list \<Rightarrow> string \<Rightarrow> int \<Rightarrow> string \<times> int" where
  "copy_loop [] out progressNow = (out, progressNow)"
| "copy_loop (Eof # rs) out progressNow = (out, progressNow)"
| "copy_loop (Failed # rs) out progressNow = (out, progressNow - 1)"
| "copy_loop (Bytes b # rs) out progressNow = copy_loop rs (out @ b) (progressNow + int (length b))"

text \<open>The target is opened without \<open>O_TRUNC\<close>: what it held behind the bytes written stays.\<close>

definition overwrite :: "string \<Rightarrow> string \<Rightarrow> string" where
  "overwrite old new = new @ drop (length new) old"

text \<open>
  The main thread in \<open>copy\<close> and \<open>drawProgressWindow\<close>, after it has set \<open>progressMax\<close> and given the
  signal: in the reading loop with what is still to be read, about to destroy the condition
  variable, in the loop that waits for \<open>progressMax\<close>, behind it, or undefined (the variable
  was destroyed while a thread waited for it). The thread of \<open>progressUpdate\<close>: waiting for the
  signal, woken, in its loop, between its resets, or on its way back to waiting.
\<close>

datatype copier = Reading "read_result list" | Destroy | Spin | Returned | Undefined
datatype updater = CondWait | Woken | Drawing | ResetNow | ResetMax | Back | Gone

record copying =
  cp_main :: copier
  cp_updater :: updater
  progressMax :: int
  progressNow :: int
  isExit :: bool
  cp_out :: string

definition cond_signal :: "updater \<Rightarrow> updater" where
  "cond_signal u = (if u = CondWait then Woken else u)"

definition copy_start :: "int \<Rightarrow> read_result list \<Rightarrow> updater \<Rightarrow> int \<Rightarrow> copying" where
  "copy_start sz results u now =
     \<lparr>cp_main = Reading results, cp_updater = cond_signal u, progressMax = sz, progressNow = now,
      isExit = False, cp_out = []\<rparr>"

definition copier_step :: "copying \<Rightarrow> copying" where
  "copier_step s =
     (case cp_main s of
        Reading (Bytes b # rs) \<Rightarrow>
          s\<lparr>cp_main := Reading rs, cp_out := cp_out s @ b, progressNow := progressNow s + int (length b)\<rparr>
      | Reading (Failed # rs) \<Rightarrow> s\<lparr>cp_main := Destroy, progressNow := progressNow s - 1\<rparr>
      | Reading (Eof # rs) \<Rightarrow> s\<lparr>cp_main := Destroy\<rparr>
      | Reading [] \<Rightarrow> s\<lparr>cp_main := Destroy\<rparr>
      | Destroy \<Rightarrow> s\<lparr>cp_main := (if cp_updater s = CondWait then Undefined else Spin)\<rparr>
      | Spin \<Rightarrow> (if progressMax s > 0 then s else s\<lparr>cp_main := Returned\<rparr>)
      | Returned \<Rightarrow> s
      | Undefined \<Rightarrow> s)"

definition updater_step :: "copying \<Rightarrow> copying" where
  "updater_step s =
     (case cp_updater s of
        CondWait \<Rightarrow> s
      | Woken \<Rightarrow> s\<lparr>cp_updater := (if isExit s then Gone else Drawing)\<rparr>
      | Drawing \<Rightarrow> (if progressNow s < progressMax s then s else s\<lparr>cp_updater := ResetMax\<rparr>)
      | ResetMax \<Rightarrow> s\<lparr>progressMax := 0, cp_updater := ResetNow\<rparr>
      | ResetNow \<Rightarrow> s\<lparr>progressNow := 0, cp_updater := Back\<rparr>
      | Back \<Rightarrow> s\<lparr>cp_updater := CondWait\<rparr>
      | Gone \<Rightarrow> s)"

inductive copy_step :: "copying \<Rightarrow> copying \<Rightarrow> bool" where
  copy_main: "copy_step s (copier_step s)"
| copy_updater: "copy_step s (updater_step s)"

text \<open>Whether \<open>drawProgressWindow\<close> returns, when the thread was waiting (\<open>awake\<close>) or not.\<close>

definition copy_returns :: "bool \<Rightarrow> int \<Rightarrow> read_result list \<Rightarrow> bool" where
  "copy_returns awake sz results \<longleftrightarrow> sz \<le> 0 \<or> awake \<and> sz \<le> int (length (delivered results))"

section \<open>The main loop\<close>

definition LEFT_WINDOW :: bool where "LEFT_WINDOW = False"
definition RIGHT_WINDOW :: bool where "RIGHT_WINDOW = True"

record mc =
  cwd :: string
  leftDir :: "dirent list option"
  rightDir :: "dirent list option"
  lDirSize :: int
  rDirSize :: int
  leftDirPath :: string
  rightDirPath :: string
  selectedPosition :: int
  currentWindowType :: bool
  isInterrupted :: bool
  mc_ran :: "string list"
  mc_copied :: "(string \<times> string \<times> string) list"
  mc_hangs :: bool
  leftData :: "shown list"
  rightData :: "shown list"

text \<open>
  The keys. Copying comes with the state of the progress thread, the size \<open>stat\<close> gives, the
  results of \<open>read\<close>, and what the target holds (\<open>None\<close> when it cannot be opened for writing).
  Leaving comes with the state of the thread.
\<close>

datatype keypress =
    Enter
  | Tab
  | KEY_DOWN
  | KEY_UP
  | F5 bool int "read_result list" "string option"
  | CtrlX bool
  | OtherKey

definition isDirSelected ::
  "bool \<Rightarrow> dirent list option \<Rightarrow> dirent list option \<Rightarrow> int \<Rightarrow> bool option" where
  "isDirSelected window rDir lDir selectedPos =
     (if window = LEFT_WINDOW
      then map_option (\<lambda>e. d_type e = DT_DIR) (entry_at lDir selectedPos)
      else map_option (\<lambda>e. d_type e = DT_DIR) (entry_at rDir selectedPos))"

definition redraw_left :: "world \<Rightarrow> int \<Rightarrow> mc \<Rightarrow> mc option" where
  "redraw_left w selected s =
     map_option (\<lambda>ls. s\<lparr>leftData := ls\<rparr>) (redraw w (cwd s) (leftDir s) (lDirSize s) selected)"

definition redraw_right :: "world \<Rightarrow> int \<Rightarrow> mc \<Rightarrow> mc option" where
  "redraw_right w selected s =
     map_option (\<lambda>ls. s\<lparr>rightData := ls\<rparr>) (redraw w (cwd s) (rightDir s) (rDirSize s) selected)"

text \<open>\<open>memFree\<close> of a window's listing and \<open>scandir\<close> of \<open>path\<close> into it.\<close>

definition relist_left :: "world \<Rightarrow> string \<Rightarrow> mc \<Rightarrow> mc option" where
  "relist_left w path s = do {
     memFree (leftDir s) (lDirSize s);
     let (d, n) = scandir_at w (cwd s) path;
     Some (s\<lparr>leftDir := d, lDirSize := n\<rparr>)
   }"

definition relist_right :: "world \<Rightarrow> string \<Rightarrow> mc \<Rightarrow> mc option" where
  "relist_right w path s = do {
     memFree (rightDir s) (rDirSize s);
     let (d, n) = scandir_at w (cwd s) path;
     Some (s\<lparr>rightDir := d, rDirSize := n\<rparr>)
   }"

text \<open>The case of the newline: a file is run, a directory entered.\<close>

definition press_enter :: "world \<Rightarrow> mc \<Rightarrow> mc option" where
  "press_enter w s = do {
     dir \<leftarrow> isDirSelected (currentWindowType s) (rightDir s) (leftDir s) (selectedPosition s);
     e \<leftarrow> entry_at (if currentWindowType s = LEFT_WINDOW then leftDir s else rightDir s)
       (selectedPosition s);
     if \<not> dir then do {
       p \<leftarrow> realpath_into 999 w (cwd s) (d_name e);
       Some (s\<lparr>mc_ran := mc_ran s @ [p]\<rparr>)
     } else do {
       p \<leftarrow> realpath_into 250 w (cwd s) (d_name e);
       s \<leftarrow>
         (if currentWindowType s = LEFT_WINDOW
          then relist_left w ''.'' (s\<lparr>leftDirPath := p, cwd := chdir_to w (cwd s) p\<rparr>)
          else relist_right w ''.'' (s\<lparr>rightDirPath := p, cwd := chdir_to w (cwd s) p\<rparr>));
       Some (s\<lparr>selectedPosition := 0\<rparr>)
     }
   }"

definition press_tab :: "world \<Rightarrow> mc \<Rightarrow> mc option" where
  "press_tab w s =
     (let s = s\<lparr>selectedPosition := 0\<rparr> in
      if currentWindowType s = LEFT_WINDOW then do {
        s \<leftarrow> relist_left w (leftDirPath s) (s\<lparr>currentWindowType := RIGHT_WINDOW\<rparr>);
        s \<leftarrow> redraw_left w (lDirSize s) s;
        Some (s\<lparr>cwd := chdir_to w (cwd s) (rightDirPath s)\<rparr>)
      } else do {
        s \<leftarrow> relist_right w (rightDirPath s) (s\<lparr>currentWindowType := LEFT_WINDOW\<rparr>);
        s \<leftarrow> redraw_right w (rDirSize s) s;
        Some (s\<lparr>cwd := chdir_to w (cwd s) (leftDirPath s)\<rparr>)
      })"

definition press_down :: "mc \<Rightarrow> mc" where
  "press_down s =
     (if currentWindowType s = LEFT_WINDOW \<and> selectedPosition s = lDirSize s - 1 then s
      else if currentWindowType s = RIGHT_WINDOW \<and> selectedPosition s = rDirSize s - 1 then s
      else s\<lparr>selectedPosition := selectedPosition s + 1\<rparr>)"

definition press_up :: "mc \<Rightarrow> mc" where
  "press_up s =
     (if selectedPosition s = 0 then s else s\<lparr>selectedPosition := selectedPosition s - 1\<rparr>)"

text \<open>\<open>drawProgressWindow(which, where)\<close>: the working directory is \<open>where\<close> when the target is opened.\<close>

definition drawProgressWindow ::
  "world \<Rightarrow> string \<Rightarrow> string \<Rightarrow> bool \<Rightarrow> int \<Rightarrow> read_result list \<Rightarrow> string option \<Rightarrow> mc \<Rightarrow> mc" where
  "drawProgressWindow w which where_to awake sz results target s =
     (let c = chdir_to w (cwd s) where_to;
          new = (case target of None \<Rightarrow> []
                 | Some old \<Rightarrow> [(c, which, overwrite old (fst (copy_loop results [] 0)))])
      in s\<lparr>cwd := c, mc_copied := mc_copied s @ new, mc_hangs := \<not> copy_returns awake sz results\<rparr>)"

definition press_f5 ::
  "world \<Rightarrow> bool \<Rightarrow> int \<Rightarrow> read_result list \<Rightarrow> string option \<Rightarrow> mc \<Rightarrow> mc option" where
  "press_f5 w awake sz results target s =
     (if currentWindowType s = LEFT_WINDOW then do {
        e \<leftarrow> entry_at (leftDir s) (selectedPosition s);
        let s = drawProgressWindow w (d_name e) (rightDirPath s) awake sz results target s;
        if mc_hangs s then Some s else do {
          s \<leftarrow> relist_right w (rightDirPath s) (s\<lparr>cwd := chdir_to w (cwd s) (leftDirPath s)\<rparr>);
          s \<leftarrow> redraw_right w (rDirSize s) s;
          redraw_left w (selectedPosition s) s
        }
      } else do {
        e \<leftarrow> entry_at (rightDir s) (selectedPosition s);
        let s = drawProgressWindow w (d_name e) (leftDirPath s) awake sz results target s;
        if mc_hangs s then Some s else do {
          s \<leftarrow> relist_left w (leftDirPath s) (s\<lparr>cwd := chdir_to w (cwd s) (rightDirPath s)\<rparr>);
          s \<leftarrow> redraw_left w (lDirSize s) s;
          redraw_right w (selectedPosition s) s
        }
      })"

text \<open>One turn of the loop: the current window is drawn, then a key is handled. Leaving joins the
  thread, which must have been waiting for the broadcast.\<close>

definition mc_step :: "world \<Rightarrow> keypress \<Rightarrow> mc \<Rightarrow> mc option" where
  "mc_step w k s = do {
     s \<leftarrow> (if currentWindowType s = LEFT_WINDOW then redraw_left w (selectedPosition s) s
           else redraw_right w (selectedPosition s) s);
     (case k of
        Enter \<Rightarrow> press_enter w s
      | Tab \<Rightarrow> press_tab w s
      | KEY_DOWN \<Rightarrow> Some (press_down s)
      | KEY_UP \<Rightarrow> Some (press_up s)
      | F5 awake sz results target \<Rightarrow> press_f5 w awake sz results target s
      | CtrlX awake \<Rightarrow> Some (s\<lparr>isInterrupted := True, mc_hangs := \<not> awake\<rparr>)
      | OtherKey \<Rightarrow> Some s)
   }"

text \<open>\<open>main\<close> up to the loop, the loop, and what is freed behind it.\<close>

definition mc_start :: "world \<Rightarrow> string \<Rightarrow> mc option" where
  "mc_start w c = do {
     let (r, rn) = scandir_at w c ''.'';
     let (l, ln) = scandir_at w c ''.'';
     el \<leftarrow> entry_at l 0;
     lp \<leftarrow> realpath_into 250 w c (d_name el);
     er \<leftarrow> entry_at r 0;
     rp \<leftarrow> realpath_into 250 w c (d_name er);
     let s = \<lparr>cwd = c, leftDir = l, rightDir = r, lDirSize = ln, rDirSize = rn, leftDirPath = lp,
        rightDirPath = rp, selectedPosition = 0, currentWindowType = LEFT_WINDOW, isInterrupted = False,
        mc_ran = [], mc_copied = [], mc_hangs = False, leftData = [], rightData = []\<rparr>;
     s \<leftarrow> redraw_right w (rDirSize s) s;
     redraw_left w (selectedPosition s) s
   }"

fun mc_loop :: "(world \<times> keypress) list \<Rightarrow> mc \<Rightarrow> mc option" where
  "mc_loop [] s = Some s"
| "mc_loop ((w, k) # ks) s =
     (if isInterrupted s \<or> mc_hangs s then Some s
      else case mc_step w k s of None \<Rightarrow> None | Some t \<Rightarrow> mc_loop ks t)"

definition mc_main :: "world \<Rightarrow> string \<Rightarrow> (world \<times> keypress) list \<Rightarrow> mc option" where
  "mc_main w c ks = do {
     s \<leftarrow> mc_start w c;
     s \<leftarrow> mc_loop ks s;
     if isInterrupted s \<and> \<not> mc_hangs s then do {
       memFree (rightDir s) (rDirSize s);
       memFree (leftDir s) (lDirSize s);
       Some (s\<lparr>leftDir := None, rightDir := None\<rparr>)
     } else Some s
   }"

section \<open>The order of a listing\<close>

lemma strcmp_refl [simp]: "strcmp a a = 0"
  by (induction a) simp_all

lemma strcmp_swap: "strcmp b a = - strcmp a b"
  by (induction a b rule: strcmp.induct) auto

lemma of_char_nonneg: "0 \<le> (of_char c :: int)"
  using of_nat_of_char [of c, where 'a = int] by (metis of_nat_0_le_iff)

lemma of_char_pos: "c \<noteq> NUL \<Longrightarrow> 0 < (of_char c :: int)"
proof -
  assume "c \<noteq> NUL"
  then have "(of_char c :: int) \<noteq> of_char NUL" by (simp only: of_char_eq_iff) simp
  then show ?thesis using of_char_nonneg [of c] by (simp add: NUL_def)
qed

lemma of_char_int_eq: "(of_char c :: int) = of_char d \<longleftrightarrow> c = d"
  by (rule of_char_eq_iff)

lemma strcmp_trans:
  "strcmp a b \<le> 0 \<Longrightarrow> strcmp b c \<le> 0 \<Longrightarrow> NUL \<notin> set a \<Longrightarrow> NUL \<notin> set b \<Longrightarrow> NUL \<notin> set c \<Longrightarrow>
   strcmp a c \<le> 0"
proof (induction a b arbitrary: c rule: strcmp.induct)
  case (1 c)
  then show ?case by simp
next
  case (2 d ds c)
  then show ?case using of_char_nonneg by (cases c) simp_all
next
  case (3 x xs c)
  then show ?case using of_char_pos [of x] by auto
next
  case (4 x xs y ys c)
  show ?case
  proof (cases c)
    case Nil
    with 4(3,5) show ?thesis using of_char_pos [of y] by (auto simp: )
  next
    case (Cons z zs)
    have "(of_char x :: int) = of_char y \<longleftrightarrow> x = y" "(of_char y :: int) = of_char z \<longleftrightarrow> y = z"
      by (rule of_char_int_eq)+
    with 4 Cons show ?thesis by (auto split: if_splits)
  qed
qed

lemma strcmp_zero: "strcmp a b = 0 \<Longrightarrow> NUL \<notin> set a \<Longrightarrow> NUL \<notin> set b \<Longrightarrow> a = b"
proof (induction a b rule: strcmp.induct)
  case (2 d ds)
  then show ?case using of_char_pos [of d] by auto
next
  case (3 c cs)
  then show ?case using of_char_pos [of c] by auto
next
  case (4 c cs d ds)
  then show ?case using of_char_int_eq [of c d] by (auto split: if_splits)
qed simp

lemma goodSort_swap: "goodSort b a = - goodSort a b"
  using strcmp_swap [of "d_name b" "d_name a"] by (auto simp: goodSort_def)

lemma goodSort_refl [simp]: "goodSort e e = 0"
  by (simp add: goodSort_def)

lemma goodSort_dir:
  "goodSort a b \<le> 0 \<Longrightarrow> d_type b = DT_DIR \<Longrightarrow>
   d_type a = DT_DIR \<and> strcmp (d_name a) (d_name b) \<le> 0"
  by (auto simp: goodSort_def split: if_splits)

lemma directories_first:
  "sorted_wrt (\<lambda>a b. goodSort a b \<le> 0) l \<Longrightarrow>
   \<exists>ds fs. l = ds @ fs \<and> (\<forall>e\<in>set ds. d_type e = DT_DIR) \<and> (\<forall>e\<in>set fs. d_type e \<noteq> DT_DIR)
     \<and> sorted_wrt (\<lambda>a b. strcmp (d_name a) (d_name b) \<le> 0) ds"
proof (induction l)
  case (Cons e l)
  then obtain ds fs where l: "l = ds @ fs" "\<forall>e\<in>set ds. d_type e = DT_DIR"
    "\<forall>e\<in>set fs. d_type e \<noteq> DT_DIR" "sorted_wrt (\<lambda>a b. strcmp (d_name a) (d_name b) \<le> 0) ds"
    by auto
  show ?case
  proof (cases "d_type e = DT_DIR")
    case True
    with Cons.prems l have "sorted_wrt (\<lambda>a b. strcmp (d_name a) (d_name b) \<le> 0) (e # ds)"
      using goodSort_dir by auto
    with True l show ?thesis by (intro exI [of _ "e # ds"] exI [of _ fs]) auto
  next
    case False
    with Cons.prems l have "ds = []" by (cases ds) (auto simp: goodSort_def)
    with False l show ?thesis by (intro exI [of _ "[]"] exI [of _ "e # fs"]) auto
  qed
qed simp

lemma goodSort_trans:
  "goodSort a b \<le> 0 \<Longrightarrow> goodSort b c \<le> 0 \<Longrightarrow>
   \<forall>e\<in>{a, b, c}. NUL \<notin> set (d_name e) \<Longrightarrow> goodSort a c \<le> 0"
  using strcmp_trans [of "d_name a" "d_name b" "d_name c"]
  by (auto simp: goodSort_def split: if_splits)

text \<open>What \<open>scandir\<close> promises of a listing: neighbours are in order.\<close>

fun in_order :: "dirent list \<Rightarrow> bool" where
  "in_order (a # b # es) \<longleftrightarrow> goodSort a b \<le> 0 \<and> in_order (b # es)"
| "in_order _ \<longleftrightarrow> True"

lemma in_order_pairs:
  assumes "in_order l" and "\<forall>e\<in>set l. NUL \<notin> set (d_name e)"
  shows "sorted_wrt (\<lambda>a b. goodSort a b \<le> 0) l"
  using assms
proof (induction l rule: in_order.induct)
  case (1 a b es)
  then have "sorted_wrt (\<lambda>a b. goodSort a b \<le> 0) (b # es)" "goodSort a b \<le> 0" by simp_all
  with 1(3) show ?case using goodSort_trans [of a b] by auto
qed simp_all

text \<open>The order of a listing. \<open>goodSort\<close> is a consistent order for \<open>qsort\<close>, and a listing in
  that order has the directories first and these by name. The first entry, which \<open>main\<close> takes for
  the directory itself, is \<open>.\<close> exactly when no directory has a name before it, such as \<open>-x\<close>.\<close>

theorem goodSort_listing:
  assumes "in_order l" and "\<forall>e\<in>set l. NUL \<notin> set (d_name e)"
    and "dot \<in> set l" and "d_name dot = ''.''" and "d_type dot = DT_DIR"
  shows "(\<forall>a\<in>set l. \<forall>b\<in>set l. goodSort b a = - goodSort a b)
    \<and> (\<forall>a\<in>set l. \<forall>b\<in>set l. \<forall>c\<in>set l. goodSort a b \<le> 0 \<and> goodSort b c \<le> 0 \<longrightarrow> goodSort a c \<le> 0)
    \<and> (\<exists>ds fs. l = ds @ fs \<and> (\<forall>e\<in>set ds. d_type e = DT_DIR) \<and> (\<forall>e\<in>set fs. d_type e \<noteq> DT_DIR)
        \<and> sorted_wrt (\<lambda>a b. strcmp (d_name a) (d_name b) \<le> 0) ds)
    \<and> (d_name (hd l) = ''.'' \<and> d_type (hd l) = DT_DIR \<longleftrightarrow>
         (\<forall>e\<in>set l. d_type e = DT_DIR \<longrightarrow> strcmp ''.'' (d_name e) \<le> 0))"
proof -
  have pairs: "sorted_wrt (\<lambda>a b. goodSort a b \<le> 0) l" by (rule in_order_pairs [OF assms(1,2)])
  have trans: "\<forall>a\<in>set l. \<forall>b\<in>set l. \<forall>c\<in>set l. goodSort a b \<le> 0 \<and> goodSort b c \<le> 0 \<longrightarrow> goodSort a c \<le> 0"
    using goodSort_trans assms(2) by blast
  have first: "goodSort (hd l) e \<le> 0" if "e \<in> set l" for e
    using pairs that by (cases l) auto
  have hd: "hd l \<in> set l" using assms(3) by (cases l) auto
  have "d_name (hd l) = ''.'' \<and> d_type (hd l) = DT_DIR"
    if least: "\<forall>e\<in>set l. d_type e = DT_DIR \<longrightarrow> strcmp ''.'' (d_name e) \<le> 0"
  proof -
    have dir: "d_type (hd l) = DT_DIR" and le: "strcmp (d_name (hd l)) ''.'' \<le> 0"
      using goodSort_dir [OF first [OF assms(3)] assms(5)] assms(4) by simp_all
    with least hd have "strcmp (d_name (hd l)) ''.'' = 0"
      using strcmp_swap [of "''.''" "d_name (hd l)"] by fastforce
    then show ?thesis using dir strcmp_zero [of "d_name (hd l)" "''.''"] assms(2) hd by (simp add: NUL_def)
  qed
  moreover have "\<forall>e\<in>set l. d_type e = DT_DIR \<longrightarrow> strcmp ''.'' (d_name e) \<le> 0"
    if "d_name (hd l) = ''.'' \<and> d_type (hd l) = DT_DIR"
    using goodSort_dir [OF first] that by fastforce
  ultimately show ?thesis
    using trans directories_first [OF pairs] goodSort_swap by blast
qed

theorem goodSort_listing_witness:
  "let l = [\<lparr>d_name = ''-x'', d_type = DT_DIR\<rparr>, \<lparr>d_name = ''.'', d_type = DT_DIR\<rparr>,
            \<lparr>d_name = ''z'', d_type = DT_REG\<rparr>, \<lparr>d_name = ''a'', d_type = DT_REG\<rparr>]
   in in_order l \<and> (\<exists>e\<in>set l. d_type e = DT_DIR \<and> \<not> strcmp ''.'' (d_name e) \<le> 0)"
proof -
  let ?l = "[\<lparr>d_name = ''-x'', d_type = DT_DIR\<rparr>, \<lparr>d_name = ''.'', d_type = DT_DIR\<rparr>,
            \<lparr>d_name = ''z'', d_type = DT_REG\<rparr>, \<lparr>d_name = ''a'', d_type = DT_REG\<rparr>]"
  have ok: "in_order ?l" "\<forall>e\<in>set ?l. NUL \<notin> set (d_name e)"
    by (simp_all add: goodSort_def NUL_def)
  have "\<not> (\<forall>e\<in>set ?l. d_type e = DT_DIR \<longrightarrow> strcmp ''.'' (d_name e) \<le> 0)"
    using goodSort_listing [OF ok, of "\<lparr>d_name = ''.'', d_type = DT_DIR\<rparr>"] by simp
  with ok(1) show ?thesis unfolding Let_def by blast
qed

section \<open>What copying does\<close>

text \<open>
  The states of one copy: the bytes written so far and what is left, and how far the thread of the
  progress bar has come. A thread that missed the signal never looks at \<open>progressMax\<close>.
\<close>

definition copy_inv :: "int \<Rightarrow> read_result list \<Rightarrow> bool \<Rightarrow> copying \<Rightarrow> bool" where
  "copy_inv sz results awake s \<longleftrightarrow>
     \<not> isExit s
     \<and> (case cp_main s of
          Reading rs \<Rightarrow> delivered results = cp_out s @ delivered rs \<and> set rs \<subseteq> set results
        | _ \<Rightarrow> cp_out s = delivered results)
     \<and> (if awake then
          cp_updater s \<noteq> Gone
          \<and> (cp_updater s \<in> {Woken, Drawing, ResetMax} \<longrightarrow> progressMax s = sz)
          \<and> (cp_updater s \<in> {Woken, Drawing} \<longrightarrow> progressNow s \<le> int (length (cp_out s))
               \<and> (Failed \<notin> set results \<longrightarrow> progressNow s = int (length (cp_out s))))
          \<and> (cp_updater s \<in> {ResetMax, ResetNow, Back, CondWait} \<longrightarrow> sz \<le> int (length (cp_out s)))
          \<and> (cp_updater s \<in> {ResetNow, Back, CondWait} \<longrightarrow> progressMax s = 0)
        else cp_updater s \<in> {ResetNow, Back, CondWait} \<and> progressMax s = sz)
     \<and> (cp_main s = Returned \<longrightarrow> sz \<le> 0 \<or> awake \<and> sz \<le> int (length (delivered results)))"

definition copy_starts :: "int \<Rightarrow> read_result list \<Rightarrow> bool \<Rightarrow> copying \<Rightarrow> bool" where
  "copy_starts sz results awake s \<longleftrightarrow>
     (\<exists>u now. s = copy_start sz results u now \<and> u \<in> {CondWait, Back, ResetNow}
        \<and> awake = (u = CondWait) \<and> (u = CondWait \<longrightarrow> now = 0))"

lemma delivered_prefix: "delivered results = out @ delivered rs \<Longrightarrow> length out \<le> length (delivered results)"
  by simp

lemma copier_inv:
  assumes "copy_inv sz results awake s"
  shows "copy_inv sz results awake (copier_step s)"
proof (cases "cp_main s")
  case (Reading rs)
  show ?thesis
  proof (cases rs)
    case (Cons r rs')
    with assms Reading show ?thesis
      by (cases r; cases awake; cases "cp_updater s") (simp_all add: copy_inv_def copier_step_def)
  qed (use assms Reading in \<open>cases awake; cases "cp_updater s"; simp add: copy_inv_def copier_step_def\<close>)
next
  case Destroy
  with assms show ?thesis
    by (cases awake; cases "cp_updater s"; simp add: copy_inv_def copier_step_def)
next
  case Spin
  with assms show ?thesis by (cases awake; cases "cp_updater s") (simp_all add: copy_inv_def copier_step_def)
qed (use assms in \<open>(cases awake; cases "cp_updater s"; simp add: copy_inv_def copier_step_def)+\<close>)

lemma updater_inv: "copy_inv sz results awake s \<Longrightarrow> copy_inv sz results awake (updater_step s)"
  by (cases "cp_updater s"; cases awake; cases "cp_main s") (auto simp: copy_inv_def updater_step_def)

interpretation copy_machine: invariant_machine
  "copy_starts sz results awake" copy_step "copy_inv sz results awake" for sz results awake
proof unfold_locales
  show "copy_inv sz results awake s" if "copy_starts sz results awake s" for s
    using that by (auto simp: copy_starts_def copy_start_def copy_inv_def cond_signal_def)
  show "copy_inv sz results awake t" if "copy_inv sz results awake s" "copy_step s t" for s t
    using that(2,1) by cases (auto intro: copier_inv updater_inv)
qed

text \<open>The two threads running alone: the reading loop, and a thread that sees the copy finished.\<close>

lemma copy_main_run:
  "cp_main s = Reading rs \<Longrightarrow>
   \<exists>t. copy_step\<^sup>*\<^sup>* s t \<and> cp_main t = Destroy \<and> cp_updater t = cp_updater s \<and> progressMax t = progressMax s"
proof (induction rs arbitrary: s)
  case Nil
  then have "copier_step s = s\<lparr>cp_main := Destroy\<rparr>" by (simp add: copier_step_def)
  then show ?case
    using copy_main [of s] by (intro exI [of _ "copier_step s"]) auto
next
  case (Cons r rs)
  show ?case
  proof (cases r)
    case (Bytes b)
    with Cons.prems have "cp_main (copier_step s) = Reading rs" "cp_updater (copier_step s) = cp_updater s"
      "progressMax (copier_step s) = progressMax s" by (simp_all add: copier_step_def)
    then show ?thesis
      using Cons.IH copy_main [of s] by (metis converse_rtranclp_into_rtranclp)
  next
    case Eof
    with Cons.prems show ?thesis
      using copy_main [of s] by (intro exI [of _ "copier_step s"]) (auto simp: copier_step_def)
  next
    case Failed
    with Cons.prems show ?thesis
      using copy_main [of s] by (intro exI [of _ "copier_step s"]) (auto simp: copier_step_def)
  qed
qed

lemma copy_read_run:
  "cp_main s = Reading (map Bytes bs @ rs) \<Longrightarrow>
   copy_step\<^sup>*\<^sup>* s (s\<lparr>cp_main := Reading rs, cp_out := cp_out s @ concat bs,
     progressNow := progressNow s + int (length (concat bs))\<rparr>)"
proof (induction bs arbitrary: s)
  case Nil
  then have "s = s\<lparr>cp_main := Reading rs, cp_out := cp_out s @ concat [],
     progressNow := progressNow s + int (length (concat []))\<rparr>" by simp
  then show ?case by auto
next
  case (Cons b bs)
  let ?t = "copier_step s"
  have t: "?t = s\<lparr>cp_main := Reading (map Bytes bs @ rs), cp_out := cp_out s @ b,
      progressNow := progressNow s + int (length b)\<rparr>"
    using Cons.prems by (simp add: copier_step_def)
  then have "copy_step\<^sup>*\<^sup>* ?t (s\<lparr>cp_main := Reading rs, cp_out := cp_out s @ concat (b # bs),
     progressNow := progressNow s + int (length (concat (b # bs)))\<rparr>)"
    using Cons.IH [of ?t] by (simp add: add.assoc)
  with copy_main [of s] show ?case by (rule converse_rtranclp_into_rtranclp)
qed

lemma spin_run:
  assumes "cp_main s = Spin" and "progressMax s \<le> 0"
  shows "\<exists>t. copy_step\<^sup>*\<^sup>* s t \<and> cp_main t = Returned"
  using copy_main [of s] assms by (intro exI [of _ "copier_step s"]) (auto simp: copier_step_def)

lemma destroy_run:
  assumes "cp_main s = Destroy" and "progressMax s \<le> 0"
  shows "\<exists>t. copy_step\<^sup>*\<^sup>* s t \<and> cp_main t = (if cp_updater s = CondWait then Undefined else Returned)"
proof (cases "cp_updater s = CondWait")
  case True
  with assms(1) show ?thesis
    using copy_main [of s] by (intro exI [of _ "copier_step s"]) (auto simp: copier_step_def)
next
  case False
  with assms(1) have "copier_step s = s\<lparr>cp_main := Spin\<rparr>" by (simp add: copier_step_def)
  then obtain t where "copy_step\<^sup>*\<^sup>* (copier_step s) t" "cp_main t = Returned"
    using spin_run [of "copier_step s"] assms(2) by auto
  with False show ?thesis using copy_main [of s] by (metis converse_rtranclp_into_rtranclp)
qed

lemma finish_run:
  assumes "progressMax s \<le> 0"
  shows "\<exists>t. copy_step\<^sup>*\<^sup>* s t \<and> cp_main t \<in> {Returned, Undefined}
    \<and> (cp_updater s \<noteq> CondWait \<and> cp_main s \<noteq> Undefined \<longrightarrow> cp_main t = Returned)"
proof (cases "cp_main s")
  case (Reading rs)
  obtain d where d: "copy_step\<^sup>*\<^sup>* s d" "cp_main d = Destroy" "cp_updater d = cp_updater s" "progressMax d = progressMax s"
    using copy_main_run [OF Reading] by blast
  with assms destroy_run [of d] obtain t where "copy_step\<^sup>*\<^sup>* d t"
    "cp_main t = (if cp_updater s = CondWait then Undefined else Returned)" by auto
  with d(1) show ?thesis by (intro exI [of _ t]) (auto intro: rtranclp_trans)
next
  case Destroy
  with destroy_run [OF _ assms] show ?thesis by (metis insert_iff)
next
  case Spin
  with spin_run [OF _ assms] show ?thesis by blast
qed auto

lemma updater_sees:
  assumes "cp_updater s \<in> {Woken, Drawing, ResetMax}" and "\<not> isExit s"
    and "cp_updater s \<noteq> ResetMax \<longrightarrow> progressMax s \<le> progressNow s"
  shows "copy_step\<^sup>*\<^sup>* s (s\<lparr>progressMax := 0, cp_updater := ResetNow\<rparr>)"
proof -
  have max: "copy_step\<^sup>*\<^sup>* u (u\<lparr>progressMax := 0, cp_updater := ResetNow\<rparr>)" if "cp_updater u = ResetMax" for u
    using copy_updater [of u] that by (simp add: updater_step_def)
  have drawing: "copy_step\<^sup>*\<^sup>* u (u\<lparr>progressMax := 0, cp_updater := ResetNow\<rparr>)"
    if "cp_updater u = Drawing" "progressMax u \<le> progressNow u" for u
    using converse_rtranclp_into_rtranclp [OF copy_updater [of u] max [of "updater_step u"]] that
    by (simp add: updater_step_def)
  have "copy_step\<^sup>*\<^sup>* s (s\<lparr>progressMax := 0, cp_updater := ResetNow\<rparr>)"
    if "cp_updater s = Woken" "progressMax s \<le> progressNow s"
    using converse_rtranclp_into_rtranclp [OF copy_updater [of s] drawing [of "updater_step s"]] that assms(2)
    by (simp add: updater_step_def)
  with drawing max assms show ?thesis by auto
qed

lemma delivered_split: "\<exists>bs rs. results = map Bytes bs @ rs \<and> delivered results = concat bs"
proof (induction results rule: delivered.induct)
  case (1 b rs)
  then obtain bs rs' where "rs = map Bytes bs @ rs'" "delivered rs = concat bs" by blast
  then show ?case by (intro exI [of _ "b # bs"] exI [of _ rs']) simp
qed (metis append_Nil concat.simps(1) delivered.simps list.map(1))+

lemma copy_loop_out: "fst (copy_loop results out now) = out @ delivered results"
  by (induction results out now rule: copy_loop.induct) simp_all

text \<open>A copy that is to return can do so from its start.\<close>

lemma copy_may_return:
  assumes "copy_starts sz results awake s" and "copy_returns awake sz results"
  shows "\<exists>t. copy_step\<^sup>*\<^sup>* s t \<and> cp_main t = Returned"
proof -
  obtain u now where s: "s = copy_start sz results u now" "u \<in> {CondWait, Back, ResetNow}"
    "awake = (u = CondWait)" "u = CondWait \<longrightarrow> now = 0"
    using assms(1) unfolding copy_starts_def by blast
  show ?thesis
  proof (cases awake)
    case True
    obtain bs rs where r: "results = map Bytes bs @ rs" "delivered results = concat bs"
      using delivered_split by blast
    let ?d = "s\<lparr>cp_main := Reading rs, cp_out := concat bs, progressNow := int (length (concat bs))\<rparr>"
    have d: "copy_step\<^sup>*\<^sup>* s ?d"
      using copy_read_run [of s bs rs] s True r by (simp add: copy_start_def)
    let ?e = "?d\<lparr>progressMax := 0, cp_updater := ResetNow\<rparr>"
    have "sz \<le> int (length (concat bs))" using assms(2) r(2) True by (auto simp: copy_returns_def)
    then have e: "copy_step\<^sup>*\<^sup>* ?d ?e"
      using s True by (intro updater_sees) (simp_all add: copy_start_def cond_signal_def)
    obtain t where t: "copy_step\<^sup>*\<^sup>* ?e t" "cp_main t = Returned" using finish_run [of ?e] by auto
    with rtranclp_trans [OF d rtranclp_trans [OF e t(1)]] show ?thesis by blast
  next
    case False
    with s assms(2) finish_run [of s] show ?thesis
      by (auto simp: copy_start_def cond_signal_def copy_returns_def)
  qed
qed

text \<open>And it can do so from wherever it has got to, unless reading fails.\<close>

lemma copy_no_dead_end:
  assumes inv: "copy_inv sz results awake t" and ret: "copy_returns awake sz results"
    and ok: "Failed \<notin> set results"
  shows "\<exists>u. copy_step\<^sup>*\<^sup>* t u \<and> cp_main u \<in> {Returned, Undefined}"
proof (cases "progressMax t \<le> 0")
  case True
  then show ?thesis using finish_run by blast
next
  case False
  have exit: "\<not> isExit t" using inv by (simp add: copy_inv_def)
  have awake: "awake"
  proof (rule ccontr)
    assume "\<not> awake"
    with inv ret False show False by (simp add: copy_inv_def copy_returns_def)
  qed
  with inv False have "cp_updater t \<in> {Woken, Drawing, ResetMax}"
    by (cases "cp_updater t") (simp_all add: copy_inv_def)
  with exit awake have up: "awake" "cp_updater t \<in> {Woken, Drawing, ResetMax}" "\<not> isExit t" by simp_all
  obtain d where d: "copy_step\<^sup>*\<^sup>* t d" "cp_updater d = cp_updater t" "isExit d = isExit t"
    "progressMax d = progressMax t" "cp_out d = delivered results"
  proof (cases "cp_main t")
    case (Reading q)
    obtain bs rs where q: "q = map Bytes bs @ rs" "delivered q = concat bs" using delivered_split by blast
    from Reading inv have "delivered results = cp_out t @ concat bs" by (simp add: copy_inv_def q(2))
    then show ?thesis using that copy_read_run [of t bs rs] Reading q(1) by simp
  qed (use inv that [of t] in \<open>simp_all add: copy_inv_def\<close>)
  have "copy_inv sz results awake d" by (rule copy_machine.inv_run [OF d(1) inv])
  moreover have "sz \<le> int (length (delivered results))" using ret by (auto simp: copy_returns_def)
  ultimately have "cp_updater d \<noteq> ResetMax \<longrightarrow> progressMax d \<le> progressNow d"
    using up(1,2) d(2,5) ok by (elim insertE) (simp_all add: copy_inv_def)
  then have e: "copy_step\<^sup>*\<^sup>* d (d\<lparr>progressMax := 0, cp_updater := ResetNow\<rparr>)"
    using up d by (intro updater_sees) simp_all
  obtain u where "copy_step\<^sup>*\<^sup>* (d\<lparr>progressMax := 0, cp_updater := ResetNow\<rparr>) u" "cp_main u \<in> {Returned, Undefined}"
    using finish_run [of "d\<lparr>progressMax := 0, cp_updater := ResetNow\<rparr>"] by auto
  with rtranclp_trans [OF d(1) rtranclp_trans [OF e]] show ?thesis by blast
qed



section \<open>What a window shows\<close>

text \<open>The lines among what is printed, and the text printed between them.\<close>

fun lines_of :: "shown list \<Rightarrow> (bool \<times> string) list" where
  "lines_of [] = []"
| "lines_of (Line b t # ss) = (b, t) # lines_of ss"
| "lines_of (MarkText t # ss) = lines_of ss"

fun marks_of :: "shown list \<Rightarrow> string list" where
  "marks_of [] = []"
| "marks_of (Line b t # ss) = marks_of ss"
| "marks_of (MarkText t # ss) = t # marks_of ss"

lemma shown_append [simp]:
  "lines_of (as @ bs) = lines_of as @ lines_of bs" "marks_of (as @ bs) = marks_of as @ marks_of bs"
  by (induction as rule: lines_of.induct) simp_all

lemma lines_of_marks [simp]: "lines_of (marks w c e i) = []"
  by (simp add: marks_def)

definition item :: "bool \<Rightarrow> world \<Rightarrow> string \<Rightarrow> dirent list \<Rightarrow> nat \<Rightarrow> shown list" where
  "item marking w c d j =
     (if marking then marks w c (d ! j) (int j) else []) @ [Line False (the (entry_text w c (d ! j)))]"

lemma redraw_loop_items:
  assumes "\<forall>e\<in>set d. entry_text w c e \<noteq> None" and "n \<le> length d"
  shows "redraw_loop m w c (Some d) (int i) (int n) = Some (concat (map (item m w c d) [i..<n]))"
proof (induction "n - i" arbitrary: i)
  case 0
  then show ?case by (subst redraw_loop.simps) simp
next
  case (Suc k)
  then have i: "i < n" by simp
  then obtain l where l: "entry_text w c (d ! i) = Some l" using assms by fastforce
  have e: "entry_at (Some d) (int i) = Some (d ! i)" using i assms(2) by (simp add: entry_at_def)
  have "redraw_loop m w c (Some d) (int i + 1) (int n) = Some (concat (map (item m w c d) [Suc i..<n]))"
    using Suc.hyps(1) [of "Suc i"] Suc.hyps(2) by (simp add: add.commute)
  with i l e show ?case
    by (subst redraw_loop.simps) (simp add: upt_conv_Cons [of i n] item_def)
qed

lemma redraw_eq:
  assumes "\<forall>e\<in>set d. entry_text w c e \<noteq> None"
  shows "redraw w c (Some d) (int (length d)) (int k) =
     Some (concat (map (item True w c d) [0..<min (length d) k])
       @ (if k < length d then Line True (the (entry_text w c (d ! k)))
              # concat (map (item False w c d) [Suc k..<length d]) else []))"
proof -
  have before: "redraw_loop True w c (Some d) 0 (min (int (length d)) (int k)) =
      Some (concat (map (item True w c d) [0..<min (length d) k]))"
    using redraw_loop_items [OF assms min.cobounded1, of True 0 k] unfolding of_nat_min by simp
  show ?thesis
  proof (cases "k < length d")
    case True
    then obtain l where "entry_text w c (d ! k) = Some l" using assms by fastforce
    moreover have "redraw_loop False w c (Some d) (int k + 1) (int (length d)) =
        Some (concat (map (item False w c d) [Suc k..<length d]))"
      using redraw_loop_items [OF assms order_refl, of False "Suc k"] by (simp add: add.commute)
    ultimately show ?thesis using True before by (simp add: redraw_def entry_at_def)
  qed (use before in \<open>simp add: redraw_def\<close>)
qed

lemma lines_of_items:
  "lines_of (concat (map (item m w c d) is)) = map (\<lambda>i. (False, the (entry_text w c (d ! i)))) is"
  by (induction "is") (simp_all add: item_def)

lemma marks_of_items:
  "marks_of (concat (map (item m w c d) is)) =
     (if m then concat (map (\<lambda>i. marks_of (marks w c (d ! i) (int i))) is) else [])"
  by (induction "is") (simp_all add: item_def)

text \<open>C38: what a window shows. Where no path is too long for the buffer, a listing is shown with one
  line per entry, in order, and exactly the selected line stands out (none, when the index is
  behind the last entry). Beside the lines, text goes to the terminal for each empty file above
  the selected line.\<close>

theorem redraw_shows_listing:
  assumes "\<forall>e\<in>set d. entry_text w c e \<noteq> None"
  shows "\<exists>ls. redraw w c (Some d) (int (length d)) (int k) = Some ls
    \<and> lines_of ls = map (\<lambda>i. (i = k, the (entry_text w c (d ! i)))) [0..<length d]
    \<and> marks_of ls = concat (map (\<lambda>i. marks_of (marks w c (d ! i) (int i))) [0..<min (length d) k])"
proof -
  have "[0..<length d] = [0..<k] @ k # [Suc k..<length d]" if "k < length d"
    using that by (metis upt_add_eq_append less_imp_le_nat le_add_diff_inverse upt_conv_Cons zero_le)
  then show ?thesis
    unfolding redraw_eq [OF assms] by (auto simp: lines_of_items marks_of_items min_def)
qed

theorem redraw_shows_listing_witness:
  "let w = \<lparr>realpath = (\<lambda>c n. Some (c @ n)), chdir = (\<lambda>c p. Some p), scandir = (\<lambda>c p. None), st_size = (\<lambda>c n. 0)\<rparr>;
       d = [\<lparr>d_name = ''a'', d_type = DT_DIR\<rparr>, \<lparr>d_name = ''b'', d_type = DT_REG\<rparr>]
   in \<exists>ls. redraw w ''/'' (Some d) 2 0 = Some ls \<and> lines_of ls = [(True, ''a''), (False, ''b <0>'')]"
proof -
  let ?w = "\<lparr>realpath = (\<lambda>c n. Some (c @ n)), chdir = (\<lambda>c p. Some p), scandir = (\<lambda>c p. None), st_size = (\<lambda>c n. 0)\<rparr>"
  let ?d = "[\<lparr>d_name = ''a'', d_type = DT_DIR\<rparr>, \<lparr>d_name = ''b'', d_type = DT_REG\<rparr>]"
  have t: "entry_text ?w ''/'' (?d ! 0) = Some ''a''" "entry_text ?w ''/'' (?d ! 1) = Some ''b <0>''"
    by (simp_all add: entry_text_def dec_0)
  then have ok: "\<forall>e\<in>set ?d. entry_text ?w ''/'' e \<noteq> None" by simp
  have "map (\<lambda>i. (i = 0, the (entry_text ?w ''/'' (?d ! i)))) [0..<length ?d] = [(True, ''a''), (False, ''b <0>'')]"
    using t by (simp add: upt_conv_Cons)
  then obtain ls where "redraw ?w ''/'' (Some ?d) (int (length ?d)) (int 0) = Some ls"
    "lines_of ls = [(True, ''a''), (False, ''b <0>'')]"
    using redraw_shows_listing [OF ok, of 0] by metis
  then show ?thesis unfolding Let_def by simp
qed

section \<open>The windows and the working directory\<close>

text \<open>
  What the manager relies on: \<open>D\<close> is a set of directories that stay there in all worlds of \<open>W\<close>, that
  can be entered and listed, and that contains the directories their listings name; no path is
  longer than the buffers.
\<close>

definition listed :: "world set \<Rightarrow> string \<Rightarrow> dirent set" where
  "listed W c = {e. \<exists>w\<in>W. \<exists>d. scandir w c ''.'' = Some d \<and> e \<in> set d}"

definition steady :: "world set \<Rightarrow> string set \<Rightarrow> bool" where
  "steady W D \<longleftrightarrow> (\<forall>w\<in>W.
     (\<forall>c n p. realpath w c n = Some p \<longrightarrow> length p < 250)
     \<and> (\<forall>c\<in>D. (\<exists>d. scandir w c ''.'' = Some d \<and> d \<noteq> [])
          \<and> (\<forall>p\<in>D. chdir w c p = Some p \<and> scandir w c p = scandir w p ''.'')
          \<and> (\<forall>e\<in>listed W c. \<exists>p. realpath w c (d_name e) = Some p \<and> (d_type e = DT_DIR \<longrightarrow> p \<in> D))))"

text \<open>One window: its listing is of its path.\<close>

definition window_ok :: "world set \<Rightarrow> string set \<Rightarrow> dirent list option \<Rightarrow> int \<Rightarrow> string \<Rightarrow> bool" where
  "window_ok W D dir n p \<longleftrightarrow>
     p \<in> D \<and> (\<exists>d. dir = Some d \<and> n = int (length d) \<and> d \<noteq> [] \<and> set d \<subseteq> listed W p)"

definition current_size :: "mc \<Rightarrow> int" where
  "current_size s = (if currentWindowType s = LEFT_WINDOW then lDirSize s else rDirSize s)"

definition current_path :: "mc \<Rightarrow> string" where
  "current_path s = (if currentWindowType s = LEFT_WINDOW then leftDirPath s else rightDirPath s)"

definition current_dir :: "mc \<Rightarrow> dirent list option" where
  "current_dir s = (if currentWindowType s = LEFT_WINDOW then leftDir s else rightDir s)"

definition mc_inv :: "world set \<Rightarrow> string set \<Rightarrow> mc \<Rightarrow> bool" where
  "mc_inv W D s \<longleftrightarrow> steady W D
     \<and> window_ok W D (leftDir s) (lDirSize s) (leftDirPath s)
     \<and> window_ok W D (rightDir s) (rDirSize s) (rightDirPath s)
     \<and> 0 \<le> selectedPosition s \<and> selectedPosition s < current_size s
     \<and> (mc_hangs s \<or> cwd s = current_path s)"

lemma entry_text_defined: "steady W D \<Longrightarrow> w \<in> W \<Longrightarrow> entry_text w c e \<noteq> None"
  by (fastforce simp: steady_def entry_text_def split: option.splits)

lemma redraw_defined:
  assumes "steady W D" and "w \<in> W" and "window_ok W D dir n p" and "0 \<le> k"
  shows "\<exists>ls. redraw w c dir n k = Some ls"
proof -
  obtain d where "dir = Some d" "n = int (length d)" using assms(3) by (auto simp: window_ok_def)
  then show ?thesis
    using redraw_eq [of d w c "nat k"] entry_text_defined [OF assms(1,2)] assms(4) by auto
qed

lemma relisted:
  assumes "steady W D" and "w \<in> W" and "window_ok W D dir n q" and "c \<in> D"
    and "path = ''.'' \<and> p = c \<or> path = p \<and> p \<in> D"
  shows "memFree dir n = Some () \<and> window_ok W D (fst (scandir_at w c path)) (snd (scandir_at w c path)) p"
proof -
  have p: "p \<in> D" "scandir w c path = scandir w p ''.''"
    using assms by (auto simp: steady_def)
  then obtain d where d: "scandir w p ''.'' = Some d" "d \<noteq> []"
    using assms(1,2) unfolding steady_def by blast
  with assms(2,3) p show ?thesis
    by (auto simp: window_ok_def memFree_def scandir_at_def listed_def)
qed

lemma entry_resolves:
  assumes "steady W D" and "w \<in> W" and "window_ok W D dir n c" and "0 \<le> k" and "k < n"
  shows "\<exists>e p. entry_at dir k = Some e \<and> realpath w c (d_name e) = Some p \<and> length p < 250
    \<and> (d_type e = DT_DIR \<longrightarrow> p \<in> D) \<and> e \<in> listed W c"
proof -
  obtain d where d: "dir = Some d" "n = int (length d)" "set d \<subseteq> listed W c" "c \<in> D"
    using assms(3) by (auto simp: window_ok_def)
  then have e: "entry_at dir k = Some (d ! nat k)" "d ! nat k \<in> listed W c"
    using assms(4,5) by (auto simp: entry_at_def)
  then obtain p where "realpath w c (d_name (d ! nat k)) = Some p" "d_type (d ! nat k) = DT_DIR \<longrightarrow> p \<in> D"
    using assms(1,2) d(4) unfolding steady_def by blast
  with e assms(1,2) show ?thesis by (auto simp: steady_def)
qed

lemma chdir_steady: "steady W D \<Longrightarrow> w \<in> W \<Longrightarrow> c \<in> D \<Longrightarrow> p \<in> D \<Longrightarrow> chdir_to w c p = p"
  by (auto simp: steady_def chdir_to_def)

lemma window_pos: "window_ok W D dir n p \<Longrightarrow> 0 < n"
  by (auto simp: window_ok_def)

text \<open>The operations on one window.\<close>

lemma redraw_left_inv:
  assumes "mc_inv W D s" and "w \<in> W" and "0 \<le> k"
  shows "\<exists>ls. redraw_left w k s = Some (s\<lparr>leftData := ls\<rparr>)"
  using redraw_defined [of W D w "leftDir s" "lDirSize s" "leftDirPath s" k "cwd s"] assms
  by (auto simp: redraw_left_def mc_inv_def)

lemma redraw_right_inv:
  assumes "mc_inv W D s" and "w \<in> W" and "0 \<le> k"
  shows "\<exists>ls. redraw_right w k s = Some (s\<lparr>rightData := ls\<rparr>)"
  using redraw_defined [of W D w "rightDir s" "rDirSize s" "rightDirPath s" k "cwd s"] assms
  by (auto simp: redraw_right_def mc_inv_def)

lemma relist_left_inv:
  assumes "steady W D" and "w \<in> W" and "window_ok W D (leftDir s) (lDirSize s) q" and "cwd s \<in> D"
    and "path = ''.'' \<and> p = cwd s \<or> path = p \<and> p \<in> D"
  shows "\<exists>d n. relist_left w path s = Some (s\<lparr>leftDir := d, lDirSize := n\<rparr>) \<and> window_ok W D d n p"
  using relisted [OF assms]
  by (intro exI [of _ "fst (scandir_at w (cwd s) path)"] exI [of _ "snd (scandir_at w (cwd s) path)"])
     (simp add: relist_left_def split: prod.splits)

lemma relist_right_inv:
  assumes "steady W D" and "w \<in> W" and "window_ok W D (rightDir s) (rDirSize s) q" and "cwd s \<in> D"
    and "path = ''.'' \<and> p = cwd s \<or> path = p \<and> p \<in> D"
  shows "\<exists>d n. relist_right w path s = Some (s\<lparr>rightDir := d, rDirSize := n\<rparr>) \<and> window_ok W D d n p"
  using relisted [OF assms]
  by (intro exI [of _ "fst (scandir_at w (cwd s) path)"] exI [of _ "snd (scandir_at w (cwd s) path)"])
     (simp add: relist_right_def split: prod.splits)

lemma selected_entry:
  assumes "mc_inv W D s" and "w \<in> W" and "\<not> mc_hangs s"
  shows "\<exists>e p. entry_at (current_dir s) (selectedPosition s) = Some e
    \<and> realpath w (cwd s) (d_name e) = Some p \<and> length p < 250
    \<and> (d_type e = DT_DIR \<longrightarrow> p \<in> D) \<and> e \<in> listed W (cwd s)"
  using entry_resolves [of W D w "leftDir s" "lDirSize s" "leftDirPath s" "selectedPosition s"]
    entry_resolves [of W D w "rightDir s" "rDirSize s" "rightDirPath s" "selectedPosition s"] assms
  by (auto simp: mc_inv_def current_dir_def current_size_def current_path_def)

lemma press_enter_inv:
  assumes "mc_inv W D s" and "w \<in> W" and "\<not> mc_hangs s"
  shows "\<exists>t. press_enter w s = Some t \<and> mc_inv W D t"
proof -
  obtain e p where e: "entry_at (current_dir s) (selectedPosition s) = Some e"
    "realpath w (cwd s) (d_name e) = Some p" "length p < 250" "d_type e = DT_DIR \<longrightarrow> p \<in> D"
    using selected_entry [OF assms] by blast
  have dir: "isDirSelected (currentWindowType s) (rightDir s) (leftDir s) (selectedPosition s) = Some (d_type e = DT_DIR)"
    using e(1) by (auto simp: isDirSelected_def current_dir_def split: if_splits)
  have into: "realpath_into 250 w (cwd s) (d_name e) = Some p" "realpath_into 999 w (cwd s) (d_name e) = Some p"
    using e(2,3) by (simp_all add: realpath_into_def)
  have st: "steady W D" using assms(1) by (simp add: mc_inv_def)
  have c: "cwd s \<in> D" using assms by (auto simp: mc_inv_def window_ok_def current_path_def)
  show ?thesis
  proof (cases "d_type e = DT_DIR")
    case False
    with dir e(1) into assms(1) show ?thesis
      by (auto simp: press_enter_def current_dir_def mc_inv_def current_size_def current_path_def)
  next
    case True
    with e(4) have p: "p \<in> D" by simp
    let ?c = "chdir_to w (cwd s) p"
    have cd: "?c = p" by (rule chdir_steady [OF st assms(2) c p])
    show ?thesis
    proof (cases "currentWindowType s = LEFT_WINDOW")
      case left: True
      obtain d n where "relist_left w ''.'' (s\<lparr>leftDirPath := p, cwd := ?c\<rparr>) =
          Some (s\<lparr>leftDirPath := p, cwd := ?c, leftDir := d, lDirSize := n\<rparr>)" "window_ok W D d n p"
        using relist_left_inv [OF st assms(2), of "s\<lparr>leftDirPath := p, cwd := ?c\<rparr>" "leftDirPath s" "''.''" p]
          assms(1) p cd by (auto simp: mc_inv_def)
      with True left dir e(1) into assms(1) cd show ?thesis
        by (simp add: press_enter_def current_dir_def mc_inv_def current_size_def current_path_def window_pos)
    next
      case right: False
      obtain d n where "relist_right w ''.'' (s\<lparr>rightDirPath := p, cwd := ?c\<rparr>) =
          Some (s\<lparr>rightDirPath := p, cwd := ?c, rightDir := d, rDirSize := n\<rparr>)" "window_ok W D d n p"
        using relist_right_inv [OF st assms(2), of "s\<lparr>rightDirPath := p, cwd := ?c\<rparr>" "rightDirPath s" "''.''" p]
          assms(1) p cd by (auto simp: mc_inv_def)
      with True right dir e(1) into assms(1) cd show ?thesis
        by (simp add: press_enter_def current_dir_def mc_inv_def current_size_def current_path_def window_pos)
    qed
  qed
qed

lemma press_tab_inv:
  assumes "mc_inv W D s" and "w \<in> W" and "\<not> mc_hangs s"
  shows "\<exists>t. press_tab w s = Some t \<and> mc_inv W D t"
proof -
  have st: "steady W D" and wl: "window_ok W D (leftDir s) (lDirSize s) (leftDirPath s)"
    and wr: "window_ok W D (rightDir s) (rDirSize s) (rightDirPath s)"
    using assms(1) by (simp_all add: mc_inv_def)
  then have paths: "leftDirPath s \<in> D" "rightDirPath s \<in> D" by (simp_all add: window_ok_def)
  have c: "cwd s \<in> D" using assms(1,3) paths by (auto simp: mc_inv_def current_path_def)
  note chdir = chdir_steady [OF st assms(2) c]
  show ?thesis
  proof (cases "currentWindowType s = LEFT_WINDOW")
    case left: True
    let ?s = "s\<lparr>selectedPosition := 0, currentWindowType := RIGHT_WINDOW\<rparr>"
    obtain d n where l: "relist_left w (leftDirPath s) ?s = Some (?s\<lparr>leftDir := d, lDirSize := n\<rparr>)"
      "window_ok W D d n (leftDirPath s)"
      using relist_left_inv [OF st assms(2), of ?s "leftDirPath s" "leftDirPath s" "leftDirPath s"] wl c paths by auto
    obtain ls where "redraw w (cwd s) d n n = Some ls"
      using redraw_defined [OF st assms(2) l(2), of n "cwd s"] window_pos [OF l(2)] by auto
    with l left st wr chdir paths show ?thesis
      by (simp add: press_tab_def redraw_left_def mc_inv_def current_size_def current_path_def
          window_pos LEFT_WINDOW_def RIGHT_WINDOW_def)
  next
    case right: False
    let ?s = "s\<lparr>selectedPosition := 0, currentWindowType := LEFT_WINDOW\<rparr>"
    obtain d n where l: "relist_right w (rightDirPath s) ?s = Some (?s\<lparr>rightDir := d, rDirSize := n\<rparr>)"
      "window_ok W D d n (rightDirPath s)"
      using relist_right_inv [OF st assms(2), of ?s "rightDirPath s" "rightDirPath s" "rightDirPath s"] wr c paths by auto
    obtain ls where "redraw w (cwd s) d n n = Some ls"
      using redraw_defined [OF st assms(2) l(2), of n "cwd s"] window_pos [OF l(2)] by auto
    with l right st wl chdir paths show ?thesis
      by (simp add: press_tab_def redraw_right_def mc_inv_def current_size_def current_path_def
          window_pos LEFT_WINDOW_def RIGHT_WINDOW_def)
  qed
qed

lemma press_down_inv: "mc_inv W D s \<Longrightarrow> mc_inv W D (press_down s)"
  by (cases "currentWindowType s")
     (auto simp: mc_inv_def press_down_def current_size_def current_path_def LEFT_WINDOW_def RIGHT_WINDOW_def)

lemma press_up_inv: "mc_inv W D s \<Longrightarrow> mc_inv W D (press_up s)"
  by (auto simp: mc_inv_def press_up_def current_size_def current_path_def)

lemma drawn_inv [simp]:
  "mc_inv W D (s\<lparr>leftData := ls\<rparr>) = mc_inv W D s" "mc_inv W D (s\<lparr>rightData := ls\<rparr>) = mc_inv W D s"
  by (simp_all add: mc_inv_def current_size_def current_path_def)

lemma drawProgressWindow_frame [simp]:
  fixes s w which where_to awake sz results target
  defines "t \<equiv> drawProgressWindow w which where_to awake sz results target s"
  shows "leftDir t = leftDir s" "rightDir t = rightDir s" "lDirSize t = lDirSize s" "rDirSize t = rDirSize s"
    "leftDirPath t = leftDirPath s" "rightDirPath t = rightDirPath s"
    "selectedPosition t = selectedPosition s" "currentWindowType t = currentWindowType s"
    "cwd t = chdir_to w (cwd s) where_to"
  by (simp_all add: t_def drawProgressWindow_def Let_def)

lemma press_f5_inv:
  assumes "mc_inv W D s" and "w \<in> W" and "\<not> mc_hangs s"
  shows "\<exists>t. press_f5 w awake sz results target s = Some t \<and> mc_inv W D t"
proof -
  have st: "steady W D" and wl: "window_ok W D (leftDir s) (lDirSize s) (leftDirPath s)"
    and wr: "window_ok W D (rightDir s) (rDirSize s) (rightDirPath s)"
    using assms(1) by (simp_all add: mc_inv_def)
  then have paths: "leftDirPath s \<in> D" "rightDirPath s \<in> D" by (simp_all add: window_ok_def)
  have c: "cwd s \<in> D" using assms(1,3) paths by (auto simp: mc_inv_def current_path_def)
  note chdir = chdir_steady [OF st assms(2)]
  have pos: "0 \<le> selectedPosition s" using assms(1) by (simp add: mc_inv_def)
  obtain e where e: "entry_at (current_dir s) (selectedPosition s) = Some e"
    using selected_entry [OF assms] by blast
  show ?thesis
  proof (cases "currentWindowType s = LEFT_WINDOW")
    case left: True
    let ?d = "drawProgressWindow w (d_name e) (rightDirPath s) awake sz results target s"
    have hang: ?thesis if "mc_hangs ?d"
      using that left e assms(1)
      by (simp add: press_f5_def current_dir_def Let_def mc_inv_def current_size_def)
    have ?thesis if go: "\<not> mc_hangs ?d"
    proof -
      let ?s = "?d\<lparr>cwd := chdir_to w (cwd ?d) (leftDirPath s)\<rparr>"
      have cwd: "cwd ?s = leftDirPath s"
        using chdir c paths by simp
      obtain d n where r: "relist_right w (rightDirPath s) ?s = Some (?s\<lparr>rightDir := d, rDirSize := n\<rparr>)"
        "window_ok W D d n (rightDirPath s)"
        using relist_right_inv [OF st assms(2), of ?s "rightDirPath s" "rightDirPath s" "rightDirPath s"] wr cwd paths by auto
      let ?t = "?s\<lparr>rightDir := d, rDirSize := n\<rparr>"
      have t: "mc_inv W D ?t"
        using r(2) assms(1) left cwd by (simp add: mc_inv_def current_size_def current_path_def)
      obtain ls where rr: "redraw_right w n ?t = Some (?t\<lparr>rightData := ls\<rparr>)"
        using redraw_right_inv [OF t assms(2), of n] window_pos [OF r(2)] by auto
      obtain ls' where "redraw_left w (selectedPosition s) (?t\<lparr>rightData := ls\<rparr>) =
          Some (?t\<lparr>rightData := ls, leftData := ls'\<rparr>)"
        using redraw_left_inv [of W D "?t\<lparr>rightData := ls\<rparr>" w "selectedPosition s"] t assms(2) pos by auto
      with left e go r(1) rr t show ?thesis
        by (simp add: press_f5_def current_dir_def Let_def)
    qed
    with hang show ?thesis by blast
  next
    case right: False
    let ?d = "drawProgressWindow w (d_name e) (leftDirPath s) awake sz results target s"
    have hang: ?thesis if "mc_hangs ?d"
      using that right e assms(1)
      by (simp add: press_f5_def current_dir_def Let_def mc_inv_def current_size_def)
    have ?thesis if go: "\<not> mc_hangs ?d"
    proof -
      let ?s = "?d\<lparr>cwd := chdir_to w (cwd ?d) (rightDirPath s)\<rparr>"
      have cwd: "cwd ?s = rightDirPath s"
        using chdir c paths by simp
      obtain d n where r: "relist_left w (leftDirPath s) ?s = Some (?s\<lparr>leftDir := d, lDirSize := n\<rparr>)"
        "window_ok W D d n (leftDirPath s)"
        using relist_left_inv [OF st assms(2), of ?s "leftDirPath s" "leftDirPath s" "leftDirPath s"] wl cwd paths by auto
      let ?t = "?s\<lparr>leftDir := d, lDirSize := n\<rparr>"
      have t: "mc_inv W D ?t"
        using r(2) assms(1) right cwd by (simp add: mc_inv_def current_size_def current_path_def)
      obtain ls where rr: "redraw_left w n ?t = Some (?t\<lparr>leftData := ls\<rparr>)"
        using redraw_left_inv [OF t assms(2), of n] window_pos [OF r(2)] by auto
      obtain ls' where "redraw_right w (selectedPosition s) (?t\<lparr>leftData := ls\<rparr>) =
          Some (?t\<lparr>leftData := ls, rightData := ls'\<rparr>)"
        using redraw_right_inv [of W D "?t\<lparr>leftData := ls\<rparr>" w "selectedPosition s"] t assms(2) pos by auto
      with right e go r(1) rr t show ?thesis
        by (simp add: press_f5_def current_dir_def Let_def)
    qed
    with hang show ?thesis by blast
  qed
qed

lemma mc_step_inv:
  assumes inv: "mc_inv W D s" and w: "w \<in> W" and go: "\<not> mc_hangs s"
  shows "\<exists>t. mc_step w k s = Some t \<and> mc_inv W D t"
proof -
  have pos: "0 \<le> selectedPosition s" using inv by (simp add: mc_inv_def)
  obtain s' where s': "(if currentWindowType s = LEFT_WINDOW then redraw_left w (selectedPosition s) s
      else redraw_right w (selectedPosition s) s) = Some s'" "mc_inv W D s'" "\<not> mc_hangs s'"
    using redraw_left_inv [OF inv w pos] redraw_right_inv [OF inv w pos] inv go that
    by (cases "currentWindowType s = LEFT_WINDOW") auto
  have "\<exists>t. (case k of Enter \<Rightarrow> press_enter w s' | Tab \<Rightarrow> press_tab w s' | KEY_DOWN \<Rightarrow> Some (press_down s')
      | KEY_UP \<Rightarrow> Some (press_up s') | F5 awake sz results target \<Rightarrow> press_f5 w awake sz results target s'
      | CtrlX awake \<Rightarrow> Some (s'\<lparr>isInterrupted := True, mc_hangs := \<not> awake\<rparr>) | OtherKey \<Rightarrow> Some s') = Some t
      \<and> mc_inv W D t"
  proof (cases k)
    case (CtrlX awake)
    with s'(2,3) show ?thesis by (auto simp: mc_inv_def current_size_def current_path_def)
  qed (use s'(2,3) w press_enter_inv press_tab_inv press_f5_inv press_down_inv press_up_inv in auto)
  with s'(1) show ?thesis by (simp add: mc_step_def)
qed

inductive mc_next :: "world set \<Rightarrow> mc \<Rightarrow> mc \<Rightarrow> bool" for W where
  mc_key: "w \<in> W \<Longrightarrow> \<not> isInterrupted s \<Longrightarrow> \<not> mc_hangs s \<Longrightarrow> mc_step w k s = Some t \<Longrightarrow> mc_next W s t"

text \<open>Starting in a directory whose listing begins with the directory itself.\<close>

definition mc_begins :: "world set \<Rightarrow> string set \<Rightarrow> mc \<Rightarrow> bool" where
  "mc_begins W D s \<longleftrightarrow> steady W D \<and>
     (\<exists>w\<in>W. \<exists>c\<in>D. mc_start w c = Some s
        \<and> (\<exists>d. scandir w c ''.'' = Some d \<and> realpath w c (d_name (hd d)) = Some c))"

lemma mc_start_inv:
  assumes st: "steady W D" and w: "w \<in> W" and c: "c \<in> D"
    and d: "scandir w c ''.'' = Some d" "realpath w c (d_name (hd d)) = Some c"
  shows "\<exists>s. mc_start w c = Some s \<and> mc_inv W D s \<and> \<not> mc_hangs s \<and> \<not> isInterrupted s"
proof -
  have ne: "d \<noteq> []" and short: "length c < 250" using st w c d unfolding steady_def by fastforce+
  have win: "window_ok W D (Some d) (int (length d)) c"
    using ne c w d by (auto simp: window_ok_def listed_def)
  have hd: "entry_at (Some d) 0 = Some (hd d)" using ne by (simp add: entry_at_def hd_conv_nth)
  have into: "realpath_into 250 w c (d_name (hd d)) = Some c"
    using d short by (simp add: realpath_into_def)
  obtain rs where rs: "redraw w c (Some d) (int (length d)) (int (length d)) = Some rs"
    using redraw_defined [OF st w win, of "int (length d)" c] by auto
  obtain ls where ls: "redraw w c (Some d) (int (length d)) 0 = Some ls"
    using redraw_defined [OF st w win, of 0 c] by auto
  show ?thesis
    using hd into rs ls win st ne d(1)
    by (simp add: mc_start_def scandir_at_def redraw_right_def redraw_left_def mc_inv_def current_size_def
        current_path_def)
qed

interpretation mc_machine: invariant_machine "mc_begins W D" "mc_next W" "mc_inv W D" for W D
proof unfold_locales
  show "mc_inv W D s" if "mc_begins W D s" for s
    using that mc_start_inv unfolding mc_begins_def by fastforce
  show "mc_inv W D t" if "mc_inv W D s" "mc_next W s t" for s t
    using that(2)
  proof cases
    case (mc_key w k)
    with that(1) mc_step_inv [of W D s w k] show ?thesis by auto
  qed
qed

lemma mc_loop_run:
  "mc_inv W D s \<Longrightarrow> fst ` set ks \<subseteq> W \<Longrightarrow> \<exists>t. mc_loop ks s = Some t \<and> (mc_next W)\<^sup>*\<^sup>* s t"
proof (induction ks arbitrary: s)
  case (Cons k ks)
  obtain w a where k: "k = (w, a)" by (cases k)
  show ?case
  proof (cases "isInterrupted s \<or> mc_hangs s")
    case False
    with Cons.prems k obtain t where t: "mc_step w a s = Some t" "mc_inv W D t"
      using mc_step_inv [of W D s w a] by auto
    with Cons.IH [OF t(2)] Cons.prems(2) obtain u where "mc_loop ks t = Some u" "(mc_next W)\<^sup>*\<^sup>* t u" by auto
    moreover have "mc_next W s t" using False t(1) Cons.prems(2) k by (auto intro: mc_key)
    ultimately show ?thesis using False t(1) k by (auto intro: converse_rtranclp_into_rtranclp)
  qed (use k in auto)
qed auto



end
