(* ===== verification/ShmChat.thy ===== *)
theory ShmChat
  imports CLib
begin

text \<open>
  \<open>les17_shared_memory\<close>: a chat over a shared buffer and a set of twelve semaphores. Number 0
  counts the clients, number 1 tells of a message, the others wake the clients. The server and
  the two threads of each client are interleaved at their calls of \<open>semop\<close>, \<open>semctl\<close> and \<open>strcpy\<close>.
\<close>

section \<open>Semaphores\<close>

text \<open>
  \<open>semop\<close> of a set: all operations at once, in order, or the call waits. A number outside of the
  set is an error, which the programs do not look at.
\<close>

datatype sem_result = Done "nat list" | Blocks | Fails

fun sem_ops :: "nat list \<Rightarrow> (nat \<times> int) list \<Rightarrow> sem_result" where
  "sem_ops s [] = Done s"
| "sem_ops s ((n, v) # ops) =
     (if v = 0 then (if s ! n = 0 then sem_ops s ops else Blocks)
      else if v < 0 then
        (if nat (- v) \<le> s ! n then sem_ops (s[n := s ! n - nat (- v)]) ops else Blocks)
      else sem_ops (s[n := s ! n + nat v]) ops)"

definition semop :: "nat list \<Rightarrow> (nat \<times> int) list \<Rightarrow> sem_result" where
  "semop s ops = (if list_ex (\<lambda>(n, v). length s \<le> n) ops then Fails else sem_ops s ops)"

section \<open>Client\<close>

definition MAX_MSG_SIZE :: nat where "MAX_MSG_SIZE = 512"
definition MAX_CLIENTS :: nat where "MAX_CLIENTS = 10"

text \<open>
  \<open>my_getline\<close> over what is typed: the buffer up to the terminator, and the input left. A line of
  255 bytes without newline is not terminated; behind the end of the input \<open>c\<close> is undefined.
\<close>

fun shm_line :: "string \<Rightarrow> nat \<Rightarrow> string \<Rightarrow> (string \<times> string) option" where
  "shm_line [] i buff = None"
| "shm_line (c # cs) i buff =
     (if i < 255 then
        (if c = CHR 0x0A then Some (cstr (buff @ [c, NUL]), cs) else shm_line cs (i + 1) (buff @ [c]))
      else None)"

definition shm_getline :: "string \<Rightarrow> (string \<times> string) option" where
  "shm_getline input = shm_line input 0 []"

text \<open>The last character of the nickname becomes a colon, a blank is added.\<close>

definition shm_nickname :: "string \<Rightarrow> string option" where
  "shm_nickname nick = (if nick = [] then None else Some (butlast nick @ '': ''))"

text \<open>\<open>buff\<close> of \<open>reader_thread\<close> has 1024 bytes, \<open>public_buff\<close> \<open>MAX_MSG_SIZE\<close>.\<close>

definition shm_message :: "string \<Rightarrow> string \<Rightarrow> string option" where
  "shm_message nick msg =
     (if length nick + length msg < 1024 \<and> length nick + length msg < MAX_MSG_SIZE
      then Some (nick @ msg) else None)"

text \<open>
  A client: its number, once it has read it; the reader thread, typing or between its \<open>semop\<close> and
  the \<open>strcpy\<close> of the message (with \<open>isExit\<close>); how many messages it announced, what it printed,
  and whether it has ended.
\<close>

datatype shm_reader = Typing | Announced string bool

record shm_client =
  cl_nick :: string
  myId :: "nat option"
  cl_reader :: shm_reader
  cl_sent :: nat
  cl_drawn :: "string list"
  cl_gone :: bool

section \<open>Server and chat\<close>

datatype shm_server = SWait | SRead | SCast nat | SAck | SEnd

record shm_chat =
  sems :: "nat list"
  public_buff :: string
  srv :: shm_server
  srv_messages :: nat
  clients :: "shm_client list"

text \<open>\<open>main\<close> of the server up to its loop; \<open>stale\<close> is what the shared memory holds.\<close>

definition shm_init :: "string \<Rightarrow> shm_chat" where
  "shm_init stale =
     \<lparr>sems = (replicate (2 + MAX_CLIENTS) 0)[0 := 2, 1 := 0], public_buff = stale, srv = SWait,
      srv_messages = 0, clients = []\<rparr>"

text \<open>A call of \<open>semop\<close> whose result is ignored: it waits (\<open>None\<close>) or goes on.\<close>

definition sem_call :: "(nat \<times> int) list \<Rightarrow> shm_chat \<Rightarrow> shm_chat option" where
  "sem_call ops s =
     (case semop (sems s) ops of Done t \<Rightarrow> Some (s\<lparr>sems := t\<rparr>) | Blocks \<Rightarrow> None | Fails \<Rightarrow> Some s)"

definition server_step :: "shm_chat \<Rightarrow> shm_chat option" where
  "server_step s =
     (case srv s of
        SWait \<Rightarrow>
          map_option (\<lambda>s. s\<lparr>srv := SRead, srv_messages := srv_messages s + 1\<rparr>)
            (sem_call [(1, -1), (1, 0), (1, 1)] s)
      | SRead \<Rightarrow>
          Some (s\<lparr>srv := if public_buff s = ''quit'' @ nl \<or> public_buff s = ''quit'' then SEnd else SCast 2\<rparr>)
      | SCast i \<Rightarrow>
          (if i < 2 + MAX_CLIENTS
           then map_option (\<lambda>s. s\<lparr>srv := SCast (i + 1)\<rparr>) (sem_call [(i, 1)] s)
           else Some (s\<lparr>srv := SAck\<rparr>))
      | SAck \<Rightarrow> map_option (\<lambda>s. s\<lparr>srv := SWait\<rparr>) (sem_call [(1, -1)] s)
      | SEnd \<Rightarrow> None)"

definition set_client :: "nat \<Rightarrow> shm_client \<Rightarrow> shm_chat \<Rightarrow> shm_chat" where
  "set_client k c s = s\<lparr>clients := (clients s)[k := c]\<rparr>"

text \<open>A new client: the nickname is read, semaphore 0 counted up; then its number is read.\<close>

definition client_join :: "string \<Rightarrow> shm_chat \<Rightarrow> shm_chat option" where
  "client_join input s = do {
     (line, rest) \<leftarrow> shm_getline input;
     nick \<leftarrow> shm_nickname line;
     s \<leftarrow> sem_call [(0, 1)] s;
     Some (s\<lparr>clients := clients s @ [\<lparr>cl_nick = nick, myId = None, cl_reader = Typing, cl_sent = 0,
       cl_drawn = [], cl_gone = False\<rparr>]\<rparr>)
   }"

definition client_id :: "nat \<Rightarrow> shm_chat \<Rightarrow> shm_chat option" where
  "client_id k s =
     (let c = clients s ! k in
      if k < length (clients s) \<and> myId c = None
      then Some (set_client k (c\<lparr>myId := Some (sems s ! 0)\<rparr>) s) else None)"

text \<open>\<open>reader_thread\<close>: a line is read and announced; then it is copied into the shared buffer.\<close>

definition client_announce :: "nat \<Rightarrow> string \<Rightarrow> shm_chat \<Rightarrow> shm_chat option" where
  "client_announce k input s =
     (let c = clients s ! k in
      if k < length (clients s) \<and> myId c \<noteq> None \<and> cl_reader c = Typing \<and> \<not> cl_gone c then do {
        (msg, rest) \<leftarrow> shm_getline input;
        buff \<leftarrow> shm_message (cl_nick c) msg;
        s \<leftarrow> sem_call [(1, 0), (1, 1)] s;
        Some (set_client k (c\<lparr>cl_reader := Announced buff (msg = ''quit'' @ nl), cl_sent := cl_sent c + 1\<rparr>) s)
      } else None)"

definition client_store :: "nat \<Rightarrow> shm_chat \<Rightarrow> shm_chat option" where
  "client_store k s =
     (let c = clients s ! k in
      if k < length (clients s) then
        (case cl_reader c of
           Typing \<Rightarrow> None
         | Announced buff isExit \<Rightarrow>
             Some (set_client k (c\<lparr>cl_reader := Typing, cl_gone := isExit\<rparr>) (s\<lparr>public_buff := buff\<rparr>)))
      else None)"

text \<open>\<open>drawer_thread\<close>.\<close>

definition client_draw :: "nat \<Rightarrow> shm_chat \<Rightarrow> shm_chat option" where
  "client_draw k s =
     (let c = clients s ! k in
      if k < length (clients s) \<and> \<not> cl_gone c then
        (case myId c of
           None \<Rightarrow> None
         | Some i \<Rightarrow>
             map_option (set_client k (c\<lparr>cl_drawn := cl_drawn c @ [public_buff s]\<rparr>))
               (sem_call [(i, -1)] s))
      else None)"

inductive shm_step :: "shm_chat \<Rightarrow> shm_chat \<Rightarrow> bool" where
  shm_server: "server_step s = Some t \<Longrightarrow> shm_step s t"
| shm_join: "client_join input s = Some t \<Longrightarrow> shm_step s t"
| shm_id: "client_id k s = Some t \<Longrightarrow> shm_step s t"
| shm_announce: "client_announce k input s = Some t \<Longrightarrow> shm_step s t"
| shm_store: "client_store k s = Some t \<Longrightarrow> shm_step s t"
| shm_draw: "client_draw k s = Some t \<Longrightarrow> shm_step s t"

section \<open>The calls of the programs\<close>

lemma sem_call_wait:
  "1 < length (sems s) \<Longrightarrow> sems s ! 1 \<le> 1 \<Longrightarrow>
   sem_call [(1, -1), (1, 0), (1, 1)] s = (if sems s ! 1 = 1 then Some s else None)"
proof -
  assume l: "1 < length (sems s)" and b: "sems s ! 1 \<le> 1"
  then have "(sems s)[Suc 0 := Suc 0] = sems s" if "sems s ! 1 = 1"
    using that list_update_id [of "sems s" 1] by simp
  with l b show ?thesis by (auto simp: sem_call_def semop_def)
qed

lemma sem_call_announce:
  "1 < length (sems s) \<Longrightarrow>
   sem_call [(1, 0), (1, 1)] s = (if sems s ! 1 = 0 then Some (s\<lparr>sems := (sems s)[1 := 1]\<rparr>) else None)"
  by (auto simp: sem_call_def semop_def)

lemma sem_call_up:
  "i < length (sems s) \<Longrightarrow> sem_call [(i, 1)] s = Some (s\<lparr>sems := (sems s)[i := sems s ! i + 1]\<rparr>)"
  by (simp add: sem_call_def semop_def)

lemma sem_call_down:
  "sem_call [(i, -1)] s =
     (if length (sems s) \<le> i then Some s
      else if 0 < sems s ! i then Some (s\<lparr>sems := (sems s)[i := sems s ! i - 1]\<rparr>) else None)"
  by (auto simp: sem_call_def semop_def)

lemma sum_client:
  "k < length cs \<Longrightarrow> sum_list (map f (cs[k := c])) + f (cs ! k) = sum_list (map f cs) + (f c :: nat)"
  using elem_le_sum_list [of k "map f cs"] by (simp add: map_update sum_list_update)

section \<open>Invariants\<close>

text \<open>Whether the server works on a message, and whether it has still to wake the clients of \<open>i\<close>.\<close>

definition at_work :: "shm_server \<Rightarrow> nat" where
  "at_work p = (case p of SWait \<Rightarrow> 0 | _ \<Rightarrow> 1)"

definition to_wake :: "nat \<Rightarrow> shm_server \<Rightarrow> nat" where
  "to_wake i p = (case p of SWait \<Rightarrow> 0 | SRead \<Rightarrow> 1 | SCast j \<Rightarrow> (if i < j then 0 else 1) | SAck \<Rightarrow> 0 | SEnd \<Rightarrow> 1)"

definition drawn_at :: "nat \<Rightarrow> shm_client \<Rightarrow> nat" where
  "drawn_at i c = (if myId c = Some i then length (cl_drawn c) else 0)"

definition signal_inv :: "shm_chat \<Rightarrow> bool" where
  "signal_inv s \<longleftrightarrow> length (sems s) = 12 \<and> sems s ! 0 = 2 + length (clients s)
     \<and> at_work (srv s) \<le> sems s ! 1 \<and> sems s ! 1 \<le> 1
     \<and> sum_list (map cl_sent (clients s)) + at_work (srv s) = srv_messages s + sems s ! 1
     \<and> (\<forall>j. srv s = SCast j \<longrightarrow> 2 \<le> j \<and> j \<le> 12)"

definition wake_inv :: "shm_chat \<Rightarrow> bool" where
  "wake_inv s \<longleftrightarrow> (\<forall>i. 2 \<le> i \<and> i < 12 \<longrightarrow>
     sems s ! i + sum_list (map (drawn_at i) (clients s)) + to_wake i (srv s) = srv_messages s)"

definition id_ok :: "nat \<Rightarrow> nat \<Rightarrow> shm_client \<Rightarrow> bool" where
  "id_ok n k c \<longleftrightarrow>
     (case myId c of None \<Rightarrow> cl_drawn c = [] \<and> cl_reader c = Typing | Some i \<Rightarrow> 3 + k \<le> i \<and> i \<le> 2 + n)
     \<and> CHR '':'' \<in> set (cl_nick c)
     \<and> (case cl_reader c of Typing \<Rightarrow> True | Announced b e \<Rightarrow> CHR '':'' \<in> set b)"

definition client_inv :: "shm_chat \<Rightarrow> bool" where
  "client_inv s \<longleftrightarrow> (\<forall>k < length (clients s). id_ok (length (clients s)) k (clients s ! k))"

definition text_inv :: "string \<Rightarrow> shm_chat \<Rightarrow> bool" where
  "text_inv stale s \<longleftrightarrow> (public_buff s = stale \<or> CHR '':'' \<in> set (public_buff s))
     \<and> (srv s = SEnd \<longrightarrow> stale = ''quit'' @ nl \<or> stale = ''quit'')"

definition shm_inv :: "string \<Rightarrow> shm_chat \<Rightarrow> bool" where
  "shm_inv stale s \<longleftrightarrow> signal_inv s \<and> wake_inv s \<and> client_inv s \<and> text_inv stale s"

text \<open>Each operation keeps them.\<close>

lemma server_step_inv:
  assumes inv: "shm_inv stale s" and step: "server_step s = Some t"
  shows "shm_inv stale t"
proof -
  have len: "length (sems s) = 12" and one: "sems s ! 1 \<le> 1" using inv by (simp_all add: shm_inv_def signal_inv_def)
  show ?thesis
  proof (cases "srv s")
    case SWait
    with step len one have "sems s ! 1 = 1" and t: "t = s\<lparr>srv := SRead, srv_messages := srv_messages s + 1\<rparr>"
      using sem_call_wait [of s] by (auto simp: server_step_def split: if_splits)
    with inv SWait show ?thesis
      by (simp add: shm_inv_def signal_inv_def wake_inv_def client_inv_def text_inv_def at_work_def to_wake_def)
  next
    case SRead
    with step have t: "t = s\<lparr>srv := if public_buff s = ''quit'' @ nl \<or> public_buff s = ''quit'' then SEnd else SCast 2\<rparr>"
      by (simp add: server_step_def)
    have "CHR '':'' \<notin> set (''quit'' @ nl)" "CHR '':'' \<notin> set ''quit''" by (simp_all add: nl_def)
    with inv SRead show ?thesis unfolding t
      by (auto simp: shm_inv_def signal_inv_def wake_inv_def client_inv_def text_inv_def at_work_def to_wake_def)
  next
    case (SCast i)
    then have i: "2 \<le> i" "i \<le> 12" using inv by (simp_all add: shm_inv_def signal_inv_def)
    show ?thesis
    proof (cases "i < 12")
      case True
      with step SCast len have t: "t = s\<lparr>sems := (sems s)[i := sems s ! i + 1], srv := SCast (i + 1)\<rparr>"
        by (auto simp: server_step_def sem_call_up MAX_CLIENTS_def)
      have "sems t ! j + sum_list (map (drawn_at j) (clients t)) + to_wake j (srv t) = srv_messages t"
        if "2 \<le> j" "j < 12" for j
      proof -
        have "sems s ! j + sum_list (map (drawn_at j) (clients s)) + to_wake j (srv s) = srv_messages s"
          using inv that by (simp add: shm_inv_def wake_inv_def)
        with SCast t len that True show ?thesis
          by (cases "i = j") (auto simp: to_wake_def nth_list_update)
      qed
      with inv SCast t i True show ?thesis
        by (simp add: shm_inv_def signal_inv_def wake_inv_def client_inv_def text_inv_def at_work_def)
    next
      case False
      with step SCast have t: "t = s\<lparr>srv := SAck\<rparr>" by (simp add: server_step_def MAX_CLIENTS_def)
      with inv SCast False i show ?thesis
        by (simp add: shm_inv_def signal_inv_def wake_inv_def client_inv_def text_inv_def at_work_def to_wake_def)
    qed
  next
    case SAck
    then have "sems s ! 1 = 1" using inv by (simp add: shm_inv_def signal_inv_def at_work_def)
    with step SAck len have t: "t = s\<lparr>sems := (sems s)[1 := 0], srv := SWait\<rparr>"
      by (auto simp: server_step_def sem_call_down)
    with inv SAck \<open>sems s ! 1 = 1\<close> show ?thesis
      by (simp add: shm_inv_def signal_inv_def wake_inv_def client_inv_def text_inv_def at_work_def to_wake_def)
  next
    case SEnd
    with step show ?thesis by (simp add: server_step_def)
  qed
qed

lemma client_join_inv:
  assumes inv: "shm_inv stale s" and step: "client_join input s = Some t"
  shows "shm_inv stale t"
proof -
  have len: "length (sems s) = 12" using inv by (simp add: shm_inv_def signal_inv_def)
  then have up: "sem_call [(0, 1)] s = Some (s\<lparr>sems := (sems s)[0 := sems s ! 0 + 1]\<rparr>)" by (simp add: sem_call_up)
  from step obtain line rest where line: "shm_getline input = Some (line, rest)" "line \<noteq> []"
    by (auto simp: client_join_def shm_nickname_def bind_eq_Some_conv split: if_splits)
  define nick where "nick = butlast line @ '': ''"
  have nick: "CHR '':'' \<in> set nick" by (simp add: nick_def)
  from step line have t: "t = s\<lparr>sems := (sems s)[0 := sems s ! 0 + 1], clients := clients s @ [\<lparr>cl_nick = nick, myId = None,
      cl_reader = Typing, cl_sent = 0, cl_drawn = [], cl_gone = False\<rparr>]\<rparr>"
    by (simp add: client_join_def shm_nickname_def up nick_def)
  have "id_ok (length (clients t)) k (clients t ! k)" if "k < length (clients t)" for k
  proof (cases "k < length (clients s)")
    case True
    then have "id_ok (length (clients s)) k (clients s ! k)" using inv by (simp add: shm_inv_def client_inv_def)
    with True t show ?thesis by (auto simp: id_ok_def nth_append split: option.splits)
  next
    case False
    with that t nick show ?thesis by (simp add: id_ok_def nth_append less_Suc_eq)
  qed
  with inv t len show ?thesis
    by (simp add: shm_inv_def signal_inv_def wake_inv_def client_inv_def text_inv_def drawn_at_def)
qed

text \<open>What a change of one client means for the invariants.\<close>

lemma set_client_inv:
  assumes "signal_inv (s\<lparr>clients := (clients s)[k := c]\<rparr>)" and "k < length (clients s)"
    and "\<forall>i. drawn_at i c = drawn_at i (clients s ! k)" and "id_ok (length (clients s)) k c"
    and "shm_inv stale s"
  shows "shm_inv stale (set_client k c s)"
proof -
  have "sum_list (map (drawn_at i) ((clients s)[k := c])) = sum_list (map (drawn_at i) (clients s))" for i
    using sum_client [OF assms(2), of "drawn_at i" c] assms(3) by simp
  with assms show ?thesis
    by (simp add: shm_inv_def set_client_def wake_inv_def client_inv_def text_inv_def nth_list_update)
qed

lemma client_id_inv:
  assumes inv: "shm_inv stale s" and step: "client_id k s = Some t"
  shows "shm_inv stale t"
proof -
  let ?c = "(clients s ! k)\<lparr>myId := Some (sems s ! 0)\<rparr>"
  from step have k: "k < length (clients s)" "myId (clients s ! k) = None" and t: "t = set_client k ?c s"
    by (auto simp: client_id_def Let_def split: if_splits)
  have old: "id_ok (length (clients s)) k (clients s ! k)" "sems s ! 0 = 2 + length (clients s)"
    using inv k(1) by (simp_all add: shm_inv_def client_inv_def signal_inv_def)
  show ?thesis unfolding t
  proof (rule set_client_inv [OF _ k(1) _ _ inv])
    show "signal_inv (s\<lparr>clients := (clients s)[k := ?c]\<rparr>)"
      using inv sum_client [OF k(1), of cl_sent ?c] by (simp add: shm_inv_def signal_inv_def)
    show "\<forall>i. drawn_at i ?c = drawn_at i (clients s ! k)" using old(1) k(2) by (simp add: drawn_at_def id_ok_def)
    show "id_ok (length (clients s)) k ?c" using old k by (simp add: id_ok_def)
  qed
qed

lemma client_announce_inv:
  assumes inv: "shm_inv stale s" and step: "client_announce k input s = Some t"
  shows "shm_inv stale t"
proof -
  let ?c = "clients s ! k"
  have len: "length (sems s) = 12" using inv by (simp add: shm_inv_def signal_inv_def)
  then have call: "sem_call [(1, 0), (1, 1)] s = (if sems s ! 1 = 0 then Some (s\<lparr>sems := (sems s)[1 := 1]\<rparr>) else None)"
    by (intro sem_call_announce) simp
  from step have k: "k < length (clients s)" "myId ?c \<noteq> None" and z: "sems s ! 1 = 0"
    unfolding client_announce_def Let_def call by (auto simp: bind_eq_Some_conv split: if_splits)
  from step obtain msg rest where line: "shm_getline input = Some (msg, rest)" "shm_message (cl_nick ?c) msg = Some (cl_nick ?c @ msg)"
    by (auto simp: client_announce_def Let_def bind_eq_Some_conv shm_message_def split: if_splits)
  define buff e where be: "buff = cl_nick ?c @ msg" "e = (msg = ''quit'' @ nl)"
  have buff: "set (cl_nick ?c) \<subseteq> set buff" by (simp add: be)
  have t: "t = set_client k (?c\<lparr>cl_reader := Announced buff e, cl_sent := cl_sent ?c + 1\<rparr>) (s\<lparr>sems := (sems s)[1 := 1]\<rparr>)"
    using step line z unfolding client_announce_def Let_def call by (simp add: be split: if_splits)
  let ?d = "?c\<lparr>cl_reader := Announced buff e, cl_sent := cl_sent ?c + 1\<rparr>"
  have old: "id_ok (length (clients s)) k ?c" using inv k(1) by (simp add: shm_inv_def client_inv_def)
  have idle: "at_work (srv s) = 0" using inv z by (simp add: shm_inv_def signal_inv_def)
  have "sum_list (map (drawn_at i) ((clients s)[k := ?d])) = sum_list (map (drawn_at i) (clients s))" for i
    using sum_client [OF k(1), of "drawn_at i" ?d] by (cases "myId ?c = Some i") (simp_all add: drawn_at_def)
  moreover have "id_ok (length (clients s)) k ?d" using old k(2) buff by (auto simp: id_ok_def)
  moreover have "sum_list (map cl_sent ((clients s)[k := ?d])) = sum_list (map cl_sent (clients s)) + 1"
    using sum_client [OF k(1), of cl_sent ?d] by simp
  ultimately show ?thesis
    using inv t len z k(1) idle
    by (simp add: shm_inv_def signal_inv_def set_client_def wake_inv_def client_inv_def text_inv_def nth_list_update)
qed

lemma client_store_inv:
  assumes inv: "shm_inv stale s" and step: "client_store k s = Some t"
  shows "shm_inv stale t"
proof -
  let ?c = "clients s ! k"
  from step obtain buff e where k: "k < length (clients s)" "cl_reader ?c = Announced buff e"
    and t: "t = set_client k (?c\<lparr>cl_reader := Typing, cl_gone := e\<rparr>) (s\<lparr>public_buff := buff\<rparr>)"
    by (auto simp: client_store_def Let_def split: if_splits shm_reader.splits)
  let ?d = "?c\<lparr>cl_reader := Typing, cl_gone := e\<rparr>"
  have old: "id_ok (length (clients s)) k ?c" using inv k(1) by (simp add: shm_inv_def client_inv_def)
  then have "shm_inv stale (s\<lparr>public_buff := buff\<rparr>)"
    using inv k(2) by (simp add: shm_inv_def signal_inv_def wake_inv_def client_inv_def text_inv_def id_ok_def)
  moreover have "signal_inv (s\<lparr>public_buff := buff, clients := (clients s)[k := ?d]\<rparr>)"
    using inv sum_client [OF k(1), of cl_sent ?d] by (simp add: shm_inv_def signal_inv_def)
  moreover have "\<forall>i. drawn_at i ?d = drawn_at i ?c" by (simp add: drawn_at_def)
  moreover have "id_ok (length (clients s)) k ?d" using old k(2) by (auto simp: id_ok_def split: option.splits)
  ultimately show ?thesis unfolding t using set_client_inv [of "s\<lparr>public_buff := buff\<rparr>" k ?d stale] k(1) by simp
qed

lemma client_draw_inv:
  assumes inv: "shm_inv stale s" and step: "client_draw k s = Some t"
  shows "shm_inv stale t"
proof -
  let ?c = "clients s ! k" and ?d = "(clients s ! k)\<lparr>cl_drawn := cl_drawn (clients s ! k) @ [public_buff s]\<rparr>"
  have len: "length (sems s) = 12" using inv by (simp add: shm_inv_def signal_inv_def)
  from step obtain i u where k: "k < length (clients s)" "myId ?c = Some i" and u: "sem_call [(i, -1)] s = Some u"
    and t: "t = set_client k ?d u"
    by (auto simp: client_draw_def Let_def split: if_splits option.splits)
  have old: "id_ok (length (clients s)) k ?c" using inv k(1) by (simp add: shm_inv_def client_inv_def)
  then have i: "3 \<le> i" "id_ok (length (clients s)) k ?d" using k(2) by (auto simp: id_ok_def)
  have sent: "sum_list (map cl_sent ((clients s)[k := ?d])) = sum_list (map cl_sent (clients s))"
    using sum_client [OF k(1), of cl_sent ?d] by simp
  have drawn: "sum_list (map (drawn_at j) ((clients s)[k := ?d])) =
      sum_list (map (drawn_at j) (clients s)) + (if i = j then 1 else 0)" for j
    using sum_client [OF k(1), of "drawn_at j" ?d] k(2) by (cases "i = j") (simp_all add: drawn_at_def)
  show ?thesis
  proof (cases "12 \<le> i")
    case True
    with u len have "u = s" by (simp add: sem_call_down)
    with t inv i(2) k(1) sent drawn True show ?thesis
      by (simp add: shm_inv_def signal_inv_def set_client_def wake_inv_def client_inv_def text_inv_def nth_list_update)
  next
    case False
    with u len have u': "u = s\<lparr>sems := (sems s)[i := sems s ! i - 1]\<rparr>" "0 < sems s ! i"
      by (auto simp: sem_call_down split: if_splits)
    have "sems t ! j + sum_list (map (drawn_at j) (clients t)) + to_wake j (srv t) = srv_messages t"
      if "2 \<le> j" "j < 12" for j
    proof -
      have "sems s ! j + sum_list (map (drawn_at j) (clients s)) + to_wake j (srv s) = srv_messages s"
        using inv that by (simp add: shm_inv_def wake_inv_def)
      with t u' len that drawn [of j] show ?thesis
        by (cases "i = j") (auto simp: set_client_def nth_list_update)
    qed
    with t u' inv i k(1) sent len False show ?thesis
      by (simp add: shm_inv_def signal_inv_def set_client_def wake_inv_def client_inv_def text_inv_def nth_list_update)
  qed
qed

interpretation shm_machine: invariant_machine "\<lambda>s. s = shm_init stale" shm_step "shm_inv stale" for stale
proof unfold_locales
  show "shm_inv stale s" if "s = shm_init stale" for s
  proof -
    have "(replicate 12 (0 :: nat))[0 := 2, Suc 0 := 0] ! i = 0" if "2 \<le> i" "i < 12" for i :: nat
      using that by (simp add: nth_list_update)
    with that show ?thesis
      by (simp add: shm_init_def shm_inv_def signal_inv_def wake_inv_def client_inv_def text_inv_def
          MAX_CLIENTS_def at_work_def to_wake_def)
  qed
  show "shm_inv stale t" if "shm_inv stale s" "shm_step s t" for s t
    using that(2,1) by cases
      (auto intro: server_step_inv client_join_inv client_id_inv client_announce_inv client_store_inv client_draw_inv)
qed

section \<open>What the chat guarantees\<close>



text \<open>A sequence of operations as a run of the machine.\<close>

fun run_moves :: "(shm_chat \<Rightarrow> shm_chat option) list \<Rightarrow> shm_chat \<Rightarrow> shm_chat option" where
  "run_moves [] s = Some s"
| "run_moves (m # ms) s = Option.bind (m s) (run_moves ms)"

lemma run_moves_reachable:
  "run_moves ms s = Some t \<Longrightarrow> \<forall>m\<in>set ms. \<forall>s t. m s = Some t \<longrightarrow> shm_step s t \<Longrightarrow>
   reachable start shm_step s \<Longrightarrow> reachable start shm_step t"
proof (induction ms arbitrary: s)
  case (Cons m ms)
  then obtain u where u: "m s = Some u" "run_moves ms u = Some t" by (auto simp: bind_eq_Some_conv)
  with Cons.prems have "reachable start shm_step u" by (meson list.set_intros(1) reach_step)
  with Cons.IH [OF u(2)] Cons.prems(2) show ?case by simp
qed simp

text \<open>Numbers. The number of client \<open>k\<close> is at least \<open>3 + k\<close>, so semaphore 2 wakes nobody, and from
  the tenth client on the number is outside of the set and its \<open>semop\<close> never waits. Numbers are
  not unique: two clients that count up before they read get the same. And the signal comes
  before the message: clients can print what the buffer held before.\<close>

theorem shm_numbers:
  "(\<forall>s k i. reachable (\<lambda>s. s = shm_init stale) shm_step s \<and> k < length (clients s)
        \<and> myId (clients s ! k) = Some i \<longrightarrow>
      3 + k \<le> i \<and> i \<le> 2 + length (clients s)
      \<and> (9 \<le> k \<and> \<not> cl_gone (clients s ! k) \<longrightarrow> client_draw k s \<noteq> None))
    \<and> (\<exists>s. reachable (\<lambda>s. s = shm_init ''old'') shm_step s
        \<and> map myId (clients s) = [Some 4, Some 4])
    \<and> (\<exists>s. reachable (\<lambda>s. s = shm_init ''old'') shm_step s
        \<and> cl_drawn (clients s ! 0) = [''old''] \<and> cl_reader (clients s ! 0) = Announced (''bob: hi'' @ nl) False)"
proof (intro conjI allI impI)
  fix s k i
  assume a: "reachable (\<lambda>s. s = shm_init stale) shm_step s \<and> k < length (clients s) \<and> myId (clients s ! k) = Some i"
  then have inv: "shm_inv stale s" using shm_machine.inv_reachable by blast
  with a have ok: "id_ok (length (clients s)) k (clients s ! k)" by (simp add: shm_inv_def client_inv_def)
  with a show "3 + k \<le> i" "i \<le> 2 + length (clients s)" by (simp_all add: id_ok_def)
  assume "9 \<le> k \<and> \<not> cl_gone (clients s ! k)"
  with a \<open>3 + k \<le> i\<close> inv show "client_draw k s \<noteq> None"
    by (simp add: client_draw_def Let_def sem_call_down shm_inv_def signal_inv_def)
next
  let ?ms = "[client_join (''bob'' @ nl), client_join (''ann'' @ nl), client_id 0, client_id 1]"
  obtain s where s: "run_moves ?ms (shm_init ''old'') = Some s" "map myId (clients s) = [Some 4, Some 4]"
  proof -
    have "map_option (\<lambda>s. map myId (clients s)) (run_moves ?ms (shm_init ''old'')) = Some [Some 4, Some 4]"
      by code_simp
    then show ?thesis using that by auto
  qed
  have r: "reachable (\<lambda>s. s = shm_init ''old'') shm_step s"
    by (rule run_moves_reachable [OF s(1)]) (auto intro: shm_step.intros)
  show "\<exists>s. reachable (\<lambda>s. s = shm_init ''old'') shm_step s \<and> map myId (clients s) = [Some 4, Some 4]"
    by (intro exI [of _ s] conjI r s)
next
  let ?ms = "[client_join (''bob'' @ nl), client_id 0, client_announce 0 (''hi'' @ nl), server_step, server_step,
    server_step, server_step, client_draw 0]"
  obtain s where s: "run_moves ?ms (shm_init ''old'') = Some s"
    "cl_drawn (clients s ! 0) = [''old'']" "cl_reader (clients s ! 0) = Announced (''bob: hi'' @ nl) False"
  proof -
    have "map_option (\<lambda>s. (cl_drawn (clients s ! 0), cl_reader (clients s ! 0))) (run_moves ?ms (shm_init ''old''))
        = Some ([''old''], Announced (''bob: hi'' @ nl) False)"
      by code_simp
    then show ?thesis using that by auto
  qed
  have r: "reachable (\<lambda>s. s = shm_init ''old'') shm_step s"
    by (rule run_moves_reachable [OF s(1)]) (auto intro: shm_step.intros)
  show "\<exists>s. reachable (\<lambda>s. s = shm_init ''old'') shm_step s
      \<and> cl_drawn (clients s ! 0) = [''old''] \<and> cl_reader (clients s ! 0) = Announced (''bob: hi'' @ nl) False"
    by (intro exI [of _ s] conjI r s)
qed

theorem shm_numbers_witness:
  "\<exists>s. reachable (\<lambda>s. s = shm_init ''old'') shm_step s \<and> map myId (clients s) = [Some 4, Some 4]
     \<and> 3 + 1 \<le> (4 :: nat) \<and> 4 \<le> 2 + length (clients s)"
proof -
  obtain s where s: "reachable (\<lambda>s. s = shm_init ''old'') shm_step s" "map myId (clients s) = [Some 4, Some 4]"
    using shm_numbers [of "''old''", THEN conjunct2, THEN conjunct1] by (elim exE conjE)
  have "length (clients s) = 2" using arg_cong [OF s(2), of length] by (simp only: length_map) simp
  then have len: "1 < length (clients s)" by simp
  have id: "myId (clients s ! 1) = Some 4"
    using nth_map [OF len, of myId] unfolding s(2) by simp
  have "3 + 1 \<le> (4 :: nat) \<and> 4 \<le> 2 + length (clients s)"
    using shm_numbers [THEN conjunct1, rule_format, OF conjI [OF s(1) conjI [OF len id]]]
    by (elim conjE) (intro conjI, assumption+)
  then show ?thesis by (intro exI [of _ s] conjI s) simp_all
qed

lemma shm_line_spec:
  "CHR 0x0A \<notin> set l \<Longrightarrow>
   shm_line (l @ nl @ rest) i buff = (if i + length l < 255 then Some (cstr (buff @ l @ nl @ [NUL]), rest) else None)"
  by (induction l arbitrary: i buff) (auto simp: nl_def)

lemma shm_line_length:
  "shm_line input i buff = Some (b, r) \<Longrightarrow> i = length buff \<Longrightarrow> length b \<le> 255"
proof (induction input i buff rule: shm_line.induct)
  case (2 c cs i buff)
  have "length (cstr (buff @ [c, NUL])) \<le> length buff + 1"
    by (induction buff) (auto simp: cstr_def)
  with 2 show ?case by (auto split: if_splits)
qed simp

text \<open>Lines and sizes. A line is read whole when it has less than 255 characters, a longer one runs
  out of its terminator. A nickname and a line always fit into the buffers, and can fill the
  shared one to its last byte.\<close>

theorem shm_message_fits:
  assumes "shm_getline input = Some (line, rest)" and "shm_nickname line = Some nick"
    and "shm_getline input' = Some (msg, rest')"
  shows "shm_message nick msg = Some (nick @ msg)
    \<and> (CHR 0x0A \<notin> set l \<and> NUL \<notin> set l \<longrightarrow>
        shm_getline (l @ nl @ rest) = (if length l < 255 then Some (l @ nl, rest) else None))
    \<and> (\<exists>n m. shm_nickname (replicate 254 (CHR ''n'') @ nl) = Some n
        \<and> shm_getline (replicate 254 (CHR ''m'') @ nl) = Some (m, [])
        \<and> length (n @ m) + 1 = MAX_MSG_SIZE)"
proof -
  have "length line \<le> 255" "length msg \<le> 255"
    using assms(1,3) shm_line_length unfolding shm_getline_def by fastforce+
  moreover have "length nick = length line + 1"
    using assms(2) by (auto simp: shm_nickname_def split: if_splits)
  moreover have "cstr (l @ nl @ [NUL]) = l @ nl" if "NUL \<notin> set l"
    using that cstr_append_NUL [of "l @ nl" "[]"] by (simp add: nl_def NUL_def)
  moreover have "shm_getline (replicate 254 (CHR ''m'') @ nl) = Some (replicate 254 (CHR ''m'') @ nl, [])"
  proof -
    have "cstr (replicate 254 (CHR ''m'') @ nl @ [NUL]) = replicate 254 (CHR ''m'') @ nl"
      using cstr_append_NUL [of "replicate 254 (CHR ''m'') @ nl" "[]"] by (simp add: nl_def NUL_def)
    then show ?thesis
      using shm_line_spec [of "replicate 254 (CHR ''m'')" "[]" 0 "[]"] by (simp add: shm_getline_def)
  qed
  moreover have "shm_nickname (replicate 254 (CHR ''n'') @ nl) = Some (replicate 254 (CHR ''n'') @ '': '')"
    by (simp add: shm_nickname_def nl_def)
  moreover have "CHR 0x0A \<notin> set l \<and> NUL \<notin> set l \<longrightarrow>
      shm_getline (l @ nl @ rest) = (if length l < 255 then Some (l @ nl, rest) else None)"
    using calculation(4) shm_line_spec [of l rest 0 "[]"] by (simp add: shm_getline_def)
  ultimately show ?thesis
    by (simp add: shm_message_def MAX_MSG_SIZE_def nl_def)
qed

theorem shm_message_fits_witness:
  "shm_message ''bob: '' (''hi'' @ nl) = Some (''bob: hi'' @ nl)"
proof -
  have "shm_getline (''bob'' @ nl) = Some (''bob'' @ nl, [])" "shm_getline (''hi'' @ nl) = Some (''hi'' @ nl, [])"
    "shm_nickname (''bob'' @ nl) = Some ''bob: ''" by code_simp+
  from shm_message_fits [OF this(1) this(3) this(2)] show ?thesis by simp
qed

section \<open>The status\<close>

text \<open>
  A line of \<open>printStatus\<close>, which runs beside the server: the semaphores are read one after the other, \<open>seen n\<close>
  are their values when number \<open>n\<close> is read.
\<close>

definition sem_status :: "(nat \<Rightarrow> nat list) \<Rightarrow> string" where
  "sem_status seen = concat (map (\<lambda>sem_n. dec (int (seen sem_n ! sem_n)) @ '' '') [0..<MAX_CLIENTS + 2]) @ nl"

text \<open>When nothing moves meanwhile, the line is the state of the set.\<close>

lemma status_shows: "length s = MAX_CLIENTS + 2 \<Longrightarrow> sem_status (\<lambda>_. s) = concat (map (\<lambda>v. dec (int v) @ '' '') s) @ nl"
proof -
  assume "length s = MAX_CLIENTS + 2"
  then have "map ((!) s) [0..<MAX_CLIENTS + 2] = s" by (metis map_nth)
  then have "map (\<lambda>n. dec (int (s ! n)) @ '' '') [0..<MAX_CLIENTS + 2] = map (\<lambda>v. dec (int v) @ '' '') s"
    by (metis (mono_tags, lifting) list.map_comp comp_def map_eq_conv)
  then show ?thesis by (simp only: sem_status_def)
qed

end
