(* ===== verification/MsgChat.thy ===== *)
theory MsgChat
  imports CLib
begin

text \<open>
  \<open>les16_IPC_objects\<close>: a chat over three message queues. Clients announce themselves on the service
  queue and write to the middle queue; the server's second thread puts as many copies of each
  message into the one client queue as there are clients, and every client takes what comes.
  The threads are interleaved at their calls of \<open>msgsnd\<close> and \<open>msgrcv\<close>; a queue has one type of
  message, so that \<open>msgrcv\<close> takes the first.
\<close>

section \<open>Lines\<close>

text \<open>
  \<open>my_getline\<close>: the string read into 256 bytes. A line of 255 bytes without newline is not
  terminated; behind the end of the input \<open>c\<close> is undefined.
\<close>

fun mq_line :: "string \<Rightarrow> nat \<Rightarrow> string \<Rightarrow> (string \<times> string) option" where
  "mq_line [] i buff = None"
| "mq_line (c # cs) i buff =
     (if i < 255 then
        (if c = CHR 0x0A then Some (cstr (buff @ [c, NUL]), cs) else mq_line cs (i + 1) (buff @ [c]))
      else None)"

definition mq_getline :: "string \<Rightarrow> (string \<times> string) option" where
  "mq_getline input = mq_line input 0 []"

text \<open>The name of a client, without the newline, copied into 32 bytes.\<close>

definition mq_username :: "string \<Rightarrow> string option" where
  "mq_username line = (if line = [] \<or> 32 \<le> length (butlast line) then None else Some (butlast line))"

text \<open>
  The inner loop of \<open>screen_reader\<close> over its buffer of 256 bytes, which keeps what it held: 254
  characters at most, and \<open>buff[i + 1] = 0\<close> behind the loop, with \<open>i\<close> at the newline or at 254.
\<close>

fun screen_loop :: "string \<Rightarrow> nat \<Rightarrow> string \<Rightarrow> (string \<times> string) option" where
  "screen_loop input i buff =
     (if i < 254 then
        (case input of
           [] \<Rightarrow> None
         | c # cs \<Rightarrow>
             (if c = CHR 0x0A then Some (buff[i := c, i + 1 := NUL], cs)
              else screen_loop cs (i + 1) (buff[i := c])))
      else Some (buff[i + 1 := NUL], input))"

declare screen_loop.simps [simp del]

section \<open>Queues, server and clients\<close>

record mq_msg =
  username :: string
  mtext :: string

text \<open>
  The flags \<open>isExit\<close> are looked at before a thread waits in \<open>msgrcv\<close>; a thread that waits takes one
  more message. \<open>RWait\<close>, \<open>srv_serving\<close> and \<open>mc_listens\<close> say that a thread waits.
\<close>

datatype redirecting = RWait | RSend mq_msg nat | RDone

record mq_client =
  mc_name :: string
  mc_buff :: string
  mc_exit :: bool
  mc_listens :: bool
  mc_received :: "mq_msg list"

record mq_chat =
  service_q :: "mq_msg list"
  middle_q :: "mq_msg list"
  client_q :: "mq_msg list"
  clients_number :: nat
  redirect :: redirecting
  srv_isExit :: bool
  srv_serving :: bool
  srv_joined :: "string list"
  srv_written :: "mq_msg list"
  mq_clients :: "mq_client list"

definition mq_init :: mq_chat where
  "mq_init =
     \<lparr>service_q = [], middle_q = [], client_q = [], clients_number = 0, redirect = RWait,
      srv_isExit = False, srv_serving = True, srv_joined = [], srv_written = [], mq_clients = []\<rparr>"

text \<open>\<open>service_thread\<close>: one turn.\<close>

definition service_turn :: "mq_chat \<Rightarrow> mq_chat option" where
  "service_turn s =
     (if \<not> srv_serving s then None
      else case service_q s of
        [] \<Rightarrow> None
      | m # q \<Rightarrow>
          Some (s\<lparr>service_q := q, clients_number := clients_number s + 1,
            srv_serving := \<not> srv_isExit s,
            srv_joined := srv_joined s @ [username m @ '' has joined the party!'' @ nl]\<rparr>))"

text \<open>\<open>redirecting_thread\<close>: taking a message, and one pass of the loop that copies it.\<close>

definition redirect_take :: "mq_chat \<Rightarrow> mq_chat option" where
  "redirect_take s =
     (if redirect s \<noteq> RWait then None
      else case middle_q s of
        [] \<Rightarrow> None
      | m # q \<Rightarrow> Some (s\<lparr>middle_q := q, redirect := RSend m 0, srv_written := srv_written s @ [m]\<rparr>))"

definition redirect_send :: "mq_chat \<Rightarrow> mq_chat option" where
  "redirect_send s =
     (case redirect s of
        RWait \<Rightarrow> None
      | RDone \<Rightarrow> None
      | RSend m i \<Rightarrow>
          Some (if i < clients_number s
                then s\<lparr>client_q := client_q s @ [m], redirect := RSend m (i + 1)\<rparr>
                else s\<lparr>redirect := if srv_isExit s then RDone else RWait\<rparr>))"

definition server_stop :: "mq_chat \<Rightarrow> mq_chat" where
  "server_stop s = s\<lparr>srv_isExit := True\<rparr>"

text \<open>\<open>main\<close> of a client up to its threads; \<open>stack\<close> is what the buffer of \<open>screen_reader\<close> holds.\<close>

definition mq_join :: "string \<Rightarrow> string \<Rightarrow> mq_chat \<Rightarrow> mq_chat option" where
  "mq_join input stack s = do {
     (line, rest) \<leftarrow> mq_getline input;
     name \<leftarrow> mq_username line;
     Some (s\<lparr>service_q := service_q s @ [\<lparr>username = name, mtext = []\<rparr>],
       mq_clients := mq_clients s @ [\<lparr>mc_name = name, mc_buff = stack, mc_exit = False, mc_listens = True,
         mc_received = []\<rparr>]\<rparr>)
   }"

text \<open>\<open>screen_reader\<close> and \<open>screen_printer\<close>: one turn of client \<open>k\<close>.\<close>

definition mq_say :: "nat \<Rightarrow> string \<Rightarrow> mq_chat \<Rightarrow> mq_chat option" where
  "mq_say k input s =
     (let c = mq_clients s ! k in
      if length (mq_clients s) \<le> k \<or> mc_exit c then None
      else do {
        (buff, rest) \<leftarrow> screen_loop input 0 (mc_buff c);
        (if cstr buff = ''quit'' @ nl
         then Some (s\<lparr>mq_clients := (mq_clients s)[k := c\<lparr>mc_exit := True, mc_buff := buff\<rparr>]\<rparr>)
         else if 256 \<le> length (cstr buff) then None
         else Some (s\<lparr>middle_q := middle_q s @ [\<lparr>username = mc_name c, mtext = cstr buff\<rparr>],
                mq_clients := (mq_clients s)[k := c\<lparr>mc_buff := buff[0 := NUL]\<rparr>]\<rparr>))
      })"

definition mq_print :: "nat \<Rightarrow> mq_chat \<Rightarrow> mq_chat option" where
  "mq_print k s =
     (let c = mq_clients s ! k in
      if length (mq_clients s) \<le> k \<or> \<not> mc_listens c then None
      else case client_q s of
        [] \<Rightarrow> None
      | m # q \<Rightarrow>
          Some (s\<lparr>client_q := q,
            mq_clients := (mq_clients s)[k := c\<lparr>mc_received := mc_received c @ [m],
              mc_listens := \<not> mc_exit c\<rparr>]\<rparr>))"

text \<open>The steps of the chat once everybody has joined.\<close>

inductive mq_talk :: "mq_chat \<Rightarrow> mq_chat \<Rightarrow> bool" where
  talk_take: "redirect_take s = Some t \<Longrightarrow> mq_talk s t"
| talk_send: "redirect_send s = Some t \<Longrightarrow> mq_talk s t"
| talk_say: "mq_say k input s = Some t \<Longrightarrow> mq_talk s t"
| talk_print: "mq_print k s = Some t \<Longrightarrow> mq_talk s t"
| talk_stop: "mq_talk s (server_stop s)"

text \<open>All steps.\<close>

inductive mq_step :: "mq_chat \<Rightarrow> mq_chat \<Rightarrow> bool" where
  mq_talks: "mq_talk s t \<Longrightarrow> mq_step s t"
| mq_joins: "mq_join input stack s = Some t \<Longrightarrow> length stack = 256 \<Longrightarrow> mq_step s t"
| mq_service: "service_turn s = Some t \<Longrightarrow> mq_step s t"

section \<open>Copies\<close>

definition copies :: "mq_msg \<Rightarrow> mq_chat \<Rightarrow> nat" where
  "copies m s = count_list (client_q s) m + sum_list (map (\<lambda>c. count_list (mc_received c) m) (mq_clients s))"

text \<open>How many copies of \<open>m\<close> the server has still to make.\<close>

definition pending_copies :: "mq_msg \<Rightarrow> mq_chat \<Rightarrow> nat" where
  "pending_copies m s = (case redirect s of RSend m' i \<Rightarrow> if m = m' then clients_number s - i else 0 | _ \<Rightarrow> 0)"

definition copies_inv :: "nat \<Rightarrow> mq_chat \<Rightarrow> bool" where
  "copies_inv n s \<longleftrightarrow> clients_number s = n
     \<and> (\<forall>m. n * count_list (srv_written s) m = copies m s + pending_copies m s)
     \<and> (\<forall>m i. redirect s = RSend m i \<longrightarrow> i \<le> n)"

text \<open>Everybody has joined, and nobody has said anything yet.\<close>

definition joined :: "nat \<Rightarrow> mq_chat \<Rightarrow> bool" where
  "joined n s \<longleftrightarrow> clients_number s = n \<and> client_q s = [] \<and> srv_written s = [] \<and> redirect s = RWait
     \<and> list_all (\<lambda>c. mc_received c = []) (mq_clients s)"

lemma sum_client_update:
  "k < length cs \<Longrightarrow> sum_list (map f (cs[k := c])) + f (cs ! k) = sum_list (map f cs) + (f c :: nat)"
  using elem_le_sum_list [of k "map f cs"] by (simp add: map_update sum_list_update)

lemma received_same:
  assumes "k < length cs" and "mc_received c = mc_received (cs ! k)"
  shows "sum_list (map (\<lambda>c. count_list (mc_received c) m) (cs[k := c])) =
    sum_list (map (\<lambda>c. count_list (mc_received c) m) cs)"
  using sum_client_update [OF assms(1), of "\<lambda>c. count_list (mc_received c) m" c] assms(2) by simp

lemma copies_take:
  assumes "copies_inv n s" and "redirect_take s = Some t"
  shows "copies_inv n t"
proof -
  obtain m q where "middle_q s = m # q" "redirect s = RWait"
    and t: "t = s\<lparr>middle_q := q, redirect := RSend m 0, srv_written := srv_written s @ [m]\<rparr>"
    using assms(2) by (auto simp: redirect_take_def split: if_splits list.splits)
  with assms(1) show ?thesis by (auto simp: copies_inv_def copies_def pending_copies_def)
qed

lemma copies_send:
  assumes "copies_inv n s" and "redirect_send s = Some t"
  shows "copies_inv n t"
proof -
  obtain m i where r: "redirect s = RSend m i"
    using assms(2) by (auto simp: redirect_send_def split: redirecting.splits)
  have all: "n * count_list (srv_written s) m' = copies m' s + pending_copies m' s" for m'
    using assms(1) by (simp add: copies_inv_def)
  have i: "i \<le> n" "clients_number s = n" using assms(1) r by (simp_all add: copies_inv_def)
  show ?thesis
  proof (cases "i < n")
    case True
    with assms(2) r i have t: "t = s\<lparr>client_q := client_q s @ [m], redirect := RSend m (i + 1)\<rparr>"
      by (simp add: redirect_send_def)
    have "copies m' t + pending_copies m' t = copies m' s + pending_copies m' s" for m'
      using True r i Suc_diff_Suc [OF True] by (simp add: t copies_def pending_copies_def)
    with all t i True show ?thesis by (simp add: copies_inv_def)
  next
    case False
    with assms(2) r i have t: "t = s\<lparr>redirect := if srv_isExit s then RDone else RWait\<rparr>"
      by (simp add: redirect_send_def)
    have "copies m' t + pending_copies m' t = copies m' s + pending_copies m' s" for m'
      using False r i by (simp add: t copies_def pending_copies_def)
    with all t i show ?thesis by (simp add: copies_inv_def)
  qed
qed

lemma copies_say:
  assumes "copies_inv n s" and "mq_say k input s = Some t"
  shows "copies_inv n t"
proof -
  let ?c = "mq_clients s ! k"
  have k: "k < length (mq_clients s)" using assms(2) by (auto simp: mq_say_def Let_def split: if_splits)
  obtain c where c: "mc_received c = mc_received ?c \<and> mq_clients t = (mq_clients s)[k := c] \<and> client_q t = client_q s
      \<and> srv_written t = srv_written s \<and> redirect t = redirect s \<and> clients_number t = clients_number s"
  proof -
    obtain buff rest where b: "screen_loop input 0 (mc_buff ?c) = Some (buff, rest)"
      using assms(2) by (auto simp: mq_say_def Let_def bind_eq_Some_conv split: if_splits)
    show ?thesis
    proof (cases "cstr buff = ''quit'' @ nl")
      case True
      with assms(2) b show ?thesis
        by (intro that [of "?c\<lparr>mc_exit := True, mc_buff := buff\<rparr>"]) (auto simp: mq_say_def Let_def split: if_splits)
    next
      case False
      with assms(2) b show ?thesis
        by (intro that [of "?c\<lparr>mc_buff := buff[0 := NUL]\<rparr>"]) (auto simp: mq_say_def Let_def split: if_splits)
    qed
  qed
  with k have "copies m t = copies m s" "pending_copies m t = pending_copies m s" for m
    using c by (cases "redirect s"; simp add: copies_def pending_copies_def received_same)+
  with assms(1) c show ?thesis by (simp add: copies_inv_def)
qed

lemma copies_print:
  assumes "copies_inv n s" and "mq_print k s = Some t"
  shows "copies_inv n t"
proof -
  let ?c = "mq_clients s ! k"
  obtain m q where q: "client_q s = m # q" and k: "k < length (mq_clients s)"
    and t: "t = s\<lparr>client_q := q, mq_clients := (mq_clients s)[k := ?c\<lparr>mc_received := mc_received ?c @ [m],
      mc_listens := \<not> mc_exit ?c\<rparr>]\<rparr>"
    using assms(2) by (auto simp: mq_print_def Let_def split: if_splits list.splits)
  have "copies m' t = copies m' s" for m'
    using sum_client_update [OF k, of "\<lambda>c. count_list (mc_received c) m'" "?c\<lparr>mc_received := mc_received ?c @ [m],
      mc_listens := \<not> mc_exit ?c\<rparr>"] q by (cases "m = m'") (simp_all add: t copies_def)
  with assms(1) t show ?thesis by (simp add: copies_inv_def pending_copies_def split: redirecting.splits)
qed

interpretation talk_machine: invariant_machine "joined n" mq_talk "copies_inv n" for n
proof unfold_locales
  show "copies_inv n s" if "joined n s" for s
  proof -
    have "sum_list (map (\<lambda>c. count_list (mc_received c) m) (mq_clients s)) = 0" for m
      using that by (auto simp: joined_def list_all_iff)
    with that show ?thesis by (simp add: copies_inv_def joined_def copies_def pending_copies_def)
  qed
  show "copies_inv n t" if "copies_inv n s" "mq_talk s t" for s t
    using that(2)
  proof cases
    case talk_stop
    with that(1) show ?thesis
      by (simp add: copies_inv_def server_stop_def copies_def pending_copies_def split: redirecting.splits)
  qed (use that(1) in \<open>blast intro: copies_take copies_send copies_say copies_print\<close>)+
qed

text \<open>A sequence of operations as a run.\<close>

fun mq_run :: "(mq_chat \<Rightarrow> mq_chat option) list \<Rightarrow> mq_chat \<Rightarrow> mq_chat option" where
  "mq_run [] s = Some s"
| "mq_run (m # ms) s = Option.bind (m s) (mq_run ms)"

lemma mq_run_steps:
  "mq_run ms s = Some t \<Longrightarrow> \<forall>m\<in>set ms. \<forall>s t. m s = Some t \<longrightarrow> r s t \<Longrightarrow> r\<^sup>*\<^sup>* s t"
proof (induction ms arbitrary: s)
  case (Cons m ms)
  then obtain u where u: "m s = Some u" "mq_run ms u = Some t" by (auto simp: bind_eq_Some_conv)
  with Cons.prems Cons.IH [OF u(2)] show ?case by (meson converse_rtranclp_into_rtranclp list.set_intros)
qed simp



section \<open>Reading lines\<close>

lemma screen_loop_step:
  "c \<noteq> CHR 0x0A \<Longrightarrow> i < 254 \<Longrightarrow> screen_loop (c # cs) i buff = screen_loop cs (i + 1) (buff[i := c])"
  by (subst screen_loop.simps) simp

lemma screen_loop_line:
  "CHR 0x0A \<notin> set l \<Longrightarrow> length buff = 256 \<Longrightarrow> i + length l < 254 \<Longrightarrow>
   screen_loop (l @ nl @ rest) i buff =
     Some (take i buff @ l @ [CHR 0x0A, NUL] @ drop (i + length l + 2) buff, rest)"
proof (induction l arbitrary: i buff)
  case Nil
  then have "take (i + 2) (buff[i := CHR 0x0A, Suc i := NUL]) = take i buff @ [CHR 0x0A, NUL]"
    by (simp add: take_Suc_conv_app_nth)
  moreover have "drop (i + 2) (buff[i := CHR 0x0A, Suc i := NUL]) = drop (i + 2) buff" by simp
  ultimately have "buff[i := CHR 0x0A, Suc i := NUL] = take i buff @ [CHR 0x0A, NUL] @ drop (i + 2) buff"
    by (metis append_take_drop_id append.assoc)
  with Nil show ?case by (subst screen_loop.simps) (simp add: nl_def)
next
  case (Cons c l)
  then have "screen_loop (l @ nl @ rest) (i + 1) (buff[i := c]) =
      Some (take (i + 1) (buff[i := c]) @ l @ [CHR 0x0A, NUL] @ drop (i + 1 + length l + 2) (buff[i := c]), rest)"
    by (intro Cons.IH) simp_all
  moreover have "take (i + 1) (buff[i := c]) = take i buff @ [c]"
    using Cons.prems by (simp add: take_Suc_conv_app_nth)
  moreover have "screen_loop ((c # l) @ nl @ rest) i buff = screen_loop (l @ nl @ rest) (i + 1) (buff[i := c])"
    using Cons.prems screen_loop_step [of c i "l @ nl @ rest" buff] by auto
  moreover have "drop (i + 1 + length l + 2) (buff[i := c]) = drop (i + length (c # l) + 2) buff" by simp
  ultimately show ?case by (simp only: append.assoc append.simps)
qed

lemma screen_loop_long:
  "CHR 0x0A \<notin> set l \<Longrightarrow> length buff = 256 \<Longrightarrow> i + length l = 254 \<Longrightarrow>
   screen_loop (l @ rest) i buff = Some (take i buff @ l @ [buff ! 254, NUL], rest)"
proof (induction l arbitrary: i buff)
  case Nil
  then have i: "i = 254" by simp
  have "buff[255 := NUL] = take 254 buff @ [buff ! 254, NUL]"
  proof -
    obtain t u where tu: "buff = t @ u" "length t = 254" "length u = 2"
      using that [of "take 254 buff" "drop 254 buff"] Nil.prems(2) by simp
    then obtain a b where "u = [a, b]" by (auto simp: length_Suc_conv numeral_2_eq_2)
    with tu show ?thesis by (simp add: list_update_append nth_append)
  qed
  with i show ?case by (subst screen_loop.simps) simp
next
  case (Cons c l)
  then have "screen_loop (l @ rest) (i + 1) (buff[i := c]) =
      Some (take (i + 1) (buff[i := c]) @ l @ [buff[i := c] ! 254, NUL], rest)"
    by (intro Cons.IH) simp_all
  moreover have "take (i + 1) (buff[i := c]) = take i buff @ [c]" "buff[i := c] ! 254 = buff ! 254"
    using Cons.prems by (simp_all add: take_Suc_conv_app_nth)
  moreover have "screen_loop ((c # l) @ rest) i buff = screen_loop (l @ rest) (i + 1) (buff[i := c])"
    using Cons.prems screen_loop_step [of c i "l @ rest" buff] by auto
  ultimately show ?case by (simp only: append.assoc append.simps)
qed

text \<open>Lines. A line of up to 253 characters typed into the chat is sent as it is. A longer one is cut
  at 254 characters, and what is sent ends with whatever byte the buffer held at that place. A
  name of 32 characters or more overflows the field of the message.\<close>

theorem lines_are_sent:
  assumes "CHR 0x0A \<notin> set l" and "NUL \<notin> set l" and "length buff = 256"
  shows "(length l < 254 \<longrightarrow> (\<exists>b. screen_loop (l @ nl @ rest) 0 buff = Some (b, rest) \<and> cstr b = l @ nl))
    \<and> (254 \<le> length l \<longrightarrow> (\<exists>b. screen_loop (l @ nl @ rest) 0 buff = Some (b, drop 254 l @ nl @ rest)
          \<and> cstr b = take 254 l @ (if buff ! 254 = NUL then [] else [buff ! 254])))
    \<and> (length l < 255 \<longrightarrow> (\<forall>stack s. (mq_join (l @ nl @ rest) stack s = None) = (32 \<le> length l)))"
proof (intro conjI impI allI)
  assume "length l < 254"
  then show "\<exists>b. screen_loop (l @ nl @ rest) 0 buff = Some (b, rest) \<and> cstr b = l @ nl"
    using screen_loop_line [OF assms(1,3), of 0 rest] assms(2) cstr_append_NUL [of "l @ nl"]
    by (simp add: nl_def NUL_def)
next
  assume long: "254 \<le> length l"
  then have "screen_loop (take 254 l @ drop 254 l @ nl @ rest) 0 buff =
      Some (take 0 buff @ take 254 l @ [buff ! 254, NUL], drop 254 l @ nl @ rest)"
    using assms by (intro screen_loop_long) (auto dest: in_set_takeD)
  moreover have "cstr (take 254 l @ [buff ! 254, NUL]) = take 254 l @ (if buff ! 254 = NUL then [] else [buff ! 254])"
  proof -
    have "NUL \<notin> set (take 254 l)" using assms(2) by (auto dest: in_set_takeD)
    then show ?thesis
      using cstr_append_NUL [of "take 254 l" "[NUL]"] cstr_append_NUL [of "take 254 l @ [buff ! 254]" "[]"]
      by (cases "buff ! 254 = NUL") auto
  qed
  ultimately show "\<exists>b. screen_loop (l @ nl @ rest) 0 buff = Some (b, drop 254 l @ nl @ rest)
      \<and> cstr b = take 254 l @ (if buff ! 254 = NUL then [] else [buff ! 254])"
    using append_take_drop_id [of 254 l] by (metis append.assoc append_Nil take_0)
next
  fix stack s
  assume "length l < 255"
  moreover have "mq_line (l @ nl @ rest) i b = Some (cstr (b @ l @ nl @ [NUL]), rest)" if "i + length l < 255" for i b
    using assms(1) that by (induction l arbitrary: i b) (auto simp: nl_def)
  moreover have "cstr (l @ nl @ [NUL]) = l @ nl"
    using assms(2) cstr_append_NUL [of "l @ nl" "[]"] by (simp add: nl_def NUL_def)
  ultimately have "mq_getline (l @ nl @ rest) = Some (l @ nl, rest)" by (simp add: mq_getline_def)
  then show "(mq_join (l @ nl @ rest) stack s = None) = (32 \<le> length l)"
    by (simp add: mq_join_def mq_username_def nl_def)
qed

theorem lines_are_sent_witness:
  "\<exists>b. screen_loop (''hi'' @ nl @ []) 0 (replicate 256 (CHR ''x'')) = Some (b, []) \<and> cstr b = ''hi'' @ nl"
  using lines_are_sent [of "''hi''" "replicate 256 (CHR ''x'')" "[]"] by (simp add: NUL_def)

section \<open>Finding the server\<close>

text \<open>The loop at the start of a client's \<open>main\<close>, on what the three calls of \<open>msgget\<close> return in each
  turn: the text written, and the descriptors it goes on with, none while it still
  waits.\<close>

definition ENOENT :: int where "ENOENT = 2"

fun two_found :: "int \<times> int \<times> int \<Rightarrow> bool" where
  "two_found (service, client, middle) \<longleftrightarrow> service = ENOENT \<or> client = ENOENT \<or> middle = ENOENT"

fun find_server :: "(int \<times> int \<times> int) list \<Rightarrow> string \<times> (int \<times> int \<times> int) option" where
  "find_server [] = ([], None)"
| "find_server (d # turns) =
     (if two_found d
      then (let (out, r) = find_server turns in (''error, waiting for server'' @ nl @ out, r))
      else ([], Some d))"

text \<open>A failed call returns -1 and is taken for a queue: without a server the client goes on at once. It
  waits exactly while one of the queues has the identifier 2.\<close>

theorem find_server_result:
  "find_server ((- 1, - 1, - 1) # turns) = ([], Some (- 1, - 1, - 1)) \<and>
   (snd (find_server turns) = None \<longleftrightarrow> list_all two_found turns)"
proof
  show "find_server ((- 1, - 1, - 1) # turns) = ([], Some (- 1, - 1, - 1))" by (simp add: ENOENT_def)
  show "snd (find_server turns) = None \<longleftrightarrow> list_all two_found turns"
    by (induction turns rule: find_server.induct) (auto split: prod.splits)
qed

end
