(* ===== verification/MyErrno.thy ===== *)
theory MyErrno
  imports CLib
begin

text \<open>
  \<open>my_errno.c\<close> of \<open>les14_threads\<close>: an \<open>errno\<close> that returns a text in a buffer of its own for each
  thread. Three threads are interleaved, down to the single bytes they store.
\<close>

section \<open>Threads and their buffers\<close>

text \<open>The bytes the cases of \<open>errno\<close> store, in their order.\<close>

definition errno_bytes :: "nat \<Rightarrow> string" where
  "errno_bytes no =
     (if no = 0 then ''case 0'' @ [NUL]
      else if no = 1 then ''case 1'' @ [NUL]
      else if no = 2 then ''case 2'' @ [NUL]
      else if no = 3 then ''case 3'' @ [NUL]
      else ''case D'' @ [NUL])"

text \<open>
  A thread: about to call \<open>errno(i)\<close>, storing byte \<open>j\<close> into the buffer it got, back from the call, or
  ended.
\<close>

datatype errno_pc = Calling nat | Storing nat nat nat | Printing nat nat | Ended

text \<open>
  The key of the thread-specific data exists once \<open>init_key\<close> has run; \<open>specific\<close> is what it holds for
  a thread; a buffer is named by its place in the order of the calls of \<open>malloc\<close>. What a thread
  prints is recorded with its index and the buffer.
\<close>

record errno_state =
  once :: bool
  specific :: "nat \<Rightarrow> nat option"
  buffers :: "string list"
  threads :: "errno_pc list"
  out :: "(nat \<times> string \<times> nat) list"

definition errno_init :: errno_state where
  "errno_init = \<lparr>once = False, specific = (\<lambda>t. None), buffers = [], threads = replicate 3 (Calling 0), out = []\<rparr>"

text \<open>
  \<open>errno\<close> up to its \<open>switch\<close>, for thread \<open>t\<close>; \<open>heap\<close> is what the memory from \<open>malloc\<close> holds.
  \<open>pthread_once\<close> runs \<open>init_key\<close> the first time.
\<close>

definition errno_buffer :: "nat \<Rightarrow> string \<Rightarrow> errno_state \<Rightarrow> nat \<times> errno_state" where
  "errno_buffer t heap s =
     (let s = (if once s then s else s\<lparr>once := True\<rparr>) in
      case specific s t of
        Some b \<Rightarrow> (b, s)
      | None \<Rightarrow>
          (let b = length (buffers s)
           in (b, s\<lparr>buffers := buffers s @ [heap], specific := (specific s)(t := Some b)\<rparr>)))"

text \<open>A step of thread \<open>t\<close>, which prints its index \<open>t + 1\<close>. Storing or reading outside is undefined.\<close>

definition errno_step_of :: "nat \<Rightarrow> string \<Rightarrow> errno_state \<Rightarrow> errno_state option" where
  "errno_step_of t heap s =
     (case threads s ! t of
        Calling i \<Rightarrow>
          (if i < 5
           then let (b, s) = errno_buffer t heap s in Some (s\<lparr>threads := (threads s)[t := Storing i b 0]\<rparr>)
           else Some (s\<lparr>threads := (threads s)[t := Ended]\<rparr>))
      | Storing i b j \<Rightarrow>
          (if j < length (errno_bytes i) then
             (if b < length (buffers s) \<and> j < length (buffers s ! b)
              then Some (s\<lparr>buffers := (buffers s)[b := (buffers s ! b)[j := errno_bytes i ! j]],
                     threads := (threads s)[t := Storing i b (j + 1)]\<rparr>)
              else None)
           else Some (s\<lparr>threads := (threads s)[t := Printing i b]\<rparr>))
      | Printing i b \<Rightarrow>
          (if b < length (buffers s) \<and> NUL \<in> set (buffers s ! b)
           then Some (s\<lparr>out := out s @ [(t + 1, cstr (buffers s ! b), b)],
                  threads := (threads s)[t := Calling (i + 1)]\<rparr>)
           else None)
      | Ended \<Rightarrow> None)"

inductive errno_step :: "errno_state \<Rightarrow> errno_state \<Rightarrow> bool" where
  errno_thread: "t < length (threads s) \<Longrightarrow> length heap = 250 \<Longrightarrow> errno_step_of t heap s = Some s' \<Longrightarrow> errno_step s s'"

section \<open>Invariant\<close>

definition texts :: "nat \<Rightarrow> string list" where
  "texts n = map (\<lambda>i. butlast (errno_bytes i)) [0..<n]"

text \<open>What thread \<open>t\<close> has printed, and how many calls it has finished.\<close>

definition printed :: "nat \<Rightarrow> errno_state \<Rightarrow> string list" where
  "printed t s = map (\<lambda>(i, txt, b). txt) (filter (\<lambda>(i, txt, b). i = t + 1) (out s))"

fun calls :: "errno_pc \<Rightarrow> nat" where
  "calls (Calling i) = i"
| "calls (Storing i b j) = i"
| "calls (Printing i b) = i"
| "calls Ended = 5"

definition thread_ok :: "errno_state \<Rightarrow> nat \<Rightarrow> bool" where
  "thread_ok s t \<longleftrightarrow>
     (case threads s ! t of
        Calling i \<Rightarrow> i \<le> 5
      | Storing i b j \<Rightarrow> i < 5 \<and> specific s t = Some b \<and> j \<le> 7 \<and> take j (buffers s ! b) = take j (errno_bytes i)
      | Printing i b \<Rightarrow> i < 5 \<and> specific s t = Some b \<and> take 7 (buffers s ! b) = errno_bytes i
      | Ended \<Rightarrow> True)
     \<and> printed t s = texts (calls (threads s ! t))"

definition errno_inv :: "errno_state \<Rightarrow> bool" where
  "errno_inv s \<longleftrightarrow> length (threads s) = 3 \<and> list_all (\<lambda>b. length b = 250) (buffers s)
     \<and> (\<forall>t b. specific s t = Some b \<longrightarrow> b < length (buffers s) \<and> t < 3)
     \<and> (\<forall>t u b. specific s t = Some b \<and> specific s u = Some b \<longrightarrow> t = u)
     \<and> (\<forall>b < length (buffers s). \<exists>t. specific s t = Some b)
     \<and> (\<forall>t < 3. thread_ok s t)"

lemma errno_bytes_length [simp]: "length (errno_bytes i) = 7"
  by (simp add: errno_bytes_def)

lemma errno_bytes_split: "errno_bytes i = butlast (errno_bytes i) @ [NUL] \<and> NUL \<notin> set (butlast (errno_bytes i))"
  by (auto simp: errno_bytes_def NUL_def)

lemma cstr_errno: "take 7 b = errno_bytes i \<Longrightarrow> cstr b = butlast (errno_bytes i) \<and> NUL \<in> set b"
proof -
  assume a: "take 7 b = errno_bytes i"
  then have "b = butlast (errno_bytes i) @ NUL # drop 7 b"
    using errno_bytes_split [of i] append_take_drop_id [of 7 b] by (metis append.assoc append_Cons append_Nil)
  then show ?thesis
    using errno_bytes_split [of i] by (metis cstr_append_NUL in_set_conv_decomp)
qed

text \<open>A step of one thread leaves the others alone.\<close>

lemma thread_ok_other:
  assumes "thread_ok s u" and "threads s' ! u = threads s ! u" and "specific s' u = specific s u"
    and "\<forall>b. specific s u = Some b \<longrightarrow> buffers s' ! b = buffers s ! b" and "printed u s' = printed u s"
  shows "thread_ok s' u"
  using assms by (cases "threads s ! u") (auto simp: thread_ok_def)

lemma errno_start_inv: "errno_inv errno_init"
proof -
  have "thread_ok errno_init t" if "t < 3" for t
    using that by (simp add: thread_ok_def errno_init_def printed_def texts_def del: replicate.simps)
  then show ?thesis by (simp add: errno_inv_def errno_init_def)
qed

lemma once_again: "once s \<Longrightarrow> s\<lparr>once := True\<rparr> = s"
  by (cases s) simp

lemma errno_call_inv:
  assumes inv: "errno_inv s" and t: "t < 3" and heap: "length heap = 250" and pc: "threads s ! t = Calling i" "i < 5"
    and s': "errno_step_of t heap s = Some s'"
  shows "errno_inv s'"
proof (cases "specific s t")
  case (Some b)
  with pc s' have e: "s' = s\<lparr>once := True, threads := (threads s)[t := Storing i b 0]\<rparr>"
    by (cases "once s") (simp_all add: errno_step_of_def errno_buffer_def Let_def once_again)
  have "thread_ok s' u" if "u < 3" for u
  proof (cases "u = t")
    case True
    with inv t pc Some e show ?thesis by (auto simp: errno_inv_def thread_ok_def printed_def)
  next
    case False
    with inv that e show ?thesis
      by (intro thread_ok_other [of s u s']) (auto simp: errno_inv_def printed_def)
  qed
  with inv e show ?thesis by (simp add: errno_inv_def)
next
  case None
  let ?b = "length (buffers s)"
  from None pc s' have e: "s' = s\<lparr>once := True, buffers := buffers s @ [heap], specific := (specific s)(t := Some ?b),
      threads := (threads s)[t := Storing i ?b 0]\<rparr>"
    by (cases "once s") (simp_all add: errno_step_of_def errno_buffer_def Let_def once_again)
  have old: "specific s u = Some b \<Longrightarrow> b < ?b \<and> u < 3" for u b using inv by (simp add: errno_inv_def)
  have "thread_ok s' u" if "u < 3" for u
  proof (cases "u = t")
    case True
    with inv t pc e show ?thesis by (auto simp: errno_inv_def thread_ok_def printed_def)
  next
    case False
    with inv that e show ?thesis
      using old by (intro thread_ok_other [of s u s']) (auto simp: errno_inv_def printed_def nth_append)
  qed
  moreover have "\<exists>u. specific s' u = Some b" if "b < length (buffers s')" for b
  proof (cases "b = ?b")
    case False
    with that e inv obtain u where "specific s u = Some b" by (auto simp: errno_inv_def less_Suc_eq)
    with None e show ?thesis by (intro exI [of _ u]) auto
  qed (use e in auto)
  moreover have "v = w" if "specific s' v = Some b" "specific s' w = Some b" for v w b
  proof -
    have sp: "specific s' x = (if x = t then Some ?b else specific s x)" for x using e by simp
    have "specific s x = Some y \<Longrightarrow> specific s z = Some y \<Longrightarrow> x = z" for x y z
      using inv unfolding errno_inv_def by blast
    with that old [of v b] old [of w b] show ?thesis
      by (cases "v = t"; cases "w = t") (auto simp: sp)
  qed
  moreover have "b < length (buffers s') \<and> u < 3" if "specific s' u = Some b" for u b
    using that e old t by (fastforce split: if_splits)
  moreover have "list_all (\<lambda>b. length b = 250) (buffers s')" "length (threads s') = 3"
    using inv e heap by (simp_all add: errno_inv_def)
  ultimately show ?thesis unfolding errno_inv_def by blast
qed

lemma errno_store_inv:
  assumes inv: "errno_inv s" and t: "t < 3" and pc: "threads s ! t = Storing i b j"
  shows "\<exists>s'. errno_step_of t heap s = Some s' \<and> errno_inv s'"
proof -
  have ok: "thread_ok s t" using inv t by (simp add: errno_inv_def)
  then have b: "specific s t = Some b" "i < 5" "j \<le> 7" "take j (buffers s ! b) = take j (errno_bytes i)"
    using pc by (simp_all add: thread_ok_def)
  then have len: "b < length (buffers s)" "length (buffers s ! b) = 250"
    using inv by (auto simp: errno_inv_def list_all_length)
  show ?thesis
  proof (cases "j < 7")
    case True
    let ?s = "s\<lparr>buffers := (buffers s)[b := (buffers s ! b)[j := errno_bytes i ! j]],
      threads := (threads s)[t := Storing i b (j + 1)]\<rparr>"
    have e: "errno_step_of t heap s = Some ?s" using pc True len by (simp add: errno_step_of_def)
    have "thread_ok ?s u" if "u < 3" for u
    proof (cases "u = t")
      case [simp]: True
      have "take (Suc j) ((buffers s ! b)[j := errno_bytes i ! j]) = take (Suc j) (errno_bytes i)"
        using b(4) \<open>j < 7\<close> len(2) by (simp add: take_Suc_conv_app_nth)
      with ok b pc inv t len \<open>j < 7\<close> show ?thesis by (simp add: thread_ok_def printed_def errno_inv_def)
    next
      case False
      with inv that b(1) show ?thesis
        by (intro thread_ok_other [of s u ?s]) (auto simp: errno_inv_def printed_def nth_list_update)
    qed
    with inv len have "errno_inv ?s" by (simp add: errno_inv_def list_all_length nth_list_update)
    with e show ?thesis by blast
  next
    case False
    let ?s = "s\<lparr>threads := (threads s)[t := Printing i b]\<rparr>"
    have e: "errno_step_of t heap s = Some ?s" using pc False by (simp add: errno_step_of_def)
    have "thread_ok ?s u" if "u < 3" for u
    proof (cases "u = t")
      case True
      with ok b pc inv t False show ?thesis by (simp add: thread_ok_def printed_def errno_inv_def)
    next
      case False
      with inv that show ?thesis by (intro thread_ok_other [of s u ?s]) (auto simp: errno_inv_def printed_def)
    qed
    with inv have "errno_inv ?s" by (simp add: errno_inv_def)
    with e show ?thesis by blast
  qed
qed

lemma errno_print_inv:
  assumes inv: "errno_inv s" and t: "t < 3" and pc: "threads s ! t = Printing i b"
  shows "\<exists>s'. errno_step_of t heap s = Some s' \<and> errno_inv s'"
proof -
  have ok: "thread_ok s t" using inv t by (simp add: errno_inv_def)
  then have b: "specific s t = Some b" "i < 5" "take 7 (buffers s ! b) = errno_bytes i" "printed t s = texts i"
    using pc by (simp_all add: thread_ok_def)
  then have len: "b < length (buffers s)" using inv by (auto simp: errno_inv_def)
  let ?s = "s\<lparr>out := out s @ [(t + 1, cstr (buffers s ! b), b)], threads := (threads s)[t := Calling (i + 1)]\<rparr>"
  have e: "errno_step_of t heap s = Some ?s"
    using pc len cstr_errno [OF b(3)] by (simp add: errno_step_of_def)
  have "thread_ok ?s u" if "u < 3" for u
  proof (cases "u = t")
    case True
    have "printed t ?s = texts (Suc i)"
      using b(4) cstr_errno [OF b(3)] by (simp add: printed_def texts_def)
    with True b inv t show ?thesis by (simp add: thread_ok_def errno_inv_def)
  next
    case False
    with inv that show ?thesis by (intro thread_ok_other [of s u ?s]) (auto simp: errno_inv_def printed_def)
  qed
  with inv have "errno_inv ?s" by (simp add: errno_inv_def)
  with e show ?thesis by blast
qed

lemma errno_end_inv:
  assumes inv: "errno_inv s" and t: "t < 3" and pc: "threads s ! t = Calling i" "\<not> i < 5"
  shows "\<exists>s'. errno_step_of t heap s = Some s' \<and> errno_inv s'"
proof -
  let ?s = "s\<lparr>threads := (threads s)[t := Ended]\<rparr>"
  have e: "errno_step_of t heap s = Some ?s" using pc by (simp add: errno_step_of_def)
  have "thread_ok ?s u" if "u < 3" for u
  proof (cases "u = t")
    case True
    have "thread_ok s t" using inv t by (simp add: errno_inv_def)
    with pc have "i = 5" "printed t s = texts 5" by (auto simp: thread_ok_def)
    with True inv t show ?thesis by (simp add: thread_ok_def errno_inv_def printed_def)
  next
    case False
    with inv that show ?thesis by (intro thread_ok_other [of s u ?s]) (auto simp: errno_inv_def printed_def)
  qed
  with inv have "errno_inv ?s" by (simp add: errno_inv_def)
  with e show ?thesis by blast
qed

lemma errno_progress:
  assumes inv: "errno_inv s" and t: "t < 3" and heap: "length heap = 250" and run: "threads s ! t \<noteq> Ended"
  shows "\<exists>s'. errno_step_of t heap s = Some s' \<and> errno_inv s'"
proof (cases "threads s ! t")
  case (Calling i)
  show ?thesis
  proof (cases "i < 5")
    case True
    then have "\<exists>s'. errno_step_of t heap s = Some s'"
      using Calling by (simp add: errno_step_of_def split: prod.splits)
    with errno_call_inv [OF inv t heap Calling True] show ?thesis by blast
  qed (use errno_end_inv [OF inv t Calling] in blast)
next
  case (Storing i b j)
  then show ?thesis by (rule errno_store_inv [OF inv t])
next
  case (Printing i b)
  then show ?thesis by (rule errno_print_inv [OF inv t])
qed (use run in simp)

interpretation errno_machine: invariant_machine "\<lambda>s. s = errno_init" errno_step errno_inv
proof unfold_locales
  show "errno_inv s" if "s = errno_init" for s using that errno_start_inv by simp
  show "errno_inv s'" if "errno_inv s" "errno_step s s'" for s s'
    using that(2)
  proof cases
    case (errno_thread t heap)
    then have "t < 3" "threads s ! t \<noteq> Ended" using that(1) by (auto simp: errno_inv_def errno_step_of_def)
    with errno_thread errno_progress [OF that(1)] show ?thesis by fastforce
  qed
qed

text \<open>C14: an \<open>errno\<close> for each thread. In every interleaving, down to single bytes, no step of a thread is
  undefined, no two threads have the same buffer, and each thread prints exactly its own texts,
  in order. There are never more than three buffers, and none is ever freed.\<close>

theorem errno_per_thread:
  assumes "reachable (\<lambda>s. s = errno_init) errno_step s"
  shows "(\<forall>t < 3. threads s ! t \<noteq> Ended \<longrightarrow> errno_step_of t (replicate 250 c) s \<noteq> None)
    \<and> (\<forall>t u b. specific s t = Some b \<and> specific s u = Some b \<longrightarrow> t = u)
    \<and> (\<forall>t < 3. printed t s = take (calls (threads s ! t)) [''case 0'', ''case 1'', ''case 2'', ''case 3'', ''case D''])
    \<and> length (buffers s) \<le> 3"
proof -
  have inv: "errno_inv s" by (rule errno_machine.inv_reachable [OF assms])
  have five: "texts 5 = [''case 0'', ''case 1'', ''case 2'', ''case 3'', ''case D'']"
    by (simp add: texts_def errno_bytes_def upt_conv_Cons)
  have "printed t s = take (calls (threads s ! t)) (texts 5)" if "t < 3" for t
  proof -
    have ok: "thread_ok s t" using inv that by (simp add: errno_inv_def)
    then have "calls (threads s ! t) \<le> 5" by (cases "threads s ! t") (simp_all add: thread_ok_def)
    then have "texts (calls (threads s ! t)) = take (calls (threads s ! t)) (texts 5)"
      by (simp add: texts_def take_map)
    with ok show ?thesis by (simp add: thread_ok_def)
  qed
  moreover have "length (buffers s) \<le> 3"
  proof -
    have "{..<length (buffers s)} \<subseteq> (\<lambda>t. the (specific s t)) ` {..<3}"
    proof
      fix b assume "b \<in> {..<length (buffers s)}"
      then obtain t where t: "specific s t = Some b" using inv unfolding errno_inv_def by blast
      then have "t < 3" using inv unfolding errno_inv_def by blast
      with t show "b \<in> (\<lambda>t. the (specific s t)) ` {..<3}" by (intro image_eqI [of _ _ t]) simp_all
    qed
    from card_mono [OF _ this] show ?thesis
      using card_image_le [of "{..<3 :: nat}" "\<lambda>t. the (specific s t)"] by simp
  qed
  moreover have "errno_step_of t (replicate 250 c) s \<noteq> None" if "t < 3" "threads s ! t \<noteq> Ended" for t
    using errno_progress [OF inv that(1) _ that(2), of "replicate 250 c"] by auto
  ultimately show ?thesis using inv unfolding five errno_inv_def by blast
qed

theorem errno_per_thread_witness: "errno_step_of 0 (replicate 250 (CHR ''x'')) errno_init \<noteq> None"
proof -
  have "threads errno_init ! 0 \<noteq> Ended" by (simp add: errno_init_def)
  with errno_per_thread [OF reach_start [of "\<lambda>s. s = errno_init" errno_init errno_step, OF refl], of "CHR ''x''"]
  show ?thesis by simp
qed

end
