(* ===== verification/Calculators.thy ===== *)
theory Calculators
  imports CLib
begin

text \<open>
  The calculators of \<open>les1_calculator\<close>, \<open>les8_static_libs\<close> and \<open>les9_dynamic_libs\<close>. The arithmetic of
  \<open>float\<close> is a parameter, a record of its operations, as is what \<open>scanf\<close> reads.
\<close>

section \<open>The operations\<close>

text \<open>
  \<open>flog\<close> and \<open>ddiv\<close> are \<open>log\<close> and division in double precision, \<open>to_float\<close> and \<open>to_int\<close> the
  conversions of C.
\<close>

record ('f, 'd) floats =
  fadd :: "'f \<Rightarrow> 'f \<Rightarrow> 'f"
  fsub :: "'f \<Rightarrow> 'f \<Rightarrow> 'f"
  fmul :: "'f \<Rightarrow> 'f \<Rightarrow> 'f"
  fdiv :: "'f \<Rightarrow> 'f \<Rightarrow> 'f"
  ddiv :: "'d \<Rightarrow> 'd \<Rightarrow> 'd"
  flog :: "'d \<Rightarrow> 'd"
  fpow :: "int \<Rightarrow> int \<Rightarrow> 'd"
  to_float :: "'d \<Rightarrow> 'f"
  to_double :: "'f \<Rightarrow> 'd"
  int_double :: "int \<Rightarrow> 'd"
  to_int :: "'f \<Rightarrow> int"
  int_float :: "int \<Rightarrow> 'f"

text \<open>\<open>les1_calculator\<close>.\<close>

definition sum1 :: "('f, 'd) floats \<Rightarrow> 'f \<Rightarrow> 'f \<Rightarrow> 'f" where "sum1 F a b = fadd F a b"
definition sub1 :: "('f, 'd) floats \<Rightarrow> 'f \<Rightarrow> 'f \<Rightarrow> 'f" where "sub1 F a b = fsub F a b"
definition divide1 :: "('f, 'd) floats \<Rightarrow> 'f \<Rightarrow> 'f \<Rightarrow> 'f" where "divide1 F a b = fdiv F a b"
definition mul1 :: "('f, 'd) floats \<Rightarrow> 'f \<Rightarrow> 'f \<Rightarrow> 'f" where "mul1 F a b = fdiv F a b"

definition op_log1 :: "('f, 'd) floats \<Rightarrow> int \<Rightarrow> 'f \<Rightarrow> 'f" where
  "op_log1 F base v = to_float F (ddiv F (flog F (int_double F base)) (flog F (to_double F v)))"

text \<open>
  \<open>main\<close>: the result printed, and whether the operation was unknown; \<open>stack\<close> is the value of the
  uninitialised \<open>result\<close>. \<open>op_log\<close> is called by a declaration that differs from its definition,
  which is undefined.
\<close>

definition calc1 :: "('f, 'd) floats \<Rightarrow> 'f \<Rightarrow> 'f \<Rightarrow> char \<Rightarrow> 'f \<Rightarrow> ('f \<times> bool) option" where
  "calc1 F stack operandA operation operandB =
     (if operation = CHR ''+'' then Some (sum1 F operandA operandB, False)
      else if operation = CHR ''-'' then Some (sub1 F operandA operandB, False)
      else if operation = CHR ''/'' then Some (divide1 F operandA operandB, False)
      else if operation = CHR ''*'' then Some (mul1 F operandA operandB, False)
      else if operation = CHR ''l'' then None
      else if operation = CHR ''p'' then Some (to_float F (fpow F 4 7), False)
      else Some (stack, True))"

text \<open>\<open>les8_static_libs\<close>.\<close>

definition sum8 :: "('f, 'd) floats \<Rightarrow> 'f \<Rightarrow> 'f \<Rightarrow> 'f" where "sum8 F a b = fadd F a b"
definition sub8 :: "('f, 'd) floats \<Rightarrow> 'f \<Rightarrow> 'f \<Rightarrow> 'f" where "sub8 F a b = fsub F a b"
definition divide8 :: "('f, 'd) floats \<Rightarrow> 'f \<Rightarrow> 'f \<Rightarrow> 'f" where "divide8 F a b = fdiv F a b"
definition mul8 :: "('f, 'd) floats \<Rightarrow> 'f \<Rightarrow> 'f \<Rightarrow> 'f" where "mul8 F a b = fmul F a b"

definition op_log8 :: "('f, 'd) floats \<Rightarrow> int \<Rightarrow> 'f \<Rightarrow> 'f" where
  "op_log8 F base v =
     fdiv F (to_float F (flog F (int_double F base))) (to_float F (flog F (to_double F v)))"

text \<open>\<open>menu\<close>: the result, and whether the program is to end.\<close>

definition menu8 :: "('f, 'd) floats \<Rightarrow> int \<Rightarrow> 'f \<Rightarrow> 'f \<Rightarrow> 'f \<times> bool" where
  "menu8 F operation operandA operandB =
     (if operation \<ge> 6 then (int_float F (-1), True)
      else
        (if operation = 1 then sum8 F operandA operandB
         else if operation = 2 then sub8 F operandA operandB
         else if operation = 3 then divide8 F operandA operandB
         else if operation = 4 then mul8 F operandA operandB
         else if operation = 5 then op_log8 F (to_int F operandA) operandB
         else int_float F 0, False))"

text \<open>\<open>main\<close>: the results printed for a sequence of choices, and whether the loop has ended.\<close>

fun calc8 :: "('f, 'd) floats \<Rightarrow> (int \<times> 'f \<times> 'f) list \<Rightarrow> 'f list \<times> bool" where
  "calc8 F [] = ([], False)"
| "calc8 F ((operation, a, b) # is) =
     (let (result, isInterrupted) = menu8 F operation a b in
      if isInterrupted then ([result], True)
      else let (rs, e) = calc8 F is in (result # rs, e))"

text \<open>\<open>les9_dynamic_libs\<close>: the functions of the libraries.\<close>

definition sum9 :: "('f, 'd) floats \<Rightarrow> 'f \<Rightarrow> 'f \<Rightarrow> 'f" where "sum9 F a b = fadd F a b"
definition sub9 :: "('f, 'd) floats \<Rightarrow> 'f \<Rightarrow> 'f \<Rightarrow> 'f" where "sub9 F a b = fsub F a b"
definition divide9 :: "('f, 'd) floats \<Rightarrow> 'f \<Rightarrow> 'f \<Rightarrow> 'f" where "divide9 F a b = fdiv F a b"
definition mul9 :: "('f, 'd) floats \<Rightarrow> 'f \<Rightarrow> 'f \<Rightarrow> 'f" where "mul9 F a b = fmul F a b"

definition op_log9 :: "('f, 'd) floats \<Rightarrow> 'f \<Rightarrow> 'f \<Rightarrow> 'f" where
  "op_log9 F base v =
     fdiv F (to_float F (flog F (to_double F base))) (to_float F (flog F (to_double F v)))"

section \<open>The list of libraries\<close>

text \<open>
  \<open>dlopen\<close>, \<open>dlsym\<close>: a library is found or not; when it is, it has a description and a function.
\<close>

type_synonym 'f library = "string \<times> ('f \<Rightarrow> 'f \<Rightarrow> 'f)"

definition is_separator :: "char \<Rightarrow> bool" where
  "is_separator c \<longleftrightarrow> c = CHR '','' \<or> c = CHR '' '' \<or> c = NUL"

text \<open>
  The loop over \<open>pluginsList\<close>, a buffer of 1024 bytes: \<open>i\<close>, the name collected in \<open>buff\<close> (64 bytes)
  and the libraries opened so far (\<open>dlDesc\<close> has 16 places). Behind a separator the next byte is
  taken into the name whatever it is.
\<close>

function plugin_loop ::
  "(string \<Rightarrow> 'f library option) \<Rightarrow> string \<Rightarrow> nat \<Rightarrow> string \<Rightarrow> 'f library list \<Rightarrow> 'f library list option" where
  "plugin_loop dl pl i name libs =
     (if length pl \<le> i then None
      else if is_separator (pl ! i) then
        (if 64 \<le> length name \<or> 16 \<le> length libs then None
         else
           let libs = (case dl (cstr (name @ [NUL])) of None \<Rightarrow> libs | Some l \<Rightarrow> libs @ [l]) in
           if pl ! i = NUL then Some libs
           else if length pl \<le> i + 1 then None
           else plugin_loop dl pl (i + 2) [pl ! (i + 1)] libs)
      else if 64 \<le> length name then None
      else plugin_loop dl pl (i + 1) (name @ [pl ! i]) libs)"
  by pat_completeness auto
termination by (relation "measure (\<lambda>(dl, pl, i, n, ls). length pl - i)") auto

declare plugin_loop.simps [simp del]

definition load_plugins :: "(string \<Rightarrow> 'f library option) \<Rightarrow> string \<Rightarrow> 'f library list option" where
  "load_plugins dl pluginsList = plugin_loop dl pluginsList 0 [] []"

text \<open>One turn of the menu: \<open>None\<close> when the program ends.\<close>

definition calc9_turn :: "'f library list \<Rightarrow> int \<Rightarrow> 'f \<Rightarrow> 'f \<Rightarrow> 'f option" where
  "calc9_turn libs operation operandA operandB =
     (if operation > int (length libs) \<or> operation \<le> 0 then None
      else Some (snd (libs ! nat (operation - 1)) operandA operandB))"

text \<open>What the menu shows.\<close>

definition menu9 :: "'f library list \<Rightarrow> string list" where
  "menu9 libs = map (\<lambda>k. dec (int (k + 1)) @ '') '' @ fst (libs ! k) @ nl) [0..<length libs]"

section \<open>Which libraries are loaded\<close>

definition plugin_name :: "string \<Rightarrow> bool" where
  "plugin_name w \<longleftrightarrow> w \<noteq> [] \<and> length w < 64 \<and> list_all (\<lambda>c. \<not> is_separator c) w"

fun commas :: "string list \<Rightarrow> string" where
  "commas [] = []"
| "commas (w # ws) = '','' @ w @ commas ws"

lemma separators [simp]: "is_separator (CHR '','')" "is_separator NUL"
  by (simp_all add: is_separator_def)

lemma comma_not_NUL [simp]: "CHR '','' \<noteq> NUL"
  by (simp add: NUL_def)

lemma plugin_word:
  "list_all (\<lambda>c. \<not> is_separator c) v \<Longrightarrow> length n + length v \<le> 64 \<Longrightarrow>
   plugin_loop dl (pre @ v @ post) (length pre) n libs =
     plugin_loop dl (pre @ v @ post) (length pre + length v) (n @ v) libs"
proof (induction v arbitrary: pre n)
  case (Cons c v)
  have "plugin_loop dl (pre @ (c # v) @ post) (length pre) n libs =
      plugin_loop dl ((pre @ [c]) @ v @ post) (length (pre @ [c])) (n @ [c]) libs"
    using Cons.prems by (subst plugin_loop.simps) (simp add: nth_append)
  also have "\<dots> = plugin_loop dl ((pre @ [c]) @ v @ post) (length (pre @ [c]) + length v) ((n @ [c]) @ v) libs"
    using Cons.prems by (intro Cons.IH) simp_all
  finally show ?case by simp
qed simp

lemma name_is_string: "plugin_name w \<Longrightarrow> cstr (w @ [NUL]) = w"
proof -
  assume "plugin_name w"
  then have "NUL \<notin> set w" by (auto simp: plugin_name_def list_all_iff)
  then show ?thesis using cstr_append_NUL [of w "[]"] by simp
qed

lemma plugin_names:
  "plugin_name (n @ v) \<Longrightarrow> list_all plugin_name ws \<Longrightarrow> length libs + length ws < 16 \<Longrightarrow>
   plugin_loop dl (pre @ v @ commas ws @ NUL # g) (length pre) n libs =
     Some (libs @ List.map_filter dl ((n @ v) # ws))"
proof (induction ws arbitrary: pre n v libs)
  case Nil
  have "plugin_loop dl (pre @ v @ commas [] @ NUL # g) (length pre) n libs =
      plugin_loop dl (pre @ v @ NUL # g) (length pre + length v) (n @ v) libs"
    using Nil.prems(1) plugin_word [of v n dl pre "NUL # g" libs] by (simp add: plugin_name_def)
  also have "\<dots> = Some (case dl (n @ v) of None \<Rightarrow> libs | Some l \<Rightarrow> libs @ [l])"
    using Nil.prems name_is_string [of "n @ v"]
    by (subst plugin_loop.simps) (simp add: plugin_name_def nth_append Let_def)
  finally show ?case by (simp add: List.map_filter_def split: option.split)
next
  case (Cons w ws)
  obtain c w' where w: "w = c # w'" using Cons.prems(2) by (cases w) (auto simp: plugin_name_def)
  let ?libs = "case dl (n @ v) of None \<Rightarrow> libs | Some l \<Rightarrow> libs @ [l]"
  have "plugin_loop dl (pre @ v @ commas (w # ws) @ NUL # g) (length pre) n libs =
      plugin_loop dl (pre @ v @ '','' @ w @ commas ws @ NUL # g) (length pre + length v) (n @ v) libs"
    using Cons.prems(1) plugin_word [of v n dl pre "'','' @ w @ commas ws @ NUL # g" libs]
    by (simp add: plugin_name_def)
  also have "\<dots> = plugin_loop dl ((pre @ v @ '','' @ [c]) @ w' @ commas ws @ NUL # g)
      (length (pre @ v @ '','' @ [c])) [c] ?libs"
    using Cons.prems name_is_string [of "n @ v"] w
    by (subst plugin_loop.simps) (simp add: plugin_name_def nth_append Let_def)
  also have "\<dots> = Some (?libs @ List.map_filter dl (([c] @ w') # ws))"
    using Cons.prems w by (intro Cons.IH) (simp_all split: option.splits)
  finally show ?case using w by (simp add: List.map_filter_def split: option.split)
qed

lemma plugin_garbage:
  "list_all (\<lambda>c. \<not> is_separator c) (drop i pl) \<Longrightarrow> plugin_loop dl pl i n libs = None"
proof (induction "length pl - i" arbitrary: i n)
  case 0
  then show ?case by (subst plugin_loop.simps) simp
next
  case (Suc k)
  then have i: "i < length pl" by simp
  then have "drop i pl = pl ! i # drop (i + 1) pl" by (simp add: Cons_nth_drop_Suc)
  with Suc.prems have "\<not> is_separator (pl ! i)" "list_all (\<lambda>c. \<not> is_separator c) (drop (i + 1) pl)" by simp_all
  with i Suc.hyps show ?case by (subst plugin_loop.simps) simp
qed

text \<open>Plugins. For up to 16 proper names separated by single commas, exactly the libraries that
  are found are loaded, in order, and number \<open>k\<close> of the menu calls the \<open>k\<close>-th of them. A comma
  behind the last name takes the terminator for the first character of another name, and the
  loop runs on into what follows.\<close>

theorem plugins_loaded:
  assumes "plugin_name w" and "list_all plugin_name ws" and "length ws < 16"
  shows "load_plugins dl (w @ commas ws @ NUL # g) = Some (List.map_filter dl (w # ws))
    \<and> (\<forall>k < length (List.map_filter dl (w # ws)).
        calc9_turn (List.map_filter dl (w # ws)) (int k + 1) a b = Some (snd (List.map_filter dl (w # ws) ! k) a b))
    \<and> (list_all (\<lambda>c. \<not> is_separator c) g \<longrightarrow> load_plugins dl (w @ '','' @ NUL # g) = None)"
proof -
  have "plugin_loop dl (w @ '','' @ NUL # g) 0 [] [] = plugin_loop dl (w @ '','' @ NUL # g) (length w) w []"
    using assms(1) plugin_word [of w "[]" dl "[]" "'','' @ NUL # g" "[]"] by (simp add: plugin_name_def)
  moreover have "plugin_loop dl (w @ '','' @ NUL # g) (length w) w [] =
      plugin_loop dl (w @ '','' @ NUL # g) (length w + 2) [NUL] (case dl w of None \<Rightarrow> [] | Some l \<Rightarrow> [l])"
    using assms(1) name_is_string [of w]
    by (subst plugin_loop.simps) (simp add: plugin_name_def nth_append Let_def cong: option.case_cong split: option.split)
  ultimately have "load_plugins dl (w @ '','' @ NUL # g) = None" if "list_all (\<lambda>c. \<not> is_separator c) g"
    using that plugin_garbage [of "length w + 2" "w @ '','' @ NUL # g"] by (simp add: load_plugins_def)
  then show ?thesis
    using plugin_names [of "[]" w ws "[]" dl "[]" g] assms by (simp add: load_plugins_def calc9_turn_def)
qed

theorem plugins_loaded_witness:
  "load_plugins (\<lambda>n. if n = ''a'' then Some (''A'', (+) :: int \<Rightarrow> int \<Rightarrow> int) else None) (''a,b'' @ [NUL])
     = Some [(''A'', (+))]"
proof -
  have ok: "plugin_name ''a''" "list_all plugin_name [''b'']"
    by (simp_all add: plugin_name_def is_separator_def NUL_def)
  from plugins_loaded [OF ok, of "\<lambda>n. if n = ''a'' then Some (''A'', (+) :: int \<Rightarrow> int \<Rightarrow> int) else None" "[]"]
  show ?thesis by (simp add: List.map_filter_def)
qed

text \<open>The three calculators. For the first four operations the menus of \<open>les8\<close> and, with the
  libraries in that order, of \<open>les9\<close> give the same results. The calculator of \<open>les1\<close> gives them for
  three; its multiplication divides. An operation it does not know prints whatever the variable
  held, and the menu of \<open>les8\<close> ends at the first choice from 6 on, printing -1.\<close>

theorem calculators_agree:
  "(\<forall>k\<in>{1..4}. calc9_turn [(d1, sum9 F), (d2, sub9 F), (d3, divide9 F), (d4, mul9 F)] k a b = Some (fst (menu8 F k a b)))
   \<and> calc1 F stack a (CHR ''+'') b = Some (fst (menu8 F 1 a b), False)
   \<and> calc1 F stack a (CHR ''-'') b = Some (fst (menu8 F 2 a b), False)
   \<and> calc1 F stack a (CHR ''/'') b = Some (fst (menu8 F 3 a b), False)
   \<and> calc1 F stack a (CHR ''*'') b = Some (fst (menu8 F 3 a b), False)
   \<and> (c \<notin> set ''+-/*lp'' \<longrightarrow> calc1 F stack a c b = Some (stack, True))
   \<and> (list_all (\<lambda>(k, x, y). k < 6) is \<and> 6 \<le> k \<longrightarrow>
        calc8 F (is @ (k, a, b) # rest) = (map (\<lambda>(k, x, y). fst (menu8 F k x y)) is @ [int_float F (-1)], True))"
proof -
  have four: "{1..4 :: int} = {1, 2, 3, 4}" by auto
  have "calc8 F (is @ (k, a, b) # rest) = (map (\<lambda>(k, x, y). fst (menu8 F k x y)) is @ [int_float F (-1)], True)"
    if "list_all (\<lambda>(k, x, y). k < 6) is" "6 \<le> k"
    using that by (induction "is") (auto simp: menu8_def)
  then show ?thesis
    by (auto simp: four calc9_turn_def menu8_def sum9_def sub9_def divide9_def mul9_def sum8_def sub8_def
        divide8_def mul8_def calc1_def sum1_def sub1_def divide1_def mul1_def)
qed

theorem calculators_agree_witness:
  "let F = \<lparr>fadd = (+), fsub = (-), fmul = (*), fdiv = (div), ddiv = (div), flog = id, fpow = (\<lambda>x y. x ^ nat y),
        to_float = id, to_double = id, int_double = id, to_int = id, int_float = id\<rparr> :: (int, int) floats
   in calc1 F 0 6 (CHR ''*'') 3 = Some (fst (menu8 F 3 6 3), False) \<and> calc1 F 7 6 (CHR ''?'') 3 = Some (7, True)"
  unfolding Let_def by (intro conjI) (rule calculators_agree [THEN conjunct2, THEN conjunct2, THEN conjunct2,
    THEN conjunct2, THEN conjunct1], rule calculators_agree [THEN conjunct2, THEN conjunct2, THEN conjunct2,
    THEN conjunct2, THEN conjunct2, THEN conjunct1, THEN mp], simp)

end
