(* ===== verification/Echo.thy ===== *)
theory Echo
  imports CLib
begin

text \<open>
  The clients and servers of \<open>les19_sockets\<close>, \<open>les20_multiclient_chat\<close> and \<open>les24_SCTP_DCCP\<close>, which
  send a buffer back and forth and write a few letters into it, and the packet and loop of
  \<open>les25_raw_sockets\<close>. The composition of a client and its server is modelled for a network that
  delivers each piece sent as one piece, in order; the buffers, uninitialised parts included,
  are lists of bytes.
\<close>

section \<open>Buffers\<close>

text \<open>Receiving \<open>d\<close> into a buffer, with at most \<open>n\<close> bytes taken, and overwriting single bytes.\<close>

definition recv_into :: "nat \<Rightarrow> string \<Rightarrow> string \<Rightarrow> string" where
  "recv_into n d buff = take n d @ drop (length (take n d)) buff"

definition letter :: "int \<Rightarrow> char" where
  "letter n = char_of (nat (n mod 256))"

text \<open>What \<open>%s\<close> prints of a buffer; without a terminator in it the program reads on.\<close>

definition shown_text :: "string \<Rightarrow> string option" where
  "shown_text buff = (if NUL \<in> set buff then Some (cstr buff) else None)"

definition zero_padded :: "nat \<Rightarrow> string \<Rightarrow> string" where
  "zero_padded n s = s @ replicate (n - length s) NUL"

section \<open>les19: 26 letters\<close>

text \<open>
  \<open>tcpServer\<close>: what it does with the \<open>i\<close>-th piece received, and what it sends; \<open>tcpclient\<close>: the buffer
  it starts with, what it sends, and what it has after the answer.
\<close>

definition tcp19_serve :: "nat \<Rightarrow> string \<Rightarrow> string \<Rightarrow> string \<times> string" where
  "tcp19_serve i d buff =
     (let buff = (recv_into 256 d buff)[1 := letter (65 + int i)] in (buff, take 5 buff))"

definition tcp19_start :: string where "tcp19_start = zero_padded 25 ''Hello world :3''"
definition tcp19_request :: "string \<Rightarrow> string" where "tcp19_request buff = take 5 buff"
definition tcp19_answer :: "string \<Rightarrow> string \<Rightarrow> string" where "tcp19_answer d buff = recv_into 5 d buff"

text \<open>The two together for rounds \<open>i\<close> to 25: what the client prints.\<close>

function tcp19_rounds :: "nat \<Rightarrow> string \<Rightarrow> string \<Rightarrow> string option list" where
  "tcp19_rounds i cbuff sbuff =
     (if i < 26 then
        (let (sbuff, d) = tcp19_serve i (tcp19_request cbuff) sbuff;
             cbuff = tcp19_answer d cbuff
         in shown_text cbuff # tcp19_rounds (i + 1) cbuff sbuff)
      else [])"
  by pat_completeness auto
termination by (relation "measure (\<lambda>(i, c, s). 26 - i)") auto

declare tcp19_rounds.simps [simp del]

text \<open>\<open>udpServer\<close> and \<open>udpclient\<close>: one datagram per client.\<close>

definition udp19_serve :: "nat \<Rightarrow> string \<Rightarrow> string \<Rightarrow> string \<times> string" where
  "udp19_serve i d buff =
     (let buff = (recv_into 256 d buff)[1 := letter (65 + int i)] in (buff, take 256 buff))"

definition udp19_client :: "string \<Rightarrow> string option" where
  "udp19_client d = shown_text (recv_into 25 d (zero_padded 25 ''Hello world :3''))"

text \<open>Clients that come one after the other, the first as number \<open>i\<close>: what each prints.\<close>

fun udp19_clients :: "nat \<Rightarrow> nat \<Rightarrow> string \<Rightarrow> string option list" where
  "udp19_clients 0 i sbuff = []"
| "udp19_clients (Suc n) i sbuff =
     (if i < 26 then
        (let (sbuff, d) = udp19_serve i (take 25 (zero_padded 25 ''Hello world :3'')) sbuff
         in udp19_client d # udp19_clients n (i + 1) sbuff)
      else [])"

section \<open>les20: a process per client\<close>

text \<open>
  The child of \<open>tcpServer\<close> in its loop, and the words typed into \<open>tcpClient\<close>: a word is written into
  the buffer, the whole buffer sent, and one piece received. \<open>inbox\<close> holds the pieces the server
  has sent; the first is the greeting.
\<close>

definition connected :: string where "connected = ''You are connected!''"

definition tcp20_serve :: "string \<Rightarrow> string \<Rightarrow> string \<times> string" where
  "tcp20_serve d buff =
     (let buff = (recv_into 256 d buff)[0 := CHR ''A'', 1 := CHR ''Z'', 2 := CHR ''_''] in (buff, take 256 buff))"

fun tcp20_client :: "string list \<Rightarrow> string \<Rightarrow> string \<Rightarrow> string list \<Rightarrow> string option list option" where
  "tcp20_client [] cbuff sbuff inbox = Some []"
| "tcp20_client (w # ws) cbuff sbuff inbox =
     (case strcpy cbuff w of
        None \<Rightarrow> None
      | Some cbuff \<Rightarrow>
          (if cstr cbuff = ''quit'' then Some []
           else
             (let (sbuff, d) = tcp20_serve (take 256 cbuff) sbuff in
              case inbox @ [d] of
                [] \<Rightarrow> None
              | p # inbox \<Rightarrow>
                  (let cbuff = recv_into 256 p cbuff in
                   map_option ((#) (shown_text cbuff)) (tcp20_client ws cbuff sbuff inbox)))))"

definition tcp20_session :: "string list \<Rightarrow> string \<Rightarrow> string \<Rightarrow> string option list option" where
  "tcp20_session ws cstack sstack = tcp20_client ws cstack sstack [connected]"

section \<open>les24: SCTP\<close>

text \<open>A round: the server sends, the client prints, marks and sends back, the server prints.\<close>

function sctp_rounds :: "nat \<Rightarrow> string \<Rightarrow> string \<Rightarrow> (string option \<times> string option) list" where
  "sctp_rounds i sbuff cbuff =
     (if i < 15 then
        (let cbuff = recv_into 256 (take 256 sbuff) cbuff;
             client = shown_text cbuff;
             cbuff = cbuff[0 := CHR ''K'', 1 := CHR ''Z''];
             sbuff = recv_into 256 (take 256 cbuff) sbuff;
             server = shown_text sbuff;
             cbuff = cbuff[0 := NUL, 1 := CHR ''G''];
             sbuff = sbuff[0 := letter (65 + int i), 1 := letter (90 - int i)]
         in (client, server) # sctp_rounds (i + 1) sbuff cbuff)
      else [])"
  by pat_completeness auto
termination by (relation "measure (\<lambda>(i, s, c). 15 - i)") auto

declare sctp_rounds.simps [simp del]

definition sctp_start :: string where "sctp_start = zero_padded 256 ''Hello, client!''"

section \<open>les25: a raw UDP packet\<close>

definition reflect :: "u16 \<Rightarrow> u16" where
  "reflect num = push_bit 8 (num AND 0xFF) OR (drop_bit 8 num AND 0xFF)"

text \<open>The packet sent, over the uninitialised one: header and buffer of 256 bytes.\<close>

definition raw_packet :: "u8 list \<Rightarrow> u8 list option" where
  "raw_packet stack = do {
     p \<leftarrow> store16 6 0 stack;
     p \<leftarrow> store16 0 (htons 1222) p;
     p \<leftarrow> store16 2 (htons 1555) p;
     p \<leftarrow> store16 4 (htons (256 + 8)) p;
     p \<leftarrow> store_string 8 ''Hello, friend'' p;
     Some (take (256 + 8) p)
   }"

text \<open>The loop that waits for an answer: packets are received over the last one until their source
  port, at offset 20, is 1555.\<close>

fun raw_wait :: "u8 list \<Rightarrow> u8 list list \<Rightarrow> u8 list option" where
  "raw_wait pck ds =
     (if load16 pck 20 = Some (htons 1555) then Some pck
      else case ds of [] \<Rightarrow> None
        | d # ds \<Rightarrow> raw_wait (take 284 d @ drop (length (take 284 d)) pck) ds)"

declare raw_wait.simps [simp del]

section \<open>What the clients see\<close>

lemma zero_padded_hello:
  "tcp19_start = CHR ''H'' # CHR ''e'' # ''llo world :3'' @ replicate 11 NUL"
  by (simp add: tcp19_start_def zero_padded_def)

lemma cstr_Cons: "c \<noteq> NUL \<Longrightarrow> cstr (c # s) = c # cstr s"
  by (simp add: cstr_def)

lemma letter_not_NUL: "0 < n \<Longrightarrow> n < 256 \<Longrightarrow> letter n \<noteq> NUL"
proof
  assume n: "0 < n" "n < 256" and "letter n = NUL"
  then have "of_char (letter n) = (0 :: nat)" by (simp add: NUL_def)
  with n show False by (simp add: letter_def)
qed

lemma hello_text:
  "c \<noteq> NUL \<Longrightarrow> shown_text (CHR ''H'' # c # ''llo world :3'' @ replicate 11 NUL) = Some (''H'' @ c # ''llo world :3'')"
  by (simp add: shown_text_def cstr_def NUL_def)

lemma five: "Suc (Suc (Suc (Suc (Suc 0)))) = 5"
  by simp

lemma tcp19_run:
  "length sbuff = 256 \<Longrightarrow>
   tcp19_rounds i (CHR ''H'' # c # ''llo world :3'' @ replicate 11 NUL) sbuff =
     map (\<lambda>i. Some (''H'' @ letter (65 + int i) # ''llo world :3'')) [i..<26]"
proof (induction "26 - i" arbitrary: i c sbuff)
  case 0
  then show ?case by (subst tcp19_rounds.simps) simp
next
  case (Suc k)
  then have i: "i < 26" by simp
  let ?L = "letter (65 + int i)"
  let ?c = "CHR ''H'' # c # ''llo world :3'' @ replicate 11 NUL"
  let ?s = "CHR ''H'' # ?L # ''llo'' @ drop 5 sbuff"
  have serve: "tcp19_serve i (tcp19_request ?c) sbuff = (?s, CHR ''H'' # ?L # ''llo'')"
    by (simp add: tcp19_serve_def tcp19_request_def recv_into_def Let_def five)
  have answer: "tcp19_answer (CHR ''H'' # ?L # ''llo'') ?c = CHR ''H'' # ?L # ''llo world :3'' @ replicate 11 NUL"
    by (simp add: tcp19_answer_def recv_into_def)
  have letters: "shown_text (CHR ''H'' # ?L # ''llo world :3'' @ replicate 11 NUL) = Some (''H'' @ ?L # ''llo world :3'')"
    using i by (intro hello_text letter_not_NUL) simp_all
  have "tcp19_rounds (i + 1) (CHR ''H'' # ?L # ''llo world :3'' @ replicate 11 NUL) ?s =
      map (\<lambda>i. Some (''H'' @ letter (65 + int i) # ''llo world :3'')) [i + 1..<26]"
    using Suc.hyps Suc.prems by (intro Suc.hyps(1)) simp_all
  then have "tcp19_rounds i ?c sbuff = Some (''H'' @ ?L # ''llo world :3'') #
      map (\<lambda>i. Some (''H'' @ letter (65 + int i) # ''llo world :3'')) [i + 1..<26]"
    using i by (subst tcp19_rounds.simps) (simp only: serve answer letters Let_def case_prod_conv if_True)
  then show ?case using i by (simp add: upt_conv_Cons)
qed

lemma udp19_run:
  "length sbuff = 256 \<Longrightarrow> i + n \<le> 26 \<Longrightarrow>
   udp19_clients n i sbuff = map (\<lambda>i. Some (''H'' @ letter (65 + int i) # ''llo world :3'')) [i..<i + n]"
proof (induction n arbitrary: i sbuff)
  case (Suc n)
  let ?L = "letter (65 + int i)"
  let ?z = "CHR ''H'' # CHR ''e'' # ''llo world :3'' @ replicate 11 NUL"
  let ?s = "CHR ''H'' # ?L # ''llo world :3'' @ replicate 11 NUL @ drop 25 sbuff"
  have i: "i < 26" using Suc.prems(2) by simp
  have z: "zero_padded 25 ''Hello world :3'' = ?z" by (simp add: zero_padded_def)
  have "take 25 ?z = ?z" "take 256 ?z = ?z" by simp_all
  then have serve: "udp19_serve i (take 25 ?z) sbuff = (?s, ?s)"
    using Suc.prems(1) by (simp add: udp19_serve_def recv_into_def Let_def)
  have "recv_into 25 ?s ?z = CHR ''H'' # ?L # ''llo world :3'' @ replicate 11 NUL"
    by (simp add: recv_into_def)
  moreover have "shown_text (CHR ''H'' # ?L # ''llo world :3'' @ replicate 11 NUL) = Some (''H'' @ ?L # ''llo world :3'')"
    using Suc.prems(2) by (intro hello_text letter_not_NUL) simp_all
  ultimately have client: "udp19_client ?s = Some (''H'' @ ?L # ''llo world :3'')"
    unfolding udp19_client_def z by (simp only:)
  have "udp19_clients n (i + 1) ?s = map (\<lambda>i. Some (''H'' @ letter (65 + int i) # ''llo world :3'')) [i + 1..<i + 1 + n]"
    using Suc.prems by (intro Suc.IH) simp_all
  then have "udp19_clients (Suc n) i sbuff = Some (''H'' @ ?L # ''llo world :3'') #
      map (\<lambda>i. Some (''H'' @ letter (65 + int i) # ''llo world :3'')) [i + 1..<i + 1 + n]"
    using i unfolding udp19_clients.simps z by (simp only: serve client Let_def case_prod_conv if_True)
  moreover have "[i..<i + Suc n] = i # [i + 1..<i + 1 + n]" by (simp add: upt_conv_Cons del: upt_Suc)
  ultimately show ?case by (simp only: list.map)
qed simp

text \<open>The SCTP dialogue: what the server sends differs in its first two letters only.\<close>

lemma sctp_step:
  assumes "i < 15" and "length rest = 254" and "length cbuff = 256"
  shows "sctp_rounds i (a # b # rest) cbuff =
    (shown_text (a # b # rest), shown_text (CHR ''K'' # CHR ''Z'' # rest)) #
      sctp_rounds (i + 1) (letter (65 + int i) # letter (90 - int i) # rest) (NUL # CHR ''G'' # rest)"
proof -
  have "recv_into 256 (take 256 (x # y # rest)) z = x # y # rest" if "length z = 256" for x y z
    using assms(2) that by (simp add: recv_into_def)
  with assms show ?thesis by (subst sctp_rounds.simps) (simp add: Let_def)
qed

lemma sctp_run:
  "length rest = 254 \<Longrightarrow> length cbuff = 256 \<Longrightarrow>
   sctp_rounds i (a # b # rest) cbuff =
     (if i < 15 then (shown_text (a # b # rest), shown_text (CHR ''K'' # CHR ''Z'' # rest)) #
        map (\<lambda>j. (shown_text (letter (64 + int j) # letter (91 - int j) # rest),
                  shown_text (CHR ''K'' # CHR ''Z'' # rest))) [i + 1..<15]
      else [])"
proof (induction "15 - i" arbitrary: i a b cbuff)
  case 0
  then show ?case by (subst sctp_rounds.simps) simp
next
  case (Suc k)
  then have i: "i < 15" by simp
  let ?next = "sctp_rounds (i + 1) (letter (65 + int i) # letter (90 - int i) # rest) (NUL # CHR ''G'' # rest)"
  have "?next = (if i + 1 < 15 then (shown_text (letter (65 + int i) # letter (90 - int i) # rest), shown_text (CHR ''K'' # CHR ''Z'' # rest)) #
        map (\<lambda>j. (shown_text (letter (64 + int j) # letter (91 - int j) # rest),
                  shown_text (CHR ''K'' # CHR ''Z'' # rest))) [i + 1 + 1..<15]
      else [])"
    using Suc.hyps Suc.prems by (intro Suc.hyps(1)) simp_all
  moreover have "letter (64 + int (i + 1)) = letter (65 + int i)" "letter (91 - int (i + 1)) = letter (90 - int i)"
    by simp_all
  moreover have "i + 1 < 15 \<Longrightarrow> [i + 1..<15] = (i + 1) # [i + 1 + 1..<15]" using upt_conv_Cons [of "i + 1" 15] by (simp only: Suc_eq_plus1)
  moreover have "\<not> i + 1 < 15 \<Longrightarrow> [i + 1..<15] = []" by simp
  ultimately show ?case
    unfolding sctp_step [OF i Suc.prems] using i by (cases "i + 1 < 15") (simp_all only: list.map if_True if_False simp_thms)
qed

lemma sctp_text:
  assumes "a \<noteq> NUL" and "b \<noteq> NUL"
  shows "shown_text (a # b # ''llo, client!'' @ replicate 242 NUL) = Some (a # b # ''llo, client!'')"
proof -
  have "replicate 242 NUL = NUL # replicate 241 NUL" by (simp add: replicate_eval)
  with assms show ?thesis
    using cstr_append_NUL [of "a # b # ''llo, client!''" "replicate 241 NUL"] by (simp add: shown_text_def NUL_def)
qed
theorem les19_letters:
  assumes "length sbuff = 256"
  shows "tcp19_rounds 0 tcp19_start sbuff = map (\<lambda>i. Some (''H'' @ letter (65 + int i) # ''llo world :3'')) [0..<26]"
    and "udp19_clients 26 0 sbuff = map (\<lambda>i. Some (''H'' @ letter (65 + int i) # ''llo world :3'')) [0..<26]"
  using tcp19_run [OF assms, of 0 "CHR ''e''"] udp19_run [OF assms, of 0 26]
  unfolding zero_padded_hello [symmetric] by simp_all

definition az :: "string \<Rightarrow> string" where
  "az w = ''AZ_'' @ drop 3 w"

definition word20 :: "string \<Rightarrow> bool" where
  "word20 w \<longleftrightarrow> 3 \<le> length w \<and> length w < 256 \<and> NUL \<notin> set w \<and> w \<noteq> ''quit''"

lemma az_update:
  assumes "3 \<le> length b"
  shows "b[0 := CHR ''A'', 1 := CHR ''Z'', 2 := CHR ''_''] = az b"
proof -
  obtain x y z r where "b = x # y # z # r"
    using assms by (metis Suc_le_length_iff numeral_3_eq_3)
  then show ?thesis by (simp add: az_def)
qed

text \<open>The server's answer to a word, whatever its buffer held.\<close>

lemma serve20:
  assumes w: "word20 w" and c: "strcpy c w = Some c'" "length c = 256" and "length s = 256"
  shows "tcp20_serve (take 256 c') s = (az c', az c')" and "length (az c') = 256" and "shown_text (az c') = Some (az w)"
proof -
  have l: "length c' = 256" using length_strcpy [OF c(1)] c(2) by simp
  with \<open>length s = 256\<close> show "tcp20_serve (take 256 c') s = (az c', az c')"
    by (simp add: tcp20_serve_def recv_into_def Let_def az_update del: One_nat_def) (simp add: az_def)
  from l show "length (az c') = 256" by (simp add: az_def)
  have "c' = w @ NUL # drop (Suc (length w)) c" using c w by (simp add: strcpy_def word20_def split: if_splits)
  then have "az c' = az w @ NUL # drop (Suc (length w)) c" using w by (simp add: az_def word20_def)
  moreover have "NUL \<notin> set (az w)" using w by (auto simp: az_def word20_def NUL_def dest: in_set_dropD)
  ultimately show "shown_text (az c') = Some (az w)"
    using cstr_append_NUL [of "az w" "drop (Suc (length w)) c"] by (simp add: shown_text_def)
qed

lemma tcp20_run:
  assumes "list_all word20 ws" and "length cbuff = 256" and "length sbuff = 256"
    and "length p = 256" and "shown_text p = Some t"
  shows "tcp20_client ws cbuff sbuff [p] = Some (map Some (butlast (t # map az ws)))"
  using assms
proof (induction ws arbitrary: cbuff sbuff p t)
  case (Cons w ws)
  then have w: "word20 w" by simp
  then obtain c' where c': "strcpy cbuff w = Some c'"
    using Cons.prems by (auto simp: strcpy_def word20_def)
  note serve = serve20 [OF w c' Cons.prems(2,3)]
  have q: "cstr c' \<noteq> ''quit''" using cstr_strcpy [OF c'] w by (simp add: word20_def)
  have l: "length c' = 256" using length_strcpy [OF c'] Cons.prems(2) by simp
  have r: "recv_into 256 p c' = p" using Cons.prems(4) l by (simp add: recv_into_def)
  have "tcp20_client ws p (az c') [az c'] = Some (map Some (butlast (az w # map az ws)))"
    using Cons.prems serve(2,3) by (intro Cons.IH) simp_all
  then show ?case
    using Cons.prems(5) q by (simp add: c' serve(1) r Let_def)
qed simp

text \<open>
  Each answer that \<open>tcpClient\<close> shows is the one to the word before: the first piece it receives is the
  greeting, which nothing reads before the loop.
\<close>

theorem les20_answers_lag:
  assumes w: "word20 w" and ws: "list_all word20 ws" and l: "length cstack = 256" "length sstack = 256"
  shows "\<exists>greeting. tcp20_session (w # ws) cstack sstack = Some (greeting # map Some (butlast (map az (w # ws))))"
proof -
  obtain c' where c': "strcpy cstack w = Some c'"
    using w l by (auto simp: strcpy_def word20_def)
  note serve = serve20 [OF w c' l]
  have q: "cstr c' \<noteq> ''quit''" using cstr_strcpy [OF c'] w by (simp add: word20_def)
  let ?c = "recv_into 256 connected c'"
  have "length ?c = 256" using length_strcpy [OF c'] l by (simp add: recv_into_def connected_def)
  then have "tcp20_client ws ?c (az c') [az c'] = Some (map Some (butlast (az w # map az ws)))"
    using ws serve by (intro tcp20_run) simp_all
  then have "tcp20_session (w # ws) cstack sstack = Some (shown_text ?c # map Some (butlast (map az (w # ws))))"
    using q by (simp add: tcp20_session_def c' serve(1) Let_def)
  then show ?thesis by (rule exI)
qed

theorem les24_dialogue:
  assumes "length cbuff = 256"
  shows "sctp_rounds 0 sctp_start cbuff =
    (Some ''Hello, client!'', Some ''KZllo, client!'') #
    map (\<lambda>j. (Some (letter (64 + int j) # letter (91 - int j) # ''llo, client!''), Some ''KZllo, client!'')) [1..<15]"
proof -
  let ?r = "''llo, client!'' @ replicate 242 NUL"
  have "sctp_start = CHR ''H'' # CHR ''e'' # ?r" by (simp add: sctp_start_def zero_padded_def)
  moreover have "shown_text (letter (64 + int j) # letter (91 - int j) # ?r) = Some (letter (64 + int j) # letter (91 - int j) # ''llo, client!'')"
    if "j \<in> set [1..<15]" for j
    using that by (intro sctp_text letter_not_NUL) auto
  moreover have "shown_text (CHR ''H'' # CHR ''e'' # ?r) = Some ''Hello, client!''"
    "shown_text (CHR ''K'' # CHR ''Z'' # ?r) = Some ''KZllo, client!''"
    by (rule sctp_text; simp add: NUL_def)+
  ultimately show ?thesis
    using sctp_run [of ?r cbuff 0 "CHR ''H''" "CHR ''e''"] assms by (simp cong: map_cong)
qed

text \<open>\<open>reflect\<close> of \<open>raw_client.c\<close> is the library's \<open>htons\<close>.\<close>

theorem reflect_is_htons: "reflect n = htons n"
proof -
  have ff: "(0xFF :: u16) = mask 8" by (simp add: mask_eq_exp_minus_1)
  show ?thesis
    unfolding reflect_def ff by (rule bit_word_eqI) (auto simp: htons_def lo8_def hi8_def le16_def bit_simps)
qed

text \<open>The packet that \<open>raw_client\<close> prints has the source port it waits for; where the uninitialised one
  already has it, nothing is received at all.\<close>

theorem raw_wait_port: "raw_wait pck ds = Some p \<Longrightarrow> load16 p 20 = Some (htons 1555)"
proof (induction pck ds rule: raw_wait.induct)
  case (1 pck ds)
  from "1.prems" show ?case
    by (subst (asm) raw_wait.simps) (auto split: if_splits list.splits intro: "1.IH")
qed

theorem raw_wait_skipped: "load16 stack 20 = Some (htons 1555) \<Longrightarrow> raw_wait stack ds = Some stack"
  by (subst raw_wait.simps) simp

end
