(* ===== verification/ShellSession.thy ===== *)
theory ShellSession
  imports Shell
begin

text \<open>
  More of \<open>interpretator.c\<close> of \<open>les15_pipes\<close>: the loop of \<open>main\<close> over a whole session, and the
  function \<open>pipeline\<close>, an earlier way of running piped commands that the program does not call.
\<close>

section \<open>A session\<close>

text \<open>
  The loop of \<open>main\<close>, each turn with the contents of its uninitialised memory: the processes of
  the turns up to \<open>quit\<close>, or for as many turns as are listed. \<open>my_getline\<close> reads from descriptor
  1, the terminal, which the interpreter keeps when its standard input is replaced.
\<close>

fun sh_main :: "((nat \<Rightarrow> char) \<times> string) list \<Rightarrow> string \<Rightarrow> endpoint \<Rightarrow> string \<Rightarrow> process list list option" where
  "sh_main [] command stdin input = Some []"
| "sh_main ((garbage, heap) # turns) command stdin input = do {
     turn \<leftarrow> sh_turn garbage heap command stdin input;
     case turn of
       None \<Rightarrow> Some []
     | Some (ps, stdin, command, input) \<Rightarrow> map_option ((#) ps) (sh_main turns command stdin input)
   }"

text \<open>What a line without a pipe should start, and the lines considered.\<close>

definition line_process :: "endpoint \<Rightarrow> string \<Rightarrow> process" where
  "line_process stdin s =
     \<lparr>program = first_word s,
      arguments = (if argument_of s = [] \<or> hd (argument_of s) = blank then [first_word s]
                   else [first_word s, argument_of s]),
      input_from = stdin, output_to = Pipe 0\<rparr>"

definition plain_line :: "string \<Rightarrow> bool" where
  "plain_line s \<longleftrightarrow> length s \<le> 254 \<and> s \<noteq> ''quit'' \<and>
     list_all (\<lambda>c. c \<noteq> CHR ''|'' \<and> c \<noteq> CHR 0x0A \<and> c \<noteq> NUL) s"

definition typed :: "string list \<Rightarrow> string" where
  "typed ls = concat (map (\<lambda>s. s @ nl) ls)"

lemma plain_turn:
  assumes "length heap = 256" and "length command = 512" and "plain_line s"
  shows "\<exists>command'. length command' = 512 \<and>
    sh_turn g heap command stdin (s @ nl @ rest) = Some (Some ([line_process stdin s], Drained, command', rest))"
  using one_part_turn [of heap command s g stdin rest] assms
  by (auto simp: plain_line_def list_all_iff line_process_def nl_def)

lemma quit_turn:
  assumes "length heap = 256"
  shows "sh_turn g heap command stdin (quit_line @ rest) = Some None"
proof -
  let ?t = "drop 6 heap"
  have "my_getline g heap (''quit'' @ CHR 0x0A # rest) = (''quit'' @ CHR 0x0A # NUL # ?t, rest)"
    using my_getline_line [of heap "''quit''" g rest] assms by (simp add: numeral_eq_Suc)
  moreover have "strlen (''quit'' @ CHR 0x0A # NUL # ?t) = Some 5"
    using strlen_NUL [of "''quit'' @ nl" ?t] by (simp add: NUL_def nl_def)
  ultimately show ?thesis by (simp add: sh_turn_def quit_line_def nl_def)
qed

lemma session_from:
  assumes "list_all plain_line ls" and "length turns = Suc (length ls)"
    and "list_all (\<lambda>(g, heap). length heap = 256) turns" and "length command = 512"
  shows "sh_main turns command stdin (typed ls @ quit_line @ rest) =
    Some (map (\<lambda>(input, s). [line_process input s]) (zip (stdin # replicate (length ls) Drained) ls))"
  using assms
proof (induction ls arbitrary: turns command stdin)
  case Nil
  then obtain g heap where "turns = [(g, heap)]" "length heap = 256"
    by (cases turns) auto
  then show ?case using quit_turn [of heap g command stdin rest] by (simp add: typed_def)
next
  case (Cons s ls)
  then obtain g heap turns' where t: "turns = (g, heap) # turns'" "length heap = 256"
    by (cases turns) auto
  obtain command' where c: "length command' = 512"
    "sh_turn g heap command stdin (s @ nl @ typed ls @ quit_line @ rest) =
      Some (Some ([line_process stdin s], Drained, command', typed ls @ quit_line @ rest))"
    using plain_turn [OF t(2) Cons.prems(4), of s g stdin "typed ls @ quit_line @ rest"] Cons.prems(1) by auto
  have "sh_main turns' command' Drained (typed ls @ quit_line @ rest) =
    Some (map (\<lambda>(input, s). [line_process input s]) (zip (Drained # replicate (length ls) Drained) ls))"
    using Cons.prems t c(1) by (intro Cons.IH) auto
  then show ?case using c(2) by (simp add: t(1) typed_def)
qed

text \<open>C8: a whole session of lines without pipes, ended by \<open>quit\<close>: every line is run, in
  order, whatever the memory held; the first program reads what the interpreter reads, every
  later one an exhausted pipe.\<close>

theorem session:
  assumes "list_all plain_line (s # ls)" and "length turns = length ls + 2"
    and "list_all (\<lambda>(g, heap). length heap = 256) turns" and "length command = 512"
  shows "sh_main turns command Terminal (typed (s # ls) @ quit_line @ rest) =
    Some ([line_process Terminal s] # map (\<lambda>s. [line_process Drained s]) ls)"
proof -
  have "zip (Drained # replicate (length ls) Drained) ls = map (Pair Drained) ls" by (induction ls) simp_all
  then show ?thesis using session_from [OF assms(1) _ assms(3,4), of Terminal rest] assms(2) by (simp add: comp_def)
qed

theorem session_witness:
  "sh_main (replicate 3 (\<lambda>_. NUL, replicate 256 NUL)) (replicate 512 NUL) Terminal (''ls'' @ nl @ ''cat'' @ nl @ quit_line) =
    Some [[\<lparr>program = ''ls'', arguments = [''ls''], input_from = Terminal, output_to = Pipe 0\<rparr>],
          [\<lparr>program = ''cat'', arguments = [''cat''], input_from = Drained, output_to = Pipe 0\<rparr>]]"
proof -
  have lines: "list_all plain_line (''ls'' # [''cat''])" by (simp add: plain_line_def NUL_def)
  have words: "first_word ''ls'' = ''ls''" "first_word ''cat'' = ''cat''" "argument_of ''ls'' = []" "argument_of ''cat'' = []"
    by (simp_all add: first_word_def argument_of_def rtrim_def blank_def)
  from session [OF lines, of "replicate 3 (\<lambda>_. NUL, replicate 256 NUL)" "replicate 512 NUL" "[]"]
  show ?thesis by (simp add: typed_def line_process_def words list_all_iff)
qed

section \<open>The function pipeline\<close>

text \<open>
  What a descriptor refers to, and the descriptors of a process: its standard input and output
  and the others it has open. Pipes are numbered in the order of their creation.
\<close>

datatype file_end = StdIn | StdOut | ReadEnd nat | WriteEnd nat

record wiring =
  w_in :: file_end
  w_out :: file_end
  w_open :: "file_end list"

text \<open>\<open>pipe(fd)\<close> as number \<open>p\<close>, \<open>dup(1)\<close>, \<open>close(fd[0])\<close> and \<open>close(fd[1])\<close>, \<open>dup2\<close>.\<close>

definition pipe_fds :: "nat \<Rightarrow> wiring \<Rightarrow> wiring" where
  "pipe_fds p w = w\<lparr>w_open := ReadEnd p # WriteEnd p # w_open w\<rparr>"

definition dup_out :: "wiring \<Rightarrow> wiring" where
  "dup_out w = w\<lparr>w_open := w_out w # w_open w\<rparr>"

definition close_fd :: "file_end \<Rightarrow> wiring \<Rightarrow> wiring" where
  "close_fd e w = w\<lparr>w_open := remove1 e (w_open w)\<rparr>"

text \<open>
  \<open>pipeline\<close> with the pipe it creates numbered \<open>p\<close>, called by a process with descriptors \<open>w\<close>: the
  commands run, in order, each with the descriptors of the process that runs it, and the caller's
  descriptors afterwards. In the child a nested call stores its own pipe over \<open>fd\<close>: \<open>q\<close> is the
  number of the pipe \<open>fd\<close> holds then. Forks are taken to succeed; without
  commands the code indexes before the array.
\<close>

fun pipeline :: "string list \<Rightarrow> nat \<Rightarrow> nat \<Rightarrow> bool \<Rightarrow> wiring \<Rightarrow> ((string \<times> wiring) list \<times> wiring) option" where
  "pipeline com 0 p start w = None"
| "pipeline com (Suc k) p start w = do {
     let w = dup_out (pipe_fds p w);
     (ps, q, child) \<leftarrow>
       (if 0 < k then map_option (\<lambda>(ps, c). (ps, p + 1, c\<lparr>w_in := ReadEnd (p + 1)\<rparr>)) (pipeline com k (p + 1) False w)
        else Some ([], p, close_fd (ReadEnd p) w));
     let child = (if \<not> start then child\<lparr>w_out := WriteEnd q\<rparr> else close_fd (WriteEnd q) child);
     if k < length com then Some (ps @ [(com ! k, child)], w) else None
   }"

definition terminal_fds :: wiring where
  "terminal_fds = \<lparr>w_in = StdIn, w_out = StdOut, w_open = []\<rparr>"

text \<open>\<open>pipeline\<close> called for all commands.\<close>

definition run_pipeline :: "string list \<Rightarrow> (string \<times> wiring) list option" where
  "run_pipeline com = map_option fst (pipeline com (length com) 0 True terminal_fds)"

text \<open>Every command writes to the pipe that the next one reads.\<close>

definition linked :: "wiring list \<Rightarrow> bool" where
  "linked ws \<longleftrightarrow> (\<forall>j < length ws - 1. \<exists>p. w_out (ws ! j) = WriteEnd p \<and> w_in (ws ! Suc j) = ReadEnd p)"

text \<open>An inner call: the first command writes to its own pipe, every later one reads the pipe of
  the nested call and writes to it as well.\<close>

lemma pipeline_inner:
  "k < length com \<Longrightarrow> w_out w = StdOut \<Longrightarrow>
   \<exists>ws. pipeline com (Suc k) p False w = Some (zip (take (Suc k) com) ws, dup_out (pipe_fds p w)) \<and>
     length ws = Suc k \<and>
     w_in (ws ! 0) = w_in w \<and> w_out (ws ! 0) = WriteEnd (p + k) \<and>
     (\<forall>j. 0 < j \<and> j \<le> k \<longrightarrow> w_in (ws ! j) = ReadEnd (p + k - j + 1) \<and> w_out (ws ! j) = WriteEnd (p + k - j + 1))"
proof (induction k arbitrary: p w)
  case 0
  then show ?case
    by (intro exI [of _ "[(close_fd (ReadEnd p) (dup_out (pipe_fds p w)))\<lparr>w_out := WriteEnd p\<rparr>]"])
      (auto simp: close_fd_def dup_out_def pipe_fds_def take_Suc_conv_app_nth)
next
  case (Suc k)
  let ?w = "dup_out (pipe_fds p w)"
  from Suc.prems obtain ws where ws: "pipeline com (Suc k) (p + 1) False ?w = Some (zip (take (Suc k) com) ws, dup_out (pipe_fds (p + 1) ?w))"
    and l: "length ws = Suc k" and first: "w_in (ws ! 0) = w_in ?w" "w_out (ws ! 0) = WriteEnd (p + 1 + k)"
    and later: "\<forall>j. 0 < j \<and> j \<le> k \<longrightarrow> w_in (ws ! j) = ReadEnd (p + 1 + k - j + 1) \<and> w_out (ws ! j) = WriteEnd (p + 1 + k - j + 1)"
    using Suc.IH [of ?w "p + 1"] by (auto simp: dup_out_def pipe_fds_def)
  define c where "c = (dup_out (pipe_fds (p + 1) ?w))\<lparr>w_in := ReadEnd (p + 1), w_out := WriteEnd (p + 1)\<rparr>"
  have "pipeline com (Suc (Suc k)) p False w = Some (zip (take (Suc k) com) ws @ [(com ! Suc k, c)], ?w)"
    using ws Suc.prems(1) by (subst pipeline.simps) (simp add: Let_def c_def)
  moreover have "zip (take (Suc k) com) ws @ [(com ! Suc k, c)] = zip (take (Suc (Suc k)) com) (ws @ [c])"
    using l Suc.prems(1) by (simp add: take_Suc_conv_app_nth [of "Suc k"] zip_append)
  moreover have "w_in (ws ! 0) = w_in w" using first(1) by (simp add: dup_out_def pipe_fds_def)
  moreover have "w_in c = ReadEnd (p + 1)" "w_out c = WriteEnd (p + 1)" by (simp_all add: c_def)
  ultimately show ?case
    using l first(2) later by (intro exI [of _ "ws @ [c]"]) (auto simp: nth_append le_Suc_eq)
qed

text \<open>The whole call: the descriptors of each command.\<close>

theorem pipeline_wires:
  assumes "com \<noteq> []" and "n = length com"
  shows "\<exists>ws. run_pipeline com = Some (zip com ws) \<and> length ws = n \<and>
    w_in (ws ! 0) = StdIn \<and> w_out (ws ! (n - 1)) = StdOut \<and>
    (1 < n \<longrightarrow> w_out (ws ! 0) = WriteEnd (n - 1) \<and> w_in (ws ! (n - 1)) = ReadEnd 1) \<and>
    (\<forall>j. 0 < j \<and> j < n - 1 \<longrightarrow> w_in (ws ! j) = ReadEnd (n - j) \<and> w_out (ws ! j) = WriteEnd (n - j))"
proof (cases "n = 1")
  case True
  then obtain x where "com = [x]" using assms by (auto simp: length_Suc_conv)
  then show ?thesis using True
    by (intro exI [of _ "[close_fd (WriteEnd 0) (close_fd (ReadEnd 0) (dup_out (pipe_fds 0 terminal_fds)))]"])
      (simp add: run_pipeline_def close_fd_def dup_out_def pipe_fds_def terminal_fds_def)
next
  case False
  then obtain k where k: "n = Suc (Suc k)" using assms by (metis One_nat_def length_0_conv not0_implies_Suc)
  let ?w = "dup_out (pipe_fds 0 terminal_fds)"
  obtain ws where ws: "pipeline com (Suc k) 1 False ?w = Some (zip (take (Suc k) com) ws, dup_out (pipe_fds 1 ?w))"
    and l: "length ws = Suc k" and first: "w_in (ws ! 0) = StdIn" "w_out (ws ! 0) = WriteEnd (1 + k)"
    and later: "\<forall>j. 0 < j \<and> j \<le> k \<longrightarrow> w_in (ws ! j) = ReadEnd (1 + k - j + 1) \<and> w_out (ws ! j) = WriteEnd (1 + k - j + 1)"
    using pipeline_inner [of k com ?w 1] k assms(2) by (auto simp: dup_out_def pipe_fds_def terminal_fds_def)
  define c where "c = close_fd (WriteEnd 1) ((dup_out (pipe_fds 1 ?w))\<lparr>w_in := ReadEnd 1\<rparr>)"
  have "pipeline com (Suc (Suc k)) 0 True terminal_fds = Some (zip (take (Suc k) com) ws @ [(com ! Suc k, c)], ?w)"
    using ws k assms(2) by (subst pipeline.simps) (simp add: Let_def c_def)
  moreover have "com = take (Suc k) com @ [com ! Suc k]"
    using k assms(2) take_Suc_conv_app_nth [of "Suc k" com] by simp
  then have "zip com (ws @ [c]) = zip (take (Suc k) com) ws @ [(com ! Suc k, c)]"
    using l k assms(2) zip_append [of "take (Suc k) com" ws "[com ! Suc k]" "[c]"] by simp
  ultimately have "run_pipeline com = Some (zip com (ws @ [c]))"
    using k assms(2) by (simp add: run_pipeline_def)
  moreover have "w_in c = ReadEnd 1" "w_out c = StdOut"
    by (simp_all add: c_def close_fd_def dup_out_def pipe_fds_def terminal_fds_def)
  ultimately show ?thesis
    using l first later k by (intro exI [of _ "ws @ [c]"]) (auto simp: nth_append Suc_diff_le)
qed

text \<open>So commands are linked up to two at a time. From three on, every inner command reads the
  pipe it writes to, and the last one a pipe that nobody writes to.\<close>

theorem pipeline_linked:
  assumes "com \<noteq> []"
  shows "\<exists>ps. run_pipeline com = Some ps \<and> map fst ps = com \<and> (linked (map snd ps) \<longleftrightarrow> length com \<le> 2)"
proof -
  obtain ws where ws: "run_pipeline com = Some (zip com ws)" and l: "length ws = length com"
    and two: "1 < length com \<longrightarrow> w_out (ws ! 0) = WriteEnd (length com - 1) \<and> w_in (ws ! (length com - 1)) = ReadEnd 1"
    and inner: "\<forall>j. 0 < j \<and> j < length com - 1 \<longrightarrow> w_in (ws ! j) = ReadEnd (length com - j) \<and> w_out (ws ! j) = WriteEnd (length com - j)"
    using pipeline_wires [OF assms(1) refl] by blast
  have "linked ws \<longleftrightarrow> length com \<le> 2"
  proof
    assume "length com \<le> 2"
    have "\<exists>p. w_out (ws ! j) = WriteEnd p \<and> w_in (ws ! Suc j) = ReadEnd p" if "j < length ws - 1" for j
    proof -
      from that l \<open>length com \<le> 2\<close> have "length com = 2" "j = 0" by simp_all
      then show ?thesis using two by (intro exI [of _ 1]) (simp add: numeral_2_eq_2)
    qed
    then show "linked ws" unfolding linked_def by blast
  next
    assume linked: "linked ws"
    show "length com \<le> 2"
    proof (rule ccontr)
      assume n: "\<not> length com \<le> 2"
      let ?j = "length com - 2"
      have j: "0 < ?j" "?j < length com - 1" "Suc ?j = length com - 1" "?j < length ws - 1" using n l by simp_all
      from linked j(4) obtain p where "w_out (ws ! ?j) = WriteEnd p" "w_in (ws ! Suc ?j) = ReadEnd p"
        unfolding linked_def by blast
      moreover have "w_out (ws ! ?j) = WriteEnd (length com - ?j)" using inner j(1,2) by blast
      moreover have "w_in (ws ! Suc ?j) = ReadEnd 1" using two n j(3) by simp
      ultimately show False using n by simp
    qed
  qed
  with ws l show ?thesis by (intro exI [of _ "zip com ws"]) simp
qed

text \<open>Of two commands, the second meets the end of its input once the first has ended: it does not
  hold the end the first writes to.\<close>

theorem pipeline_two:
  "\<exists>v w. run_pipeline [a, b] = Some [(a, v), (b, w)] \<and> w_in v = StdIn \<and> w_out v = WriteEnd 1 \<and>
     w_in w = ReadEnd 1 \<and> w_out w = StdOut \<and> WriteEnd 1 \<notin> set (w_open w)"
  by (simp add: run_pipeline_def numeral_2_eq_2 close_fd_def dup_out_def pipe_fds_def terminal_fds_def)

section \<open>main.c: a pipe that is not used\<close>

text \<open>
  \<open>main.c\<close> copies one block from its input to its output, then forks. The child copies further blocks,
  each with a line end; when \<open>read\<close> fails, \<open>write\<close> with a length of -1 fails and only the line end
  is written. The parent writes into the descriptor that its variable \<open>input\<close>, set in the child only,
  happens to hold, and closes it.
\<close>

fun pipe_child :: "read_result list \<Rightarrow> string" where
  "pipe_child [] = []"
| "pipe_child (Eof # rs) = []"
| "pipe_child (Failed # rs) = nl"
| "pipe_child (Bytes b # rs) = b @ nl @ pipe_child rs"

definition pipe_parent :: "int \<Rightarrow> (int \<times> string) list" where
  "pipe_parent input = [(input, ''Hello world'')]"

text \<open>What the two processes write to the terminal, and what the parent writes elsewhere.\<close>

definition pipe_main :: "read_result \<Rightarrow> read_result list \<Rightarrow> int \<Rightarrow> string \<times> (int \<times> string) list" where
  "pipe_main first rs input =
     ((case first of Bytes b \<Rightarrow> b | _ \<Rightarrow> []) @ pipe_child rs, pipe_parent input)"

text \<open>All blocks read before the end of the input are written, each on a line of its own.\<close>

theorem pipe_main_copies:
  "fst (pipe_main (Bytes b) (map Bytes bs @ Eof # rs) input) = b @ concat (map (\<lambda>b. b @ nl) bs)"
proof -
  have "pipe_child (map Bytes bs @ Eof # rs) = concat (map (\<lambda>b. b @ nl) bs)" by (induction bs) simp_all
  then show ?thesis by (simp add: pipe_main_def)
qed

end
