(* ===== verification/Hierarchy.thy ===== *)
theory Hierarchy
  imports Prelude
begin

text \<open>
  \<open>ierarchy.c\<close> of \<open>les13_fork\<close>: six processes in a tree. A process is its number, what it has
  still to do, and its children; a child that has ended stays until its parent waits for it.
  Processes are interleaved, a fork may fail, and a wait takes any ended child. Lines are
  written at once, as on a terminal; processes are numbered in the order of their creation.
\<close>

section \<open>Programs\<close>

text \<open>
  What a process still does: fork, with the continuation of the child and of the parent (also
  taken when the fork fails and returns -1); print its number and its parent's; wait.
\<close>

datatype act = Fork act act | Tell act | Wait act | Exit

text \<open>\<open>main\<close>, from its end to its start: the five waits, and the branches of the switches.\<close>

definition waits :: act where
  "waits = Wait (Wait (Wait (Wait (Wait Exit))))"

definition child1_branch :: act where
  "child1_branch = Fork (Tell Exit) (Tell waits)"

definition child2_branch :: act where
  "child2_branch = Fork (Tell Exit) (Tell (Fork (Tell Exit) waits))"

definition main13 :: act where
  "main13 = Fork child1_branch (Fork child2_branch waits)"

section \<open>Processes\<close>

datatype proc = Proc (p_pid: nat) (p_act: act) (p_children: "proc list")

fun ended :: "proc \<Rightarrow> bool" where
  "ended (Proc pid a ks) \<longleftrightarrow> a = Exit"

text \<open>
  The steps of a process whose parent is \<open>pp\<close>. \<open>n\<close> is the number the next process will get,
  \<open>out\<close> the lines printed: the numbers of a process and its parent. The children of an ended
  child vanish with it.
\<close>

inductive hstep :: "nat \<Rightarrow> nat \<times> (nat \<times> nat) list \<Rightarrow> proc \<Rightarrow> nat \<times> (nat \<times> nat) list \<Rightarrow> proc \<Rightarrow> bool" where
  h_fork: "hstep pp (n, out) (Proc pid (Fork c p) ks) (n + 1, out) (Proc pid p (ks @ [Proc n c []]))"
| h_fail: "hstep pp (n, out) (Proc pid (Fork c p) ks) (n, out) (Proc pid p ks)"
| h_tell: "hstep pp (n, out) (Proc pid (Tell a) ks) (n, out @ [(pid, pp)]) (Proc pid a ks)"
| h_wait: "ended k \<Longrightarrow> hstep pp w (Proc pid (Wait a) (xs @ k # ys)) w (Proc pid a (xs @ ys))"
| h_none: "hstep pp w (Proc pid (Wait a) []) w (Proc pid a [])"
| h_child: "hstep pid w k w' k' \<Longrightarrow> hstep pp w (Proc pid a (xs @ k # ys)) w' (Proc pid a (xs @ k' # ys))"

type_synonym hstate = "(nat \<times> (nat \<times> nat) list) \<times> proc"

text \<open>The program, started as process 1 by process 0.\<close>

definition h_init :: hstate where
  "h_init = ((2, []), Proc 1 main13 [])"

definition h_run :: "hstate \<Rightarrow> hstate \<Rightarrow> bool" where
  "h_run s t \<longleftrightarrow> hstep 0 (fst s) (snd s) (fst t) (snd t)"

section \<open>No child outlives its parent\<close>

text \<open>A program that starts with \<open>n\<close> children waits for all of them, and for those it forks.\<close>

fun covers :: "nat \<Rightarrow> act \<Rightarrow> bool" where
  "covers n (Fork c p) \<longleftrightarrow> covers 0 c \<and> covers (Suc n) p \<and> covers n p"
| "covers n (Tell a) \<longleftrightarrow> covers n a"
| "covers n (Wait a) \<longleftrightarrow> covers (n - 1) a"
| "covers n Exit \<longleftrightarrow> n = 0"

fun family :: "proc \<Rightarrow> bool" where
  "family (Proc pid a ks) \<longleftrightarrow> covers (length ks) a \<and> list_all family ks"

lemma family_step: "hstep pp w k w' k' \<Longrightarrow> family k \<Longrightarrow> family k'"
  by (induction rule: hstep.induct) (auto simp: list_all_iff)

text \<open>Lines still to be printed, by a process and its descendants, and steps still to be made.\<close>

fun act_lines :: "act \<Rightarrow> nat" where
  "act_lines (Fork c p) = act_lines c + act_lines p"
| "act_lines (Tell a) = Suc (act_lines a)"
| "act_lines (Wait a) = act_lines a"
| "act_lines Exit = 0"

fun act_steps :: "act \<Rightarrow> nat" where
  "act_steps (Fork c p) = Suc (act_steps c + act_steps p)"
| "act_steps (Tell a) = Suc (act_steps a)"
| "act_steps (Wait a) = Suc (act_steps a)"
| "act_steps Exit = 0"

fun lines_left :: "proc \<Rightarrow> nat" where
  "lines_left (Proc pid a ks) = act_lines a + sum_list (map lines_left ks)"

fun steps_left :: "proc \<Rightarrow> nat" where
  "steps_left (Proc pid a ks) = act_steps a + sum_list (map steps_left ks)"

lemma steps_decrease: "hstep pp w k w' k' \<Longrightarrow> steps_left k' < steps_left k"
  by (induction rule: hstep.induct) auto

fun act_forks :: "act \<Rightarrow> nat" where
  "act_forks (Fork c p) = Suc (act_forks c + act_forks p)"
| "act_forks (Tell a) = act_forks a"
| "act_forks (Wait a) = act_forks a"
| "act_forks Exit = 0"

fun forks_left :: "proc \<Rightarrow> nat" where
  "forks_left (Proc pid a ks) = act_forks a + sum_list (map forks_left ks)"

lemma ended_family:
  assumes "family k" and "ended k"
  shows "p_children k = []" and "lines_left k = 0" and "forks_left k = 0"
  using assms by (cases k; simp)+

text \<open>A failed fork loses its number, and with it the lines of that child; no other step loses any.\<close>

lemma account_step:
  "hstep pp w k w' k' \<Longrightarrow> family k \<Longrightarrow>
   fst w' + forks_left k' \<le> fst w + forks_left k \<and>
   length (snd w') + lines_left k' \<le> length (snd w) + lines_left k \<and>
   (fst w' + forks_left k' = fst w + forks_left k \<longrightarrow>
      length (snd w') + lines_left k' = length (snd w) + lines_left k)"
proof (induction rule: hstep.induct)
  case (h_wait k pp w pid a xs ys)
  then show ?case using ended_family [of k] by simp
qed auto

text \<open>A process that has not ended, or a descendant of it, can make a step.\<close>

lemma family_progress: "family k \<Longrightarrow> \<not> ended k \<Longrightarrow> \<exists>w' k'. hstep pp w k w' k'"
proof (induction k arbitrary: pp w)
  case (Proc pid a ks)
  show ?case
  proof (cases a)
    case (Fork c p)
    then show ?thesis by (cases w) (blast intro: h_fail)
  next
    case (Tell b)
    then show ?thesis by (cases w) (blast intro: h_tell)
  next
    case (Wait b)
    show ?thesis
    proof (cases ks)
      case Nil
      then show ?thesis using Wait h_none by blast
    next
      case (Cons k ks')
      then have k: "k \<in> set ks" "family k" using Proc.prems(1) by simp_all
      show ?thesis
      proof (cases "ended k")
        case True
        then have "hstep pp w (Proc pid a ([] @ k # ks')) w (Proc pid b ([] @ ks'))"
          unfolding Wait by (rule h_wait)
        then show ?thesis unfolding Cons append_Nil by blast
      next
        case False
        then obtain w' k' where "hstep pid w k w' k'" using Proc.IH [OF k] by blast
        then have "hstep pp w (Proc pid a ([] @ k # ks')) w' (Proc pid a ([] @ k' # ks'))" by (rule h_child)
        then show ?thesis unfolding Cons append_Nil by blast
      qed
    qed
  next
    case Exit
    with Proc.prems show ?thesis by simp
  qed
qed

section \<open>The run of the program\<close>

definition h_inv :: "hstate \<Rightarrow> bool" where
  "h_inv s \<longleftrightarrow> family (snd s) \<and> fst (fst s) + forks_left (snd s) \<le> 7 \<and>
     length (snd (fst s)) + lines_left (snd s) \<le> 5 \<and>
     (fst (fst s) + forks_left (snd s) = 7 \<longrightarrow> length (snd (fst s)) + lines_left (snd s) = 5)"

lemma h_inv_init: "h_inv h_init"
  by (simp add: h_inv_def h_init_def main13_def child1_branch_def child2_branch_def waits_def)

lemma h_inv_step: "h_inv s \<Longrightarrow> h_run s t \<Longrightarrow> h_inv t"
  using family_step [of 0 "fst s" "snd s" "fst t" "snd t"] account_step [of 0 "fst s" "snd s" "fst t" "snd t"]
  by (auto simp: h_inv_def h_run_def)

interpretation fork_machine: ending_machine "\<lambda>s. s = h_init" h_run h_inv "\<lambda>s. steps_left (snd s)" "\<lambda>s. ended (snd s)"
proof unfold_locales
  show "h_inv s" if "s = h_init" for s using that h_inv_init by simp
  show "h_inv t" if "h_inv s" "h_run s t" for s t using that by (rule h_inv_step)
  show "steps_left (snd t) < steps_left (snd s)" if "h_run s t" for s t
    using that unfolding h_run_def by (rule steps_decrease)
  show "\<exists>t. h_run s t" if inv: "h_inv s" and go: "\<not> ended (snd s)" for s
  proof -
    obtain w k where "hstep 0 (fst s) (snd s) w k"
      using family_progress [of "snd s" 0 "fst s"] inv go unfolding h_inv_def by blast
    then have "h_run s (w, k)" by (simp add: h_run_def)
    then show ?thesis by blast
  qed
qed



end
