(* ===== verification/ThreadId.thy ===== *)
theory ThreadId
  imports Prelude
begin

text \<open>
  \<open>threadId.c\<close> of \<open>les14_threads\<close>: a hundred threads, each given a pointer into the array
  \<open>indexes\<close> and printing the number it finds there, while \<open>main\<close> still fills the array and
  creates further threads. Each access to the array is a step; creating a thread succeeds.
\<close>

section \<open>The program\<close>

definition N_THREADS :: nat where "N_THREADS = 100"

text \<open>Where \<open>main\<close> stands: before the store for thread \<open>i\<close>, before its creation, before the \<open>i\<close>-th
  join, at the end.\<close>

datatype main_pc = Store nat | Create nat | Join nat | Finished

text \<open>Thread \<open>i\<close>: not created, started with a pointer to an element of \<open>indexes\<close>, holding the number
  read there, ended.\<close>

datatype wire_pc = Absent | Started nat | Loaded int | Ended

record threads =
  indexes :: "nat \<Rightarrow> int"
  th_main :: main_pc
  wires :: "nat \<Rightarrow> wire_pc"
  th_out :: "int list"

definition threads_init :: threads where
  "threads_init = \<lparr>indexes = (\<lambda>_. 0), th_main = Store 0, wires = (\<lambda>_. Absent), th_out = []\<rparr>"

text \<open>The loops of \<open>main\<close>; the loop variable of the first is \<open>i + 1\<close> in the code. A join waits until
  its thread has ended.\<close>

definition main_next :: "threads \<Rightarrow> threads option" where
  "main_next s =
     (case th_main s of
        Store i \<Rightarrow>
          Some (if i < N_THREADS then s\<lparr>indexes := (indexes s)(i := int i + 1), th_main := Create i\<rparr>
                else s\<lparr>th_main := Join 0\<rparr>)
      | Create i \<Rightarrow> Some (s\<lparr>wires := (wires s)(i := Started i), th_main := Store (i + 1)\<rparr>)
      | Join i \<Rightarrow>
          (if i < N_THREADS then (if wires s i = Ended then Some (s\<lparr>th_main := Join (i + 1)\<rparr>) else None)
           else Some (s\<lparr>th_main := Finished\<rparr>))
      | Finished \<Rightarrow> None)"

text \<open>\<open>wire\<close> in thread \<open>t\<close>.\<close>

definition wire_next :: "nat \<Rightarrow> threads \<Rightarrow> threads option" where
  "wire_next t s =
     (case wires s t of
        Absent \<Rightarrow> None
      | Started p \<Rightarrow> Some (s\<lparr>wires := (wires s)(t := Loaded (indexes s p))\<rparr>)
      | Loaded n \<Rightarrow> Some (s\<lparr>wires := (wires s)(t := Ended), th_out := th_out s @ [n]\<rparr>)
      | Ended \<Rightarrow> None)"

inductive threads_step :: "threads \<Rightarrow> threads \<Rightarrow> bool" where
  main_steps: "main_next s = Some t \<Longrightarrow> threads_step s t"
| wire_steps: "wire_next k s = Some t \<Longrightarrow> threads_step s t"

section \<open>Invariant\<close>

text \<open>How many threads \<open>main\<close> has created, and how many of the array's elements it has stored.\<close>

fun created :: "main_pc \<Rightarrow> nat" where
  "created (Store i) = i"
| "created (Create i) = i"
| "created (Join i) = N_THREADS"
| "created Finished = N_THREADS"

fun stored :: "main_pc \<Rightarrow> nat" where
  "stored (Store i) = i"
| "stored (Create i) = Suc i"
| "stored (Join i) = N_THREADS"
| "stored Finished = N_THREADS"

fun joined_threads :: "main_pc \<Rightarrow> nat" where
  "joined_threads (Join i) = i"
| "joined_threads Finished = N_THREADS"
| "joined_threads _ = 0"

fun wire_ok :: "nat \<Rightarrow> wire_pc \<Rightarrow> bool" where
  "wire_ok t Absent = True"
| "wire_ok t (Started p) \<longleftrightarrow> p = t"
| "wire_ok t (Loaded n) \<longleftrightarrow> n = int t + 1"
| "wire_ok t Ended = True"

text \<open>What is printed are the numbers of the threads that have ended, each once.\<close>

definition threads_inv :: "threads \<Rightarrow> bool" where
  "threads_inv s \<longleftrightarrow>
     created (th_main s) \<le> N_THREADS \<and> stored (th_main s) \<le> N_THREADS \<and> joined_threads (th_main s) \<le> N_THREADS \<and>
     (\<forall>t < stored (th_main s). indexes s t = int t + 1) \<and>
     (\<forall>t. wires s t = Absent \<longleftrightarrow> created (th_main s) \<le> t) \<and>
     (\<forall>t. wire_ok t (wires s t)) \<and>
     (\<forall>t < joined_threads (th_main s). wires s t = Ended) \<and>
     distinct (th_out s) \<and> set (th_out s) = (\<lambda>t. int t + 1) ` {t. wires s t = Ended}"

lemma threads_inv_init: "threads_inv threads_init"
  by (simp add: threads_inv_def threads_init_def)

lemma main_next_inv:
  assumes "threads_inv s" and "main_next s = Some t"
  shows "threads_inv t"
proof (cases "th_main s")
  case (Store i)
  with assms show ?thesis
    by (cases "i < N_THREADS") (auto simp: main_next_def threads_inv_def less_Suc_eq)
next
  case (Create i)
  then have t: "t = s\<lparr>wires := (wires s)(i := Started i), th_main := Store (i + 1)\<rparr>"
    using assms(2) by (simp add: main_next_def)
  have "wires s i = Absent" using assms(1) Create by (simp add: threads_inv_def)
  then have "{k. wires t k = Ended} = {k. wires s k = Ended}" by (auto simp: t)
  then show ?thesis using assms(1) Create by (auto simp: t threads_inv_def)
next
  case (Join i)
  with assms show ?thesis
    by (auto simp: main_next_def threads_inv_def less_Suc_eq split: if_splits)
next
  case Finished
  with assms show ?thesis by (simp add: main_next_def)
qed

lemma wire_next_inv:
  assumes inv: "threads_inv s" and "wire_next k s = Some t"
  shows "threads_inv t"
proof (cases "wires s k")
  case (Started p)
  then have t: "t = s\<lparr>wires := (wires s)(k := Loaded (indexes s p))\<rparr>"
    using assms(2) by (simp add: wire_next_def)
  have "p = k" using inv Started by (auto simp: threads_inv_def dest: spec [of _ k])
  have present: "\<not> created (th_main s) \<le> k"
    using inv Started unfolding threads_inv_def by (metis wire_pc.distinct(1))
  then have "k < stored (th_main s)" by (cases "th_main s") simp_all
  then have "indexes s p = int k + 1" using inv \<open>p = k\<close> by (simp add: threads_inv_def)
  moreover have "{j. wires t j = Ended} = {j. wires s j = Ended}" using Started by (auto simp: t)
  moreover have "\<not> k < joined_threads (th_main s)"
    using inv Started unfolding threads_inv_def by (metis wire_pc.distinct(9))
  ultimately show ?thesis using inv present by (auto simp: t threads_inv_def)
next
  case (Loaded n)
  then have t: "t = s\<lparr>wires := (wires s)(k := Ended), th_out := th_out s @ [n]\<rparr>"
    using assms(2) by (simp add: wire_next_def)
  have n: "n = int k + 1" using inv Loaded by (auto simp: threads_inv_def dest: spec [of _ k])
  have "{j. wires t j = Ended} = insert k {j. wires s j = Ended}" by (auto simp: t)
  then have "set (th_out t) = (\<lambda>t. int t + 1) ` {j. wires t j = Ended}"
    using inv by (simp add: t n threads_inv_def)
  moreover have "n \<notin> set (th_out s)" using inv Loaded by (auto simp: n threads_inv_def)
  moreover have "\<not> created (th_main s) \<le> k"
    using inv Loaded unfolding threads_inv_def by (metis wire_pc.distinct(3))
  ultimately show ?thesis using inv by (auto simp: t threads_inv_def)
qed (use assms in \<open>simp_all add: wire_next_def\<close>)

interpretation threads_machine: invariant_machine "\<lambda>s. s = threads_init" threads_step threads_inv
  by unfold_locales (auto intro: threads_inv_init main_next_inv wire_next_inv elim: threads_step.cases)

section \<open>What is printed\<close>

text \<open>Until \<open>main\<close> has returned, it or one of its threads can take a step.\<close>

lemma threads_progress:
  assumes "threads_inv s" and "th_main s \<noteq> Finished"
  shows "\<exists>t. threads_step s t"
proof (cases "main_next s")
  case None
  then obtain i where i: "th_main s = Join i" "i < N_THREADS" "wires s i \<noteq> Ended"
    using assms(2) by (auto simp: main_next_def split: main_pc.splits if_splits)
  then have "wires s i \<noteq> Absent" using assms(1) by (simp add: threads_inv_def)
  then obtain t where "wire_next i s = Some t"
    using i(3) by (cases "wires s i") (auto simp: wire_next_def)
  then show ?thesis by (blast intro: wire_steps)
qed (blast intro: main_steps)

text \<open>In every interleaving no number is printed twice and only numbers from 1 to 100 are; when
  \<open>main\<close> has returned, all of them have been printed, in some order. The program cannot
  get stuck before that.\<close>

theorem numbers_printed:
  assumes "reachable (\<lambda>s. s = threads_init) threads_step s"
  shows "distinct (th_out s) \<and> set (th_out s) \<subseteq> {1..100} \<and>
    (th_main s = Finished \<longrightarrow> mset (th_out s) = mset (map int [1..<101])) \<and>
    (th_main s \<noteq> Finished \<longrightarrow> (\<exists>t. threads_step s t))"
proof -
  have inv: "threads_inv s" by (rule threads_machine.inv_reachable [OF assms])
  then have d: "distinct (th_out s)" and out: "set (th_out s) = (\<lambda>t. int t + 1) ` {t. wires s t = Ended}"
    by (simp_all add: threads_inv_def)
  have ended: "t < N_THREADS" if "wires s t = Ended" for t
    using inv that by (metis le_less_linear le_trans threads_inv_def wire_pc.distinct(5))
  then have sub: "set (th_out s) \<subseteq> {1..100}" unfolding out by (fastforce simp: N_THREADS_def)
  have "mset (th_out s) = mset (map int [1..<101])" if "th_main s = Finished"
  proof -
    have "{t. wires s t = Ended} = {..<N_THREADS}"
      using inv that ended by (auto simp: threads_inv_def)
    then have "set (th_out s) = (\<lambda>t. int t + 1) ` {..<100}" unfolding out by (simp add: N_THREADS_def)
    also have "\<dots> = int ` Suc ` {..<100}" by (simp add: image_image add.commute)
    also have "Suc ` {..<100} = {1..<101}" by (simp add: lessThan_atLeast0 image_Suc_atLeastLessThan)
    finally have "set (th_out s) = set (map int [1..<101])" by simp
    then show ?thesis using d by (intro set_eq_iff_mset_eq_distinct [THEN iffD1]) (simp_all add: distinct_map)
  qed
  then show ?thesis using d sub threads_progress [OF inv] by simp
qed

theorem numbers_printed_witness:
  "\<exists>t. threads_step threads_init t \<and> set (th_out threads_init) \<subseteq> {1..100}"
  using numbers_printed [OF reach_start [of "\<lambda>s. s = threads_init" threads_init threads_step, OF refl]]
  by (auto simp: threads_init_def)

section \<open>How long it runs\<close>

text \<open>The steps that are left to \<open>main\<close> and to a thread, created or not.\<close>

fun main_left :: "main_pc \<Rightarrow> nat" where
  "main_left (Store i) = 2 * (N_THREADS - i) + N_THREADS + 2"
| "main_left (Create i) = 2 * (N_THREADS - i) + N_THREADS + 1"
| "main_left (Join i) = N_THREADS - i + 1"
| "main_left Finished = 0"

fun wire_left :: "wire_pc \<Rightarrow> nat" where
  "wire_left Absent = 2"
| "wire_left (Started p) = 2"
| "wire_left (Loaded n) = 1"
| "wire_left Ended = 0"

definition steps_left :: "threads \<Rightarrow> nat" where
  "steps_left s = main_left (th_main s) + (\<Sum>t < N_THREADS. wire_left (wires s t))"

lemma wires_update:
  assumes "k < N_THREADS"
  shows "(\<Sum>t < N_THREADS. wire_left ((w(k := x)) t)) + wire_left (w k) = (\<Sum>t < N_THREADS. wire_left (w t)) + wire_left x"
proof -
  have "(\<Sum>t < N_THREADS. wire_left ((w(k := x)) t)) = wire_left x + (\<Sum>t \<in> {..<N_THREADS} - {k}. wire_left ((w(k := x)) t))"
    using assms by (subst sum.remove [of _ k]) auto
  also have "(\<Sum>t \<in> {..<N_THREADS} - {k}. wire_left ((w(k := x)) t)) = (\<Sum>t \<in> {..<N_THREADS} - {k}. wire_left (w t))"
    by (rule sum.cong) auto
  also have "wire_left x + (\<Sum>t \<in> {..<N_THREADS} - {k}. wire_left (w t)) + wire_left (w k) =
      (\<Sum>t < N_THREADS. wire_left (w t)) + wire_left x"
    using assms by (subst (2) sum.remove [of _ k]) auto
  finally show ?thesis .
qed

lemma inv_present: "threads_inv s \<Longrightarrow> wires s k \<noteq> Absent \<Longrightarrow> k < N_THREADS"
  unfolding threads_inv_def by (metis le_less_linear le_trans)

lemma step_counts:
  assumes inv: "threads_inv s" and "threads_step s t"
  shows "steps_left s = Suc (steps_left t)"
  using assms(2)
proof cases
  case main_steps
  show ?thesis
  proof (cases "th_main s")
    case (Create i)
    then have t: "t = s\<lparr>wires := (wires s)(i := Started i), th_main := Store (i + 1)\<rparr>"
      using main_steps by (simp add: main_next_def)
    have i: "i < N_THREADS" and "wires s i = Absent" using inv Create by (simp_all add: threads_inv_def)
    then show ?thesis using wires_update [OF i, of "wires s" "Started i"] Create by (simp add: t steps_left_def)
  qed (use main_steps inv in \<open>auto simp: main_next_def steps_left_def threads_inv_def split: if_splits\<close>)
next
  case (wire_steps k)
  then have "wires s k \<noteq> Absent" by (auto simp: wire_next_def)
  then have k: "k < N_THREADS" by (rule inv_present [OF inv])
  show ?thesis
  proof (cases "wires s k")
    case (Started p)
    then show ?thesis using wire_steps wires_update [OF k, of "wires s" "Loaded (indexes s p)"]
      by (auto simp: wire_next_def steps_left_def)
  next
    case (Loaded n)
    then show ?thesis using wire_steps wires_update [OF k, of "wires s" Ended]
      by (auto simp: wire_next_def steps_left_def)
  qed (use wire_steps in \<open>auto simp: wire_next_def\<close>)
qed

interpretation threads_ending: ending_machine "\<lambda>s. s = threads_init" threads_step threads_inv steps_left
  "\<lambda>s. th_main s = Finished"
  by unfold_locales (use step_counts threads_progress in auto)

lemma run_counts:
  "(threads_step ^^ n) threads_init s \<Longrightarrow> reachable (\<lambda>s. s = threads_init) threads_step s \<and> steps_left s + n = 502"
proof (induction n arbitrary: s)
  case 0
  then show ?case by (auto intro: reach_start simp: steps_left_def threads_init_def N_THREADS_def)
next
  case (Suc n)
  then obtain u where u: "(threads_step ^^ n) threads_init u" "threads_step u s" by auto
  from Suc.IH [OF u(1)] have r: "reachable (\<lambda>s. s = threads_init) threads_step u" "steps_left u + n = 502" by auto
  have "steps_left u = Suc (steps_left s)" by (rule step_counts [OF threads_machine.inv_reachable [OF r(1)] u(2)])
  with r u(2) show ?case by (auto intro: reach_step)
qed

lemma finished_counts: "threads_inv s \<Longrightarrow> th_main s = Finished \<longleftrightarrow> steps_left s = 0"
proof
  assume inv: "threads_inv s" and "th_main s = Finished"
  then have "\<forall>t < N_THREADS. wires s t = Ended" by (simp add: threads_inv_def)
  then show "steps_left s = 0" using \<open>th_main s = Finished\<close> by (simp add: steps_left_def)
next
  assume "steps_left s = 0"
  then show "th_main s = Finished" by (cases "th_main s") (simp_all add: steps_left_def)
qed

text \<open>C25: the program ends. However \<open>main\<close> and its hundred threads are interleaved, and though \<open>main\<close> fills the array while
  they read it, a run makes 502 steps and no more, can always go on before that, and has then
  printed every number from 1 to 100 once, in whatever order.\<close>

theorem threads_end:
  assumes "(threads_step ^^ n) threads_init s"
  shows "n \<le> 502 \<and> ((\<exists>t. threads_step s t) \<longleftrightarrow> n < 502) \<and> (\<exists>t. threads_step\<^sup>*\<^sup>* s t \<and> th_main t = Finished) \<and> (th_main s = Finished \<longleftrightarrow> n = 502) \<and>
    (n = 502 \<longrightarrow> mset (th_out s) = mset (map int [1..<101]))"
proof -
  have r: "reachable (\<lambda>s. s = threads_init) threads_step s" and n: "steps_left s + n = 502"
    using run_counts [OF assms] by auto
  have inv: "threads_inv s" by (rule threads_machine.inv_reachable [OF r])
  have "n < 502" if "threads_step s t" for t using step_counts [OF inv that] n by simp
  moreover have fin: "th_main s = Finished \<longleftrightarrow> n = 502" using finished_counts [OF inv] n by auto
  moreover have "\<exists>t. threads_step s t" if "n < 502" using threads_progress [OF inv] fin that by auto
  ultimately show ?thesis using numbers_printed [OF r] threads_ending.run_ends [OF inv] n by auto
qed

theorem threads_end_witness:
  "\<exists>s. (threads_step ^^ 1) threads_init s \<and> (\<exists>t. threads_step s t) \<and> th_main s \<noteq> Finished"
proof -
  have "threads_step threads_init (the (main_next threads_init))"
    by (rule main_steps) (simp add: main_next_def threads_init_def)
  then have "(threads_step ^^ 1) threads_init (the (main_next threads_init))" by (metis relpowp_1)
  from threads_end [OF this] this show ?thesis by auto
qed

end
