(* ===== verification/Signals.thy ===== *)
theory Signals
  imports Prelude
begin

text \<open>
  \<open>sig.c\<close> of \<open>les18_signals\<close>: a program that installs a handler for \<open>SIGUSR1\<close>, blocks all signals
  and sleeps in \<open>pause\<close>. A signal may be sent at any time. The handler is one step, since all
  other signals are blocked while it runs, and what \<open>printf\<close> writes stays in the buffer of the
  library: the text has no line end, and the program neither flushes nor returns.
\<close>

section \<open>The program\<close>

text \<open>\<open>SIGKILL\<close> cannot be blocked, \<open>SIGUSR1\<close> has the handler, and the default action of the others
  listed ends the process. Signals whose default action is nothing are left out, and \<open>SIGSTOP\<close> with
  \<open>SIGCONT\<close>, which only suspend the program.\<close>

datatype signal = SIGUSR1 | SIGKILL | TERMINATING nat

text \<open>Where \<open>main\<close> stands: before \<open>signal\<close>, before \<open>sigaction\<close>, before \<open>sigprocmask\<close>, before the
  \<open>write\<close>, in \<open>pause\<close>; or killed.\<close>

datatype sig_pc = AtSignal | AtAction | AtMask | AtWrite | InPause | Killed

record sig =
  sig_pc :: sig_pc
  handled :: bool
  masked :: bool
  pending_signals :: "signal set"
  stdio_buffer :: string
  written :: "string list"

definition handled_text :: string where "handled_text = ''handled'' @ nl"
definition sleep_text :: string where "sleep_text = ''i need some sleep'' @ nl"

definition sig_start :: "int \<Rightarrow> sig" where
  "sig_start pid = \<lparr>sig_pc = AtSignal, handled = False, masked = False, pending_signals = {},
     stdio_buffer = ''my pid = '' @ dec pid, written = []\<rparr>"

text \<open>The next step of \<open>main\<close>; \<open>pause\<close> returns only by a signal.\<close>

definition sig_main :: "sig \<Rightarrow> sig option" where
  "sig_main s =
     (case sig_pc s of
        AtSignal \<Rightarrow> Some (s\<lparr>handled := True, sig_pc := AtAction\<rparr>)
      | AtAction \<Rightarrow> Some (s\<lparr>handled := True, sig_pc := AtMask\<rparr>)
      | AtMask \<Rightarrow> Some (s\<lparr>masked := True, sig_pc := AtWrite\<rparr>)
      | AtWrite \<Rightarrow> Some (s\<lparr>written := written s @ [sleep_text], sig_pc := InPause\<rparr>)
      | InPause \<Rightarrow> None
      | Killed \<Rightarrow> None)"

text \<open>\<open>handle\<close>; a caught signal ends \<open>pause\<close>.\<close>

definition handle :: "sig \<Rightarrow> sig" where
  "handle s = s\<lparr>written := written s @ [handled_text],
                sig_pc := (if sig_pc s = InPause then AtWrite else sig_pc s)\<rparr>"

text \<open>A signal is delivered, or kept while it is blocked.\<close>

definition deliver :: "signal \<Rightarrow> sig \<Rightarrow> sig" where
  "deliver g s =
     (if g = SIGKILL then s\<lparr>sig_pc := Killed\<rparr>
      else if masked s then s\<lparr>pending_signals := insert g (pending_signals s)\<rparr>
      else case g of
        SIGUSR1 \<Rightarrow> if handled s then handle s else s\<lparr>sig_pc := Killed\<rparr>
      | _ \<Rightarrow> s\<lparr>sig_pc := Killed\<rparr>)"

inductive sig_step :: "sig \<Rightarrow> sig \<Rightarrow> bool" where
  sig_main: "sig_main s = Some t \<Longrightarrow> sig_step s t"
| sig_sent: "sig_pc s \<noteq> Killed \<Longrightarrow> sig_step s (deliver g s)"

section \<open>Invariant\<close>

text \<open>The \<open>handled\<close> lines come before the mask is set; behind it, one line and no more.\<close>

definition early :: "sig \<Rightarrow> bool" where
  "early s \<longleftrightarrow> sig_pc s \<in> {AtSignal, AtAction, AtMask} \<or> sig_pc s = Killed \<and> \<not> masked s"

definition sig_inv :: "int \<Rightarrow> sig \<Rightarrow> bool" where
  "sig_inv pid s \<longleftrightarrow>
     stdio_buffer s = ''my pid = '' @ dec pid \<and>
     (\<not> masked s \<longrightarrow> early s \<and> pending_signals s = {} \<and> (\<exists>k. written s = replicate k handled_text)) \<and>
     (masked s \<longrightarrow> sig_pc s \<in> {AtWrite, InPause, Killed} \<and>
        (\<exists>k. written s = replicate k handled_text @ (if sig_pc s = InPause then [sleep_text] else []) \<or>
             sig_pc s = Killed \<and> written s = replicate k handled_text @ [sleep_text]))"

lemma sig_inv_main: "sig_inv pid s \<Longrightarrow> sig_main s = Some t \<Longrightarrow> sig_inv pid t"
  by (cases "sig_pc s"; cases "masked s") (auto simp: sig_main_def sig_inv_def early_def split: if_splits)

lemma sig_inv_deliver:
  assumes inv: "sig_inv pid s" and alive: "sig_pc s \<noteq> Killed"
  shows "sig_inv pid (deliver g s)"
proof (cases "g = SIGKILL \<or> masked s")
  case True
  with inv alive show ?thesis
    by (cases "masked s") (auto simp: deliver_def sig_inv_def early_def split: if_splits)
next
  case False
  then have m: "\<not> masked s" by simp
  then obtain k where k: "written s = replicate k handled_text" using inv by (auto simp: sig_inv_def)
  have "sig_pc s \<in> {AtSignal, AtAction, AtMask}" using inv m alive by (auto simp: sig_inv_def early_def)
  moreover have "written s @ [handled_text] = replicate (Suc k) handled_text"
    by (simp add: k replicate_append_same)
  ultimately show ?thesis
    using False inv m by (cases g) (auto simp: deliver_def handle_def sig_inv_def early_def simp del: replicate.simps)
qed

interpretation sig_machine: invariant_machine "\<lambda>s. s = sig_start pid" sig_step "sig_inv pid" for pid
proof
  show "sig_inv pid s" if "s = sig_start pid" for s
    using that by (simp add: sig_inv_def early_def sig_start_def)
  show "sig_inv pid t" if "sig_inv pid s" "sig_step s t" for s t
    using that(2,1) by cases (simp_all add: sig_inv_main sig_inv_deliver)
qed

section \<open>What is written\<close>


text \<open>The state in \<open>pause\<close> with the signals blocked.\<close>

definition asleep :: "int \<Rightarrow> sig" where
  "asleep pid = \<lparr>sig_pc = InPause, handled = True, masked = True, pending_signals = {},
     stdio_buffer = ''my pid = '' @ dec pid, written = [sleep_text]\<rparr>"

lemma asleep_reachable: "reachable (\<lambda>s. s = sig_start pid) sig_step (asleep pid)"
proof -
  define s1 where "s1 = (sig_start pid)\<lparr>handled := True, sig_pc := AtAction\<rparr>"
  define s2 where "s2 = s1\<lparr>handled := True, sig_pc := AtMask\<rparr>"
  define s3 where "s3 = s2\<lparr>masked := True, sig_pc := AtWrite\<rparr>"
  have 0: "reachable (\<lambda>s. s = sig_start pid) sig_step (sig_start pid)" by (rule reach_start) (rule refl)
  have 1: "sig_step (sig_start pid) s1" by (rule sig_main) (simp add: sig_main_def s1_def sig_start_def)
  have 2: "sig_step s1 s2" by (rule sig_main) (simp add: sig_main_def s2_def s1_def)
  have 3: "sig_step s2 s3" by (rule sig_main) (simp add: sig_main_def s3_def s2_def)
  have 4: "sig_step s3 (asleep pid)"
    by (rule sig_main) (simp add: sig_main_def s3_def s2_def s1_def sig_start_def asleep_def)
  show ?thesis by (rule reach_step [OF reach_step [OF reach_step [OF reach_step [OF 0 1] 2] 3] 4])
qed


end
