(* ===== verification/Basics.thy ===== *)
theory Basics
  imports Complex_Main CLib
begin

text \<open>
  The first exercises: the average of \<open>les3_git\<close> and the comparison of \<open>les4_makefile\<close>, in which
  an overflow of \<open>int\<close> is \<open>None\<close>; the scopes of \<open>les6_var_types\<close>; the two layouts of
  \<open>les7_alignment\<close>; and the leak of \<open>les2_valgrind\<close>.
\<close>

section \<open>int\<close>

definition in_int :: "int \<Rightarrow> bool" where
  "in_int n \<longleftrightarrow> - (2 ^ 31) \<le> n \<and> n < 2 ^ 31"

definition int_op :: "int \<Rightarrow> int option" where
  "int_op n = (if in_int n then Some n else None)"

lemma int_op_Some [simp]: "int_op n = Some m \<longleftrightarrow> in_int n \<and> m = n"
  by (auto simp: int_op_def)

section \<open>les3: an average\<close>

text \<open>
  One element added to \<open>sum\<close>: the code adds it twice and subtracts it once.
\<close>

definition add_element :: "int \<Rightarrow> int \<Rightarrow> int option" where
  "add_element s buf = do {
     s \<leftarrow> int_op (s + buf);
     s \<leftarrow> int_op (s + buf);
     int_op (s - buf)
   }"

text \<open>
  The loop from the \<open>i\<close>-th element on. What \<open>scanf\<close> converts is a list; where it converts nothing,
  \<open>buf\<close> keeps what the stack holds, \<open>garbage i\<close>.
\<close>

function sum_elements :: "(nat \<Rightarrow> int) \<Rightarrow> int \<Rightarrow> nat \<Rightarrow> int option list \<Rightarrow> int \<Rightarrow> int option" where
  "sum_elements garbage n i scanned s =
     (if int i < n then do {
        let buf = (case scanned of Some b # _ \<Rightarrow> b | _ \<Rightarrow> garbage i);
        s \<leftarrow> add_element s buf;
        sum_elements garbage n (i + 1) (tl scanned) s
      } else Some s)"
  by pat_completeness auto
termination by (relation "measure (\<lambda>(g, n, i, sc, s). nat (n - int i))") auto

declare sum_elements.simps [simp del]

text \<open>\<open>main\<close>: the number of elements, then they; \<open>average\<close> is how \<open>printf\<close> writes \<open>sum / (float)n\<close>.\<close>

definition les3_main :: "int \<Rightarrow> (nat \<Rightarrow> int) \<Rightarrow> (int \<Rightarrow> int \<Rightarrow> string) \<Rightarrow> int option list \<Rightarrow> string option" where
  "les3_main stack garbage average scanned = do {
     let n = (case scanned of Some k # _ \<Rightarrow> k | _ \<Rightarrow> stack);
     s \<leftarrow> sum_elements garbage n 0 (tl scanned) 0;
     Some (''Enter number of elements: '' @ ''Enter numbers, separated by spaces:'' @ nl @
           nl @ ''Average: '' @ average s n @ nl)
   }"

text \<open>Every element has to fit twice on top of the sum before it.\<close>

fun fits_twice :: "int \<Rightarrow> int list \<Rightarrow> bool" where
  "fits_twice s [] = True"
| "fits_twice s (b # bs) \<longleftrightarrow> in_int (s + 2 * b) \<and> fits_twice (s + b) bs"

lemma add_element_eq:
  "in_int s \<Longrightarrow> add_element s b = (if in_int (s + 2 * b) then Some (s + b) else None)"
  by (auto simp: add_element_def int_op_def in_int_def)

lemma fits_twice_in_int: "in_int s \<Longrightarrow> in_int (s + 2 * b) \<Longrightarrow> in_int (s + b)"
  by (auto simp: in_int_def)

lemma sum_elements_eq:
  "in_int s \<Longrightarrow> n = int i + int (length bs) \<Longrightarrow>
   sum_elements garbage n i (map Some bs) s = (if fits_twice s bs then Some (s + sum_list bs) else None)"
proof (induction bs arbitrary: i s)
  case Nil
  then show ?case by (subst sum_elements.simps) simp
next
  case (Cons b bs)
  have "sum_elements garbage n (i + 1) (map Some bs) (s + b) =
      (if fits_twice (s + b) bs then Some (s + b + sum_list bs) else None)" if "in_int (s + 2 * b)"
    using that Cons.prems by (intro Cons.IH fits_twice_in_int [of s b]) simp_all
  then show ?case
    using Cons.prems by (subst sum_elements.simps) (auto simp: add_element_eq Let_def algebra_simps)
qed

text \<open>The average is that of the elements typed, and the program is
  defined exactly when at no element the sum so far and twice the element overflow. A
  sum that fits is not enough.\<close>

theorem average_defined:
  shows "les3_main stack garbage average (Some (int (length bs)) # map Some bs) =
    (if fits_twice 0 bs
     then Some (''Enter number of elements: '' @ ''Enter numbers, separated by spaces:'' @ nl @
           nl @ ''Average: '' @ average (sum_list bs) (int (length bs)) @ nl)
     else None)"
    and "in_int (sum_list [2000000000]) \<and> \<not> fits_twice 0 [2000000000]"
  using sum_elements_eq [of 0 "int (length bs)" 0 bs garbage]
  by (simp_all add: les3_main_def Let_def in_int_def)

section \<open>les4: a square\<close>

definition myPow :: "int \<Rightarrow> int option" where
  "myPow a = int_op (a * a)"

text \<open>The loop of \<open>main\<close> from \<open>i\<close> on; \<open>pow\<close> is the function of the library, whose result may be
  inexact. The result of \<open>main\<close> and its output.\<close>

function compare_pow :: "(int \<Rightarrow> int \<Rightarrow> real) \<Rightarrow> int \<Rightarrow> (int \<times> string) option" where
  "compare_pow pow i =
     (if i < 12345 then do {
        p \<leftarrow> myPow i;
        if real_of_int p \<noteq> pow i 2 then Some (- 1, ''ERROR in pow'' @ nl)
        else compare_pow pow (i + 1)
      } else Some (0, ''SUCCESS'' @ nl))"
  by pat_completeness auto
termination by (relation "measure (\<lambda>(p, i). nat (12345 - i))") auto

declare compare_pow.simps [simp del]

lemma square_in_int: "0 \<le> i \<Longrightarrow> i < 12345 \<Longrightarrow> in_int (i * i)"
proof -
  assume i: "0 \<le> i" "i < 12345"
  then have "i * i \<le> 12345 * 12345" by (intro mult_mono) simp_all
  moreover have "- (2 ^ 31) \<le> i * i" by (rule order_trans [OF _ zero_le_square]) simp
  ultimately show ?thesis by (simp add: in_int_def)
qed

lemma compare_pow_from:
  "0 \<le> i \<Longrightarrow> i \<le> 12345 \<Longrightarrow> compare_pow pow i =
     Some (if \<forall>j \<in> {i..<12345}. pow j 2 = real_of_int (j * j) then (0, ''SUCCESS'' @ nl) else (- 1, ''ERROR in pow'' @ nl))"
proof (induction "nat (12345 - i)" arbitrary: i)
  case 0
  then show ?case by (subst compare_pow.simps) simp
next
  case (Suc k)
  then have i: "i < 12345" by simp
  have split: "{i..<12345} = insert i {i + 1..<12345}" using i by auto
  have step: "compare_pow pow i = (if real_of_int (i * i) \<noteq> pow i 2 then Some (- 1, ''ERROR in pow'' @ nl) else compare_pow pow (i + 1))"
    using i square_in_int [OF Suc.prems(1) i] by (subst compare_pow.simps) (simp add: myPow_def int_op_def)
  have "compare_pow pow (i + 1) =
     Some (if \<forall>j \<in> {i + 1..<12345}. pow j 2 = real_of_int (j * j) then (0, ''SUCCESS'' @ nl) else (- 1, ''ERROR in pow'' @ nl))"
    using Suc.hyps(2) Suc.prems i by (intro Suc.hyps(1)) simp_all
  then show ?case unfolding step split by (simp add: eq_commute [of "pow i 2"])
qed

text \<open>The test passes exactly when the library squares all numbers tested exactly; no square
  overflows.\<close>

theorem compare_pow_result:
  "compare_pow pow 0 =
     Some (if \<forall>j \<in> {0..<12345}. pow j 2 = real_of_int (j * j) then (0, ''SUCCESS'' @ nl) else (- 1, ''ERROR in pow'' @ nl))"
  by (rule compare_pow_from) simp_all

text \<open>\<open>test.c\<close> returns a number of which the exit status keeps eight bits.\<close>

definition test_main :: int where "test_main = (let a = 12345 in a)"

definition exit_status :: "int \<Rightarrow> int" where "exit_status n = n mod 256"

lemma test_status: "exit_status test_main = 57"
  by (simp add: exit_status_def test_main_def)

section \<open>les6: scopes\<close>

text \<open>\<open>main\<close>: in the block, the outer variable up to the declaration of the inner one.\<close>

definition les6_main :: string where
  "les6_main =
     (let test = 111;
          test = test + 1; out = dec test @ nl;
          test' = 555; test' = test' + 1; out = out @ dec test' @ nl;
          out = out @ dec test @ nl
      in out @ ''HelloWorld'')"

section \<open>les7: layouts\<close>

text \<open>The offset of a member and the size of a struct, whose members have sizes and alignments; a
  packed struct has alignments 1.\<close>

definition align_to :: "nat \<Rightarrow> nat \<Rightarrow> nat" where
  "align_to a n = (n + a - 1) div a * a"

fun offsets :: "nat \<Rightarrow> (nat \<times> nat) list \<Rightarrow> nat list \<times> nat" where
  "offsets n [] = ([], n)"
| "offsets n ((width, a) # ms) =
     (let p = align_to a n; (ps, e) = offsets (p + width) ms in (p # ps, e))"

definition struct_size :: "(nat \<times> nat) list \<Rightarrow> nat" where
  "struct_size ms = align_to (fold max (map snd ms) 1) (snd (offsets 0 ms))"

definition aligned_structure :: "(nat \<times> nat) list" where "aligned_structure = [(1, 1), (4, 4)]"
definition unaligned_structure :: "(nat \<times> nat) list" where "unaligned_structure = [(1, 1), (4, 1)]"

definition load_int :: "u8 list \<Rightarrow> nat \<Rightarrow> int option" where
  "load_int mem p = (if p + 3 < length mem
     then Some (sint (le32 (mem ! p) (mem ! (p + 1)) (mem ! (p + 2)) (mem ! (p + 3)))) else None)"

text \<open>What is printed of the bytes read as one of the structs.\<close>

definition struct_text :: "string \<Rightarrow> (nat \<times> nat) list \<Rightarrow> u8 list \<Rightarrow> string option" where
  "struct_text name ms mem =
     (case fst (offsets 0 ms) of
        [symbol, number] \<Rightarrow> do {
          c \<leftarrow> load8 mem symbol;
          n \<leftarrow> load_int mem number;
          Some (name @ '' struct: '' @ [char_of_byte c] @ '' '' @ dec n @ '' (sizeof = '' @ dec (int (struct_size ms)) @ '')'' @ nl)
        }
      | _ \<Rightarrow> None)"

definition les7_bytes :: "u8 list" where
  "les7_bytes = map byte_of_char [CHR ''A'', NUL, NUL, NUL, NUL, CHR ''B'', NUL, NUL, NUL, NUL]"

definition les7_main :: "string option" where
  "les7_main = do {
     a \<leftarrow> struct_text ''Aligned'' aligned_structure les7_bytes;
     b \<leftarrow> struct_text ''Unaligned'' unaligned_structure les7_bytes;
     Some (a @ b)
   }"

text \<open>A member is placed at a multiple of its alignment, behind the members before it.\<close>

lemma align_to_props: "0 < a \<Longrightarrow> n \<le> align_to a n \<and> align_to a n < n + a \<and> a dvd align_to a n"
proof -
  assume a: "0 < a"
  let ?m = "n + a - 1"
  have "align_to a n = ?m - ?m mod a" by (simp add: align_to_def minus_mod_eq_div_mult)
  moreover have "?m mod a < a" "?m mod a \<le> ?m" using a by simp_all
  moreover have "a dvd align_to a n" by (simp add: align_to_def)
  ultimately show ?thesis using a by linarith
qed

text \<open>The aligned struct reads the \<open>B\<close> as the second byte of its number, the packed one four zeros.\<close>

theorem layouts:
  "les7_main = Some (''Aligned struct: A 16896 (sizeof = 8)'' @ nl @ ''Unaligned struct: A 0 (sizeof = 5)'' @ nl)"
  by code_simp

section \<open>les2: a leak\<close>

text \<open>The blocks on the heap, each with its ints; \<open>malloc\<close> returns memory, in block \<open>length heap\<close>.\<close>

definition leak_step :: "int list list \<Rightarrow> int list list \<times> nat" where
  "leak_step heap = (heap @ [(replicate 100 0)[15 := 123]], length heap)"

fun leak_loop :: "nat \<Rightarrow> int list list \<Rightarrow> nat option \<Rightarrow> int list list \<times> nat option" where
  "leak_loop 0 heap ptr = (heap, ptr)"
| "leak_loop (Suc n) heap ptr = (let (heap, p) = leak_step heap in leak_loop n heap (Some p))"

definition read_element :: "int list list \<Rightarrow> nat \<Rightarrow> nat \<Rightarrow> int option" where
  "read_element heap p k =
     (if p < length heap \<and> k < length (heap ! p) then Some (heap ! p ! k) else None)"

text \<open>\<open>main\<close>: the text printed, and the number of blocks left after the one in \<open>ptr\<close> is freed.\<close>

definition leak_main :: "(string \<times> nat) option" where
  "leak_main = do {
     let (heap, ptr) = leak_loop 10 [] None;
     p \<leftarrow> ptr;
     n \<leftarrow> read_element heap p 150;
     Some (dec n, length heap - 1)
   }"

text \<open>The element read lies behind the block; ten blocks are allocated then, and the pointer to the
  last is the only one kept.\<close>

theorem leak_main_result:
  "leak_main = None" and "map_prod length id (leak_loop 10 [] None) = (10, Some 9)"
  by code_simp+

end
