(* ===== verification/Datagrams.thy ===== *)
theory Datagrams
  imports Echo
begin

text \<open>
  Programs around datagrams: the broadcast and multicast pairs of \<open>les23_broadcast_sock\<close> and the
  UDP half of \<open>les20_multiclient_chat\<close>; then the programs of \<open>les19_sockets\<close> and \<open>les20\<close> from their
  arguments and error checks on. The network hands a datagram to a socket bound to an address
  and a port when it was sent to these; it may lose or reorder them, and what it delivers is a parameter.
\<close>

section \<open>les23: broadcast and multicast\<close>

record datagram =
  dg_addr :: u32
  dg_port :: u16
  dg_data :: string

definition BEST_PORT_EVAR :: u16 where "BEST_PORT_EVAR = 7777"

text \<open>The senders: ten times the same buffer, of which \<open>strcpy\<close> sets the first bytes. What is sent,
  the text printed, and the result of \<open>main\<close>.\<close>

definition caster :: "string \<Rightarrow> int \<Rightarrow> (int \<Rightarrow> string) \<Rightarrow> string \<Rightarrow> (datagram list \<times> string \<times> int) option" where
  "caster dest errno strerror stack =
     (if errno \<noteq> 0 then Some ([], ''Error '' @ strerror errno, - 1)
      else do {
        buffer \<leftarrow> strcpy stack ''Hello, client!'';
        text' \<leftarrow> shown_text buffer;
        Some (replicate 10 \<lparr>dg_addr = inet_addr dest, dg_port = htons BEST_PORT_EVAR, dg_data = take 256 buffer\<rparr>,
              concat (replicate 10 (''sended '' @ text' @ nl)), 0)
      })"

definition broadcastSrv_main :: "int \<Rightarrow> (int \<Rightarrow> string) \<Rightarrow> string \<Rightarrow> (datagram list \<times> string \<times> int) option" where
  "broadcastSrv_main = caster ''192.168.0.255''"

definition multicastSrv_main :: "int \<Rightarrow> (int \<Rightarrow> string) \<Rightarrow> string \<Rightarrow> (datagram list \<times> string \<times> int) option" where
  "multicastSrv_main = caster ''224.0.0.251''"

text \<open>The receivers: up to five datagrams of those delivered. The text printed, and whether \<open>main\<close> has
  returned; otherwise it waits in \<open>recvfrom\<close>.\<close>

fun listen_loop :: "nat \<Rightarrow> datagram list \<Rightarrow> string \<Rightarrow> (string \<times> bool) option" where
  "listen_loop 0 ds buffer = Some ([], True)"
| "listen_loop (Suc n) [] buffer = Some ([], False)"
| "listen_loop (Suc n) (d # ds) buffer = do {
     let buffer = recv_into 256 (dg_data d) buffer;
     text' \<leftarrow> shown_text buffer;
     (out, returned) \<leftarrow> listen_loop n ds buffer;
     Some (''received '' @ text' @ nl @ out, returned)
   }"

definition for_socket :: "u32 \<Rightarrow> u16 \<Rightarrow> datagram \<Rightarrow> bool" where
  "for_socket a p d \<longleftrightarrow> dg_addr d = a \<and> dg_port d = p"

definition listener :: "string \<Rightarrow> int \<Rightarrow> (int \<Rightarrow> string) \<Rightarrow> string \<Rightarrow> datagram list \<Rightarrow> (string \<times> bool) option" where
  "listener dest errno strerror stack ds =
     (if errno \<noteq> 0 then Some (''Error '' @ strerror errno, True)
      else listen_loop 5 (filter (for_socket (inet_addr dest) (htons BEST_PORT_EVAR)) ds) stack)"

definition broadcast_main :: "int \<Rightarrow> (int \<Rightarrow> string) \<Rightarrow> string \<Rightarrow> datagram list \<Rightarrow> (string \<times> bool) option" where
  "broadcast_main = listener ''192.168.0.255''"

definition multicast_main :: "int \<Rightarrow> (int \<Rightarrow> string) \<Rightarrow> string \<Rightarrow> datagram list \<Rightarrow> (string \<times> bool) option" where
  "multicast_main = listener ''224.0.0.1''"

text \<open>What the senders send.\<close>

definition greeting_gram :: "string \<Rightarrow> string \<Rightarrow> datagram" where
  "greeting_gram dest stack = \<lparr>dg_addr = inet_addr dest, dg_port = htons BEST_PORT_EVAR,
     dg_data = ''Hello, client!'' @ NUL # drop 15 stack\<rparr>"

lemma caster_sends:
  assumes "length stack = 256"
  shows "caster dest 0 strerror stack = Some (replicate 10 (greeting_gram dest stack),
    concat (replicate 10 (''sended Hello, client!'' @ nl)), 0)"
proof -
  have copy: "strcpy stack ''Hello, client!'' = Some (''Hello, client!'' @ NUL # drop 15 stack)"
    using assms by (simp add: strcpy_def eval_nat_numeral)
  moreover have "shown_text (''Hello, client!'' @ NUL # drop 15 stack) = Some ''Hello, client!''"
    using cstr_append_NUL [of "''Hello, client!''" "drop 15 stack"] by (simp add: shown_text_def NUL_def)
  moreover have "take 256 (''Hello, client!'' @ NUL # drop 15 stack) = ''Hello, client!'' @ NUL # drop 15 stack"
    using assms by simp
  ultimately show ?thesis
    unfolding caster_def greeting_gram_def by (simp only: Option.bind.simps refl if_False not_not simp_thms append.simps)
qed

lemma listen_greetings:
  assumes "length stack = 256"
  shows "length buffer = 256 \<Longrightarrow> listen_loop n (replicate k (greeting_gram dest stack)) buffer =
    Some (concat (replicate (min n k) (''received Hello, client!'' @ nl)), n \<le> k)"
proof (induction n arbitrary: k buffer)
  case (Suc n)
  show ?case
  proof (cases k)
    case (Suc m)
    let ?b = "''Hello, client!'' @ NUL # drop 15 stack"
    have l: "length ?b = 256" using assms by simp
    have r: "recv_into 256 (dg_data (greeting_gram dest stack)) buffer = ?b"
      using Suc.prems l by (simp add: recv_into_def greeting_gram_def)
    have t: "shown_text ?b = Some ''Hello, client!''"
      using cstr_append_NUL [of "''Hello, client!''" "drop 15 stack"] by (simp add: shown_text_def NUL_def)
    show ?thesis
      using Suc.IH [OF l, of m] unfolding Suc replicate_Suc listen_loop.simps Let_def r t by simp
  qed simp
qed simp

text \<open>Whatever datagrams are lost, doubled or reordered, the listener of the broadcast prints its greeting for
  each that arrives and returns after five; the listener of the multicast group gets none of
  its sender's, which go to another group.\<close>

theorem casting:
  assumes "length stack = 256" and "length stack' = 256"
    and "broadcastSrv_main 0 e stack = Some (bs, out, r)" and "multicastSrv_main 0 e stack = Some (ms, out', r')"
    and "set ds \<subseteq> set (bs @ ms)"
  shows "broadcast_main 0 e stack' (filter (\<lambda>d. d \<in> set bs) ds) =
      (let k = length (filter (\<lambda>d. d \<in> set bs) ds) in
       Some (concat (replicate (min 5 k) (''received Hello, client!'' @ nl)), 5 \<le> k))"
    and "multicast_main 0 e stack' ds = Some ([], False)"
proof -
  let ?b = "greeting_gram ''192.168.0.255'' stack" and ?m = "greeting_gram ''224.0.0.251'' stack"
  have bs: "bs = replicate 10 ?b" and ms: "ms = replicate 10 ?m"
    using assms(3,4) caster_sends [OF assms(1)]
    by (simp_all add: broadcastSrv_main_def multicastSrv_main_def)
  have addr: "inet_addr ''224.0.0.251'' \<noteq> inet_addr ''224.0.0.1''" "inet_addr ''192.168.0.255'' \<noteq> inet_addr ''224.0.0.1''"
    by code_simp+
  have sub: "set ds \<subseteq> {?b, ?m}" using assms(5) by (auto simp: bs ms split: if_splits)
  define fs where "fs = filter (\<lambda>d. d \<in> set bs) ds"
  have "set fs \<subseteq> {?b}" by (auto simp: fs_def bs)
  then have fs: "fs = replicate (length fs) ?b" by (intro replicate_eqI) auto
  have "filter (for_socket (inet_addr ''192.168.0.255'') (htons BEST_PORT_EVAR)) fs = fs"
    by (subst filter_id_conv) (use \<open>set fs \<subseteq> {?b}\<close> in \<open>auto simp: for_socket_def greeting_gram_def\<close>)
  then have "broadcast_main 0 e stack' fs = listen_loop 5 fs stack'" by (simp add: broadcast_main_def listener_def)
  also have "\<dots> = listen_loop 5 (replicate (length fs) ?b) stack'" by (rule arg_cong [OF fs])
  also have "\<dots> = Some (concat (replicate (min 5 (length fs)) (''received Hello, client!'' @ nl)), 5 \<le> length fs)"
    by (rule listen_greetings [OF assms(1,2)])
  finally show "broadcast_main 0 e stack' (filter (\<lambda>d. d \<in> set bs) ds) =
      (let k = length (filter (\<lambda>d. d \<in> set bs) ds) in
       Some (concat (replicate (min 5 k) (''received Hello, client!'' @ nl)), 5 \<le> k))"
    by (simp only: fs_def Let_def)
  have "filter (for_socket (inet_addr ''224.0.0.1'') (htons BEST_PORT_EVAR)) ds = []"
    using sub addr by (auto simp: filter_empty_conv for_socket_def greeting_gram_def)
  then show "multicast_main 0 e stack' ds = Some ([], False)"
    by (simp add: multicast_main_def listener_def eval_nat_numeral)
qed

section \<open>les20 over UDP\<close>

text \<open>
  Who receives at the address the client sends to: nobody, the main process of the server, or a
  child of it on a socket of its own; each with its buffer.
\<close>

datatype peer = Nobody | MainProcess string | ChildProcess string

definition udp20_hello :: string where
  "udp20_hello = ''Hello, my dear client. Are you ok?'' @ nl"

text \<open>
  \<open>udpServer\<close> on a datagram: the main process forks a child, which greets; a child answers.
  The answer and who sent it; nobody answers at a port without a socket.
\<close>

definition udp20_serve :: "string \<Rightarrow> peer \<Rightarrow> (string \<times> peer) option option" where
  "udp20_serve d p =
     (case p of
        Nobody \<Rightarrow> Some None
      | MainProcess buffer \<Rightarrow> do {
          let buffer = recv_into 256 d buffer;
          buffer \<leftarrow> strcpy buffer udp20_hello;
          Some (Some (take 256 buffer, ChildProcess buffer))
        }
      | ChildProcess buffer \<Rightarrow>
          (let (buffer, a) = tcp20_serve d buffer in Some (Some (a, ChildProcess buffer))))"

definition CLIENT_PORT :: u16 where "CLIENT_PORT = 25555"
definition SERVER_PORT :: u16 where "SERVER_PORT = 15555"

definition peer_at :: "u16 \<Rightarrow> string \<Rightarrow> peer" where
  "peer_at port sstack = (if port = SERVER_PORT then MainProcess sstack else Nobody)"

text \<open>
  \<open>udpClient\<close> on the words typed: what it shows, and whether it has returned, waits in \<open>recvfrom\<close>,
  or waits for a word. \<open>recvfrom\<close> stores the sender's address in \<open>addr\<close>, where the next word goes.
\<close>

datatype client_end = Quit | AwaitsAnswer | AwaitsWord

fun udp20_client :: "string list \<Rightarrow> string \<Rightarrow> peer \<Rightarrow> (string option list \<times> client_end) option" where
  "udp20_client [] buffer p = Some ([], AwaitsWord)"
| "udp20_client (w # ws) buffer p = do {
     buffer \<leftarrow> strcpy buffer w;
     if cstr buffer = ''quit'' then Some ([], Quit)
     else do {
       answer \<leftarrow> udp20_serve (take 256 buffer) p;
       case answer of
         None \<Rightarrow> Some ([], AwaitsAnswer)
       | Some (a, p) \<Rightarrow> do {
           let buffer = recv_into 256 a buffer;
           (shown, e) \<leftarrow> udp20_client ws buffer p;
           Some (shown_text buffer # shown, e)
         }
     }
   }"

definition udp20_session :: "u16 \<Rightarrow> string list \<Rightarrow> string \<Rightarrow> string \<Rightarrow> (string option list \<times> client_end) option" where
  "udp20_session port ws cstack sstack = udp20_client ws cstack (peer_at port sstack)"

lemma word20_copy:
  assumes "word20 w" and "length b = 256"
  obtains b' where "strcpy b w = Some b'" and "length b' = 256" and "cstr b' \<noteq> ''quit''" and "take 256 b' = b'"
proof -
  from assms obtain b' where b': "strcpy b w = Some b'" by (auto simp: strcpy_def word20_def)
  have "length b' = 256" using length_strcpy [OF b'] assms(2) by simp
  moreover have "cstr b' \<noteq> ''quit''" using cstr_strcpy [OF b'] assms(1) by (simp add: word20_def)
  ultimately show thesis using that b' by simp
qed

lemma udp20_child_run:
  "list_all word20 ws \<Longrightarrow> length b = 256 \<Longrightarrow> length s = 256 \<Longrightarrow>
   udp20_client ws b (ChildProcess s) = Some (map (\<lambda>w. Some (az w)) ws, AwaitsWord)"
proof (induction ws arbitrary: b s)
  case (Cons w ws)
  then have w: "word20 w" by simp
  obtain b' where b': "strcpy b w = Some b'" "length b' = 256" "cstr b' \<noteq> ''quit''" "take 256 b' = b'"
    using word20_copy [OF w Cons.prems(2)] .
  note serve = serve20 [OF w b'(1) Cons.prems(2,3), unfolded b'(4)]
  have "recv_into 256 (az b') b' = az b'" using serve(2) b'(2) by (simp add: recv_into_def)
  moreover have "udp20_client ws (az b') (ChildProcess (az b')) = Some (map (\<lambda>w. Some (az w)) ws, AwaitsWord)"
    using Cons.prems serve(2) by (intro Cons.IH) simp_all
  ultimately show ?case
    using b' serve by (simp add: udp20_serve_def)
qed simp

lemma hello_copied:
  assumes "length b = 256"
  shows "\<exists>h. strcpy b udp20_hello = Some h \<and> length h = 256 \<and> shown_text h = Some udp20_hello"
proof -
  obtain h where h: "strcpy b udp20_hello = Some h"
    using assms by (simp add: strcpy_def udp20_hello_def nl_def)
  have "length h = 256" using length_strcpy [OF h] assms by simp
  moreover have "NUL \<in> set h" using h by (auto simp: strcpy_def split: if_splits)
  then have "shown_text h = Some udp20_hello"
    using cstr_strcpy [OF h] by (simp add: shown_text_def udp20_hello_def nl_def NUL_def)
  ultimately show ?thesis using h by blast
qed

text \<open>The client sends to a port where nobody listens: it shows nothing and waits after
  the first word. With the server's port it would work: the greeting for the first word, and each further
  word's own answer, since the client sends to whoever answered last.\<close>

theorem udp20_ports:
  assumes w: "word20 w" and ws: "list_all word20 ws" and l: "length cstack = 256" "length sstack = 256"
  shows "udp20_session CLIENT_PORT (w # ws) cstack sstack = Some ([], AwaitsAnswer)"
    and "udp20_session SERVER_PORT (w # ws) cstack sstack =
      Some (Some udp20_hello # map (\<lambda>w. Some (az w)) ws, AwaitsWord)"
proof -
  obtain b where b: "strcpy cstack w = Some b" "length b = 256" "cstr b \<noteq> ''quit''" "take 256 b = b"
    using word20_copy [OF w l(1)] .
  show "udp20_session CLIENT_PORT (w # ws) cstack sstack = Some ([], AwaitsAnswer)"
    using b by (simp add: udp20_session_def peer_at_def udp20_serve_def CLIENT_PORT_def SERVER_PORT_def)
  have r: "recv_into 256 b sstack = b" using b(2) l(2) by (simp add: recv_into_def)
  obtain h where h: "strcpy b udp20_hello = Some h" and hl: "length h = 256" and "shown_text h = Some udp20_hello"
    using hello_copied b(2) by blast
  moreover have "recv_into 256 h b = h" using hl b(2) by (simp add: recv_into_def)
  moreover have "take 256 h = h" using hl by simp
  ultimately show "udp20_session SERVER_PORT (w # ws) cstack sstack =
      Some (Some udp20_hello # map (\<lambda>w. Some (az w)) ws, AwaitsWord)"
    using b h hl r udp20_child_run [OF ws hl hl]
    by (simp add: udp20_session_def peer_at_def udp20_serve_def)
qed

section \<open>les19 and les20 from their start\<close>

text \<open>The choice every \<open>main\<close> makes by its last argument, the name of the program included.\<close>

definition over_udp :: "string list \<Rightarrow> bool" where
  "over_udp argv \<longleftrightarrow> last argv = ''udp''"

text \<open>The first lines of the clients of \<open>les19\<close>, and \<open>tcpclient\<close> on the pieces it
  receives, empty ones once the server has closed; \<open>refused\<close> is the error of a failed \<open>connect\<close>. The text printed, and the exit status if it exits.\<close>

definition socket_lines :: "int \<Rightarrow> int \<Rightarrow> (int \<Rightarrow> string) \<Rightarrow> string" where
  "socket_lines sock errno strerror = ''socket = '' @ dec sock @ nl @ ''errno: '' @ strerror errno @ nl"

fun tcp19_loop :: "string list \<Rightarrow> string \<Rightarrow> string option" where
  "tcp19_loop [] buff = Some []"
| "tcp19_loop (d # ds) buff = do {
     let buff = tcp19_answer d buff;
     line \<leftarrow> shown_text buff;
     out \<leftarrow> tcp19_loop ds buff;
     Some (line @ nl @ out)
   }"

definition tcpclient :: "int \<Rightarrow> int \<Rightarrow> (int \<Rightarrow> string) \<Rightarrow> int option \<Rightarrow> string list \<Rightarrow> (string \<times> int option) option" where
  "tcpclient sock errno strerror refused ds =
     (let out = socket_lines sock errno strerror in
      case refused of
        Some errno \<Rightarrow> Some (out @ ''Can't connect'' @ nl @ ''errno: '' @ strerror errno @ nl, Some 1)
      | None \<Rightarrow> map_option (\<lambda>lines. (out @ lines, None)) (tcp19_loop ds tcp19_start))"

definition udpclient :: "int \<Rightarrow> int \<Rightarrow> (int \<Rightarrow> string) \<Rightarrow> string \<Rightarrow> (string \<times> int option) option" where
  "udpclient sock errno strerror d =
     map_option (\<lambda>line. (socket_lines sock errno strerror @ line @ nl, Some 0)) (udp19_client d)"

definition client19_main :: "string list \<Rightarrow> int \<Rightarrow> int \<Rightarrow> (int \<Rightarrow> string) \<Rightarrow> int option \<Rightarrow> string list
    \<Rightarrow> (string \<times> int option) option" where
  "client19_main argv sock errno strerror refused ds =
     (if over_udp argv then (case ds of [] \<Rightarrow> Some (socket_lines sock errno strerror, None)
        | d # _ \<Rightarrow> udpclient sock errno strerror d)
      else tcpclient sock errno strerror refused ds)"

text \<open>The servers: their message when there is no socket, then up to 26 pieces. What is sent and what is
  printed.\<close>

function server19_loop :: "(nat \<Rightarrow> string \<Rightarrow> string \<Rightarrow> string \<times> string) \<Rightarrow> nat \<Rightarrow> string list \<Rightarrow> string
    \<Rightarrow> (string list \<times> string) option" where
  "server19_loop serve i ds buff =
     (if i < 26 then
        (case ds of [] \<Rightarrow> Some ([], [])
         | d # ds \<Rightarrow> do {
             let (buff, a) = serve i d buff;
             line \<leftarrow> shown_text buff;
             (sent, out) \<leftarrow> server19_loop serve (i + 1) ds buff;
             Some (a # sent, line @ nl @ out)
           })
      else Some ([], []))"
  by pat_completeness auto
termination by (relation "measure (\<lambda>(f, i, ds, b). 26 - i)") auto

declare server19_loop.simps [simp del]

definition no_socket :: "int \<Rightarrow> int \<Rightarrow> (int \<Rightarrow> string) \<Rightarrow> string" where
  "no_socket sock errno strerror =
     (if sock = - 1 then ''socket = '' @ dec sock @ nl @ ''error occured: '' @ strerror errno @ nl else [])"

definition server19_main :: "string list \<Rightarrow> int \<Rightarrow> int \<Rightarrow> (int \<Rightarrow> string) \<Rightarrow> string list \<Rightarrow> string
    \<Rightarrow> (string list \<times> string) option" where
  "server19_main argv sock errno strerror ds stack =
     (if over_udp argv
      then map_option (apsnd (\<lambda>out. ''started udp server'' @ no_socket sock errno strerror @ out))
             (server19_loop udp19_serve 0 ds stack)
      else map_option (apsnd (\<lambda>out. ''started tcp server'' @ no_socket sock errno strerror @ out))
             (server19_loop tcp19_serve 0 ds stack))"

text \<open>\<open>main\<close> of the client of \<open>les20\<close>: the text printed before the dialogue, and which one begins.\<close>

datatype dialogue = TcpDialogue | UdpDialogue | NoDialogue

definition client20_main :: "string list \<Rightarrow> int \<Rightarrow> (int \<Rightarrow> string) \<Rightarrow> string \<times> dialogue" where
  "client20_main argv errno strerror =
     (if over_udp argv then (''started udp client:'' @ nl, UdpDialogue)
      else if errno \<noteq> 0 then (''started tcp client:'' @ nl @ ''error '' @ strerror errno @ nl, NoDialogue)
      else (''started tcp client:'' @ nl, TcpDialogue))"

text \<open>After the server has closed, \<open>recv\<close> stores nothing and the client repeats its last line for ever.\<close>

theorem client_repeats:
  assumes "\<not> over_udp argv" and "line_in = Some line" and "line_in = shown_text (tcp19_answer d tcp19_start)"
  shows "client19_main argv sock errno strerror None (d # replicate n []) =
    Some (socket_lines sock errno strerror @ concat (replicate (Suc n) (line @ nl)), None)"
proof -
  have "tcp19_loop (replicate n []) b = Some (concat (replicate n (line @ nl)))" if "shown_text b = Some line" for b
    using that by (induction n) (simp_all add: tcp19_answer_def recv_into_def)
  then show ?thesis using assms by (simp add: client19_main_def tcpclient_def Let_def)
qed

text \<open>A server answers a piece at most, 26 in all, and with as many lines.\<close>

theorem server_answers:
  "server19_loop serve i ds buff = Some (sent, out) \<Longrightarrow> i \<le> 26 \<Longrightarrow> length sent = min (26 - i) (length ds)"
proof (induction serve i ds buff arbitrary: sent out rule: server19_loop.induct)
  case (1 serve i ds buff)
  show ?case
  proof (cases "i < 26 \<and> ds \<noteq> []")
    case True
    then obtain d ds' where ds: "ds = d # ds'" by (cases ds) auto
    obtain b a where ba: "serve i d buff = (b, a)" by (cases "serve i d buff")
    from "1.prems"(1) True ba obtain line sent' out' where
      line: "shown_text b = Some line" and rest: "server19_loop serve (i + 1) ds' b = Some (sent', out')" and "sent = a # sent'"
      by (subst (asm) server19_loop.simps) (auto simp: ds bind_eq_Some_conv)
    moreover have "length sent' = min (26 - (i + 1)) (length ds')"
      using "1.IH" [OF _ ds ba [symmetric] refl line rest] True by simp
    ultimately show ?thesis using True ds by auto
  next
    case False
    then show ?thesis using "1.prems" by (subst (asm) server19_loop.simps) (auto split: list.splits)
  qed
qed

end
