(* ===== verification/Refinements.thy ===== *)
theory Refinements
  imports LifeLiveness FSMServer "HOL-Library.Sublist"
begin

text \<open>
  Abstract specifications of two concurrent programs, and that the programs implement them: the
  life simulator is a market in which deliveries and purchases happen at once; the server of
  \<open>les21_FSM\<close> is a dispatcher that serves clients in the order in which it heard of them.
\<close>

section \<open>The life simulator as a market\<close>

record market =
  stock :: "nat \<Rightarrow> int"
  wanted :: "nat \<Rightarrow> int"
  supplies :: nat

definition market_open :: "market \<Rightarrow> bool" where
  "market_open m \<longleftrightarrow> m = \<lparr>stock = (\<lambda>_. START_AMOUNT), wanted = (\<lambda>_. START_DEMAND), supplies = 0\<rparr>"

text \<open>A delivery to a storage, and a purchase of a buyer there, each in one step.\<close>

inductive market_step :: "market \<Rightarrow> market \<Rightarrow> bool" where
  delivery: "i < N_STORAGES \<Longrightarrow>
    market_step m (m\<lparr>stock := (stock m)(i := provide (stock m i)), supplies := supplies m + 1\<rparr>)"
| purchase: "i < N_STORAGES \<Longrightarrow> b < N_BUYERS \<Longrightarrow> buy (stock m i) (wanted m b) = (r, d) \<Longrightarrow>
    market_step m (m\<lparr>stock := (stock m)(i := r), wanted := (wanted m)(b := d)\<rparr>)"

definition market_of :: "life \<Rightarrow> market" where
  "market_of s = \<lparr>stock = remains s, wanted = demands s, supplies = deliveries s\<rparr>"

lemma in_range_holds: "life_inv s \<Longrightarrow> holds s t = Some i \<Longrightarrow> i < N_STORAGES"
  by (simp add: life_inv_def in_range_def)

lemma provider_visible:
  assumes "life_inv s"
  shows "market_of (prov_step p s) = market_of s \<or> market_step (market_of s) (market_of (prov_step p s))"
proof (cases "prov s p")
  case (PStore i r)
  have "r = remains s i" using assms PStore by (simp add: life_inv_def loaded_inv_def)
  then have "market_of (prov_step p s) =
      (market_of s)\<lparr>stock := (stock (market_of s))(i := provide (stock (market_of s) i)), supplies := supplies (market_of s) + 1\<rparr>"
    using PStore by (simp add: prov_step_def market_of_def)
  moreover have "i < N_STORAGES" using in_range_holds [of s "Prov p" i] assms PStore by simp
  ultimately show ?thesis using delivery [of i "market_of s"] by simp
qed (simp_all add: prov_step_def market_of_def lf_print_def)

lemma buyer_visible:
  assumes "life_inv s" and "b < N_BUYERS" and "buyer_step b s = Some t"
  shows "market_of t = market_of s \<or> market_step (market_of s) (market_of t)"
proof (cases "buyer s b")
  case (BStore i r)
  have r: "r = remains s i" using assms(1) BStore by (simp add: life_inv_def loaded_inv_def)
  obtain r' d' where buy: "buy r (demands s b) = (r', d')" by fastforce
  have "market_of t = (market_of s)\<lparr>stock := (stock (market_of s))(i := r'), wanted := (wanted (market_of s))(b := d')\<rparr>"
    using BStore assms(3) buy by (auto simp: buyer_step_def market_of_def)
  moreover have "i < N_STORAGES" using in_range_holds [of s "Buyer b" i] assms(1) BStore by simp
  ultimately show ?thesis using purchase [of i b "market_of s" r' d'] assms(2) buy by (simp add: market_of_def r)
qed (use assms(3) in \<open>auto simp: buyer_step_def market_of_def lf_print_def split: if_splits\<close>)

interpretation life_market: simulation "\<lambda>s. s = life_init" life_step life_inv market_of market_open market_step
proof unfold_locales
  show "market_open (market_of s)" if "s = life_init" for s
    using that by (simp add: market_open_def market_of_def life_init_def)
  show "market_of t = market_of s \<or> market_step (market_of s) (market_of t)" if "life_inv s" "life_step s t" for s t
    using that(2) by cases (use that(1) provider_visible buyer_visible in blast)+
qed

text \<open>C4: the simulator refines the market. Though a purchase takes a look at the storage, a try of the
  mutex, a load and a store, between which the other threads go on, every run shows on the stocks and
  demands a run of the market, in which it is one step.\<close>

theorem life_refines_market:
  assumes "reachable (\<lambda>s. s = life_init) life_step s" and "life_step\<^sup>*\<^sup>* s t"
  shows "reachable market_open market_step (market_of s) \<and> market_step\<^sup>*\<^sup>* (market_of s) (market_of t)"
  using life_market.abs_reachable [OF assms(1)]
    life_market.abs_run [OF assms(2) life_machine.inv_reachable [OF assms(1)]] by blast

theorem life_refines_market_witness:
  "market_step\<^sup>*\<^sup>* (market_of life_init) (market_of ((prov_step 1 ^^ 3) life_init)) \<and>
   stock (market_of ((prov_step 1 ^^ 3) life_init)) 0 = 1500"
proof -
  have step: "life_step s (prov_step 1 s)" for s by (rule ls_prov) (simp add: N_PROVIDERS_def)
  have "life_step\<^sup>*\<^sup>* life_init ((prov_step 1 ^^ n) life_init)" for n
  proof (induction n)
    case (Suc n)
    then show ?case using rtranclp.rtrancl_into_rtrancl [OF Suc step] by simp
  qed simp
  moreover have "stock (market_of ((prov_step 1 ^^ 3) life_init)) 0 = 1500"
    by (simp add: numeral_3_eq_3 prov_step_def life_init_def market_of_def N_STORAGES_def provide_def
      START_AMOUNT_def PROV_AMOUNT_def)
  ultimately show ?thesis
    using life_refines_market [OF reach_start [of "\<lambda>s. s = life_init" life_init life_step, OF refl]] by blast
qed

section \<open>The server as a queue\<close>

text \<open>
  Clients heard of wait in a line in the order they came; the one who came last may be sent away, the one who
  came first is served. The line holds the one about to be queued as its last.
\<close>

record dispatcher =
  heard :: "address list"
  line :: "address list"
  served :: "address list"
  refused :: "address list"

definition dispatcher_open :: "dispatcher \<Rightarrow> bool" where
  "dispatcher_open d \<longleftrightarrow> d = \<lparr>heard = [], line = [], served = [], refused = []\<rparr>"

inductive dispatch_step :: "dispatcher \<Rightarrow> dispatcher \<Rightarrow> bool" where
  hear: "dispatch_step d (d\<lparr>heard := heard d @ [a], line := line d @ [a]\<rparr>)"
| serve: "line d = a # l \<Longrightarrow> dispatch_step d (d\<lparr>line := l, served := served d @ [a]\<rparr>)"
| refuse: "line d = l @ [a] \<Longrightarrow> dispatch_step d (d\<lparr>line := l, refused := refused d @ [a]\<rparr>)"

text \<open>Whoever was heard is served in this order, or still in line, or was refused.\<close>

definition dispatch_inv :: "dispatcher \<Rightarrow> bool" where
  "dispatch_inv d \<longleftrightarrow> subseq (served d @ line d) (heard d) \<and>
     mset (heard d) = mset (served d) + mset (line d) + mset (refused d)"

lemma subseq_appendD: "subseq (xs @ ys) zs \<Longrightarrow> subseq xs zs"
  by (rule subseq_order.trans [of xs "xs @ ys"]) (auto intro: subseq_rev_drop_many)

lemma dispatch_inv_step: "dispatch_step d e \<Longrightarrow> dispatch_inv d \<Longrightarrow> dispatch_inv e"
proof (induction rule: dispatch_step.induct)
  case (hear d a)
  have "subseq ((served d @ line d) @ [a]) (heard d @ [a])"
    by (rule list_emb_append_mono) (use hear in \<open>simp_all add: dispatch_inv_def\<close>)
  with hear show ?case by (simp add: dispatch_inv_def)
next
  case (serve d a l)
  then show ?case by (simp add: dispatch_inv_def)
next
  case (refuse d l a)
  then have "subseq ((served d @ l) @ [a]) (heard d)" by (simp add: dispatch_inv_def)
  then have "subseq (served d @ l) (heard d)" by (rule subseq_appendD)
  with refuse show ?case by (simp add: dispatch_inv_def)
qed

interpretation dispatch_machine: invariant_machine dispatcher_open dispatch_step dispatch_inv
proof unfold_locales
  show "dispatch_inv d" if "dispatcher_open d" for d using that by (simp add: dispatcher_open_def dispatch_inv_def)
qed (rule dispatch_inv_step)

definition dispatcher_of :: "fsm \<Rightarrow> dispatcher" where
  "dispatcher_of s = \<lparr>heard = received s,
     line = map msg_address (queue s) @ (if m_state s = QUEUE_CLIENT then [m_address s] else []),
     served = taken s, refused = lost s\<rparr>"

lemma main_turn_visible:
  "dispatcher_of (main_turn pid errno kids sender accepted s) = dispatcher_of s \<or>
   dispatch_step (dispatcher_of s) (dispatcher_of (main_turn pid errno kids sender accepted s))"
proof (cases "m_state s")
  case WAIT_FOR_CLIENT
  show ?thesis
  proof (cases "errno = 0")
    case True
    then have "dispatcher_of (main_turn pid errno kids sender accepted s) =
        (dispatcher_of s)\<lparr>heard := heard (dispatcher_of s) @ [sender], line := line (dispatcher_of s) @ [sender]\<rparr>"
      using WAIT_FOR_CLIENT by (simp add: main_turn_def dispatcher_of_def Let_def)
    then show ?thesis using hear by metis
  next
    case False
    then show ?thesis using WAIT_FOR_CLIENT by (simp add: main_turn_def dispatcher_of_def Let_def)
  qed
next
  case QUEUE_CLIENT
  show ?thesis
  proof (cases accepted)
    case True
    then show ?thesis using QUEUE_CLIENT by (simp add: main_turn_def dispatcher_of_def Let_def)
  next
    case False
    let ?l = "map msg_address (queue s)"
    have "line (dispatcher_of s) = ?l @ [m_address s]" using QUEUE_CLIENT by (simp add: dispatcher_of_def)
    from refuse [OF this] show ?thesis
      using QUEUE_CLIENT False by (simp add: main_turn_def dispatcher_of_def Let_def)
  qed
qed (auto simp: main_turn_def dispatcher_of_def Let_def)

lemma fsm_visible:
  assumes "fsm_step s t"
  shows "dispatcher_of t = dispatcher_of s \<or> dispatch_step (dispatcher_of s) (dispatcher_of t)"
  using assms
proof cases
  case (main_turn errno kids pid sender accepted)
  then show ?thesis using main_turn_visible by blast
next
  case (child_takes i b bs errno pid sock strerror c)
  let ?l = "map msg_address bs @ (if m_state s = QUEUE_CLIENT then [m_address s] else [])"
  have "line (dispatcher_of s) = msg_address b # ?l" using child_takes by (simp add: dispatcher_of_def)
  then have "dispatch_step (dispatcher_of s) ((dispatcher_of s)\<lparr>line := ?l, served := served (dispatcher_of s) @ [msg_address b]\<rparr>)"
    by (rule serve)
  moreover have "dispatcher_of t = (dispatcher_of s)\<lparr>line := ?l, served := served (dispatcher_of s) @ [msg_address b]\<rparr>"
    using child_takes by (simp add: dispatcher_of_def)
  ultimately show ?thesis by simp
qed (auto simp: dispatcher_of_def main_end_def main_shutdown_def)

interpretation fsm_dispatch: simulation "\<lambda>s. \<exists>fd addr. s = fsm_init fd addr" fsm_step
  "\<lambda>s. clients_inv s \<and> shape_inv s" dispatcher_of dispatcher_open dispatch_step
proof unfold_locales
  show "dispatcher_open (dispatcher_of s)" if "\<exists>fd addr. s = fsm_init fd addr" for s
    using that by (auto simp: dispatcher_open_def dispatcher_of_def fsm_init_def)
qed (use fsm_visible in blast)

text \<open>C2: first come, first served. The main process and the ten handlers with the message queue between them
  refine the dispatcher: handlers take clients in the order in which the main process heard of
  them, whatever handlers run, fail or are interrupted; only refused ones are left out.\<close>

theorem fsm_refines_dispatcher:
  assumes "reachable (\<lambda>s. \<exists>fd addr. s = fsm_init fd addr) fsm_step s"
  shows "reachable dispatcher_open dispatch_step (dispatcher_of s) \<and>
    subseq (taken s @ map msg_address (queue s)) (received s) \<and>
    (lost s = [] \<longrightarrow> received s = taken s @ map msg_address (queue s) @ (if m_state s = QUEUE_CLIENT then [m_address s] else []))"
proof -
  have r: "reachable dispatcher_open dispatch_step (dispatcher_of s)" by (rule fsm_dispatch.abs_reachable [OF assms])
  have inv: "dispatch_inv (dispatcher_of s)" by (rule dispatch_machine.inv_reachable [OF r])
  let ?p = "if m_state s = QUEUE_CLIENT then [m_address s] else []"
  have sub: "subseq ((taken s @ map msg_address (queue s)) @ ?p) (received s)"
    using inv by (simp add: dispatch_inv_def dispatcher_of_def)
  then have "subseq (taken s @ map msg_address (queue s)) (received s)" by (rule subseq_appendD)
  moreover have "received s = taken s @ map msg_address (queue s) @ ?p" if "lost s = []"
  proof -
    have "mset (received s) = mset (taken s @ map msg_address (queue s) @ ?p)"
      using inv that by (simp add: dispatch_inv_def dispatcher_of_def)
    then have "length (received s) = length (taken s @ map msg_address (queue s) @ ?p)" by (rule mset_eq_length)
    with sub show ?thesis using subseq_same_length [OF sub] by simp
  qed
  ultimately show ?thesis using r by blast
qed

theorem fsm_refines_dispatcher_witness:
  "\<exists>s. fsm_step\<^sup>*\<^sup>* (fsm_init 0 9) s \<and> received s = [7] \<and> lost s = [] \<and> received s = taken s @ [m_address s]
     \<and> reachable dispatcher_open dispatch_step (dispatcher_of s)"
proof -
  obtain s where run: "fsm_step\<^sup>*\<^sup>* (fsm_init 0 9) s"
    and r: "reachable (\<lambda>s. \<exists>fd addr. s = fsm_init fd addr) fsm_step s"
    and s: "received s = [7]" "taken s = []" "queue s = []" "lost s = []" "m_state s = QUEUE_CLIENT" "m_address s = 7"
    using example_run by blast
  from fsm_refines_dispatcher [OF r] run s show ?thesis by (intro exI [of _ s]) simp
qed

end
