(* ===== verification/ChatServers.thy ===== *)
theory ChatServers
  imports Datagrams
begin

text \<open>
  \<open>server.c\<close> of \<open>les20_multiclient_chat\<close> as a whole: the main process, which forks a child for every
  client, and the children, each with its copy of the buffer, over any order of their turns. A process
  forked for one client cannot tell what the others do; the locale \<open>fork_server\<close> has what this rests on.
\<close>

section \<open>Processes\<close>

text \<open>A child: its process number, its buffer, whether it has greeted, the pieces it has received, and what it has
  sent and printed.\<close>

record kid =
  kid_pid :: int
  kid_buf :: string
  kid_greeted :: bool
  kid_got :: "string list"
  kid_sent :: "string list"
  kid_out :: string

record chat20 =
  own_buf :: string
  kids :: "kid list"
  own_out :: string

definition new_kid :: "int \<Rightarrow> string \<Rightarrow> kid" where
  "new_kid pid b = \<lparr>kid_pid = pid, kid_buf = b, kid_greeted = False, kid_got = [], kid_sent = [], kid_out = []\<rparr>"

text \<open>
  Events: the main process takes a client and \<open>fork\<close> gives a number, not positive when it failed; a
  child begins; a child receives a piece, empty when \<open>recv\<close> fails or the client is gone.
\<close>

datatype kid_event = Greets | Receives string
datatype 'a chat_event = NewClient 'a int | ToChild nat kid_event

section \<open>The children\<close>

text \<open>What both loops do with a piece.\<close>

definition kid_answer :: "string \<Rightarrow> kid \<Rightarrow> kid option" where
  "kid_answer d k = do {
     line \<leftarrow> shown_text (recv_into 256 d (kid_buf k));
     let (b, a) = tcp20_serve d (kid_buf k);
     Some (k\<lparr>kid_buf := b, kid_got := kid_got k @ [d],
             kid_out := kid_out k @ dec (kid_pid k) @ '' received '' @ line @ nl,
             kid_sent := kid_sent k @ [a]\<rparr>)
   }"

definition tcp20_greet :: "kid \<Rightarrow> kid option" where
  "tcp20_greet k = Some (k\<lparr>kid_greeted := True, kid_sent := kid_sent k @ [connected]\<rparr>)"

definition udp20_greet :: "kid \<Rightarrow> kid option" where
  "udp20_greet k = do {
     b \<leftarrow> strcpy (kid_buf k) udp20_hello;
     line \<leftarrow> shown_text b;
     Some (k\<lparr>kid_greeted := True, kid_buf := b, kid_out := kid_out k @ ''sending '' @ line @ '' '' @ nl,
             kid_sent := kid_sent k @ [take 256 b]\<rparr>)
   }"

definition kid_turn :: "(kid \<Rightarrow> kid option) \<Rightarrow> kid_event \<Rightarrow> kid \<Rightarrow> kid option" where
  "kid_turn greet e k =
     (case e of
        Greets \<Rightarrow> if kid_greeted k then Some k else greet k
      | Receives d \<Rightarrow> if kid_greeted k then kid_answer d k else Some k)"

section \<open>The main process\<close>

definition born :: "int \<Rightarrow> string \<Rightarrow> kid list" where
  "born pid b = (if 0 < pid then [new_kid pid b] else [])"

definition tcp20_accept :: "unit \<Rightarrow> int \<Rightarrow> chat20 \<Rightarrow> chat20" where
  "tcp20_accept u pid s =
     s\<lparr>own_out := own_out s @ ''A new client connected!'' @ nl, kids := kids s @ born pid (own_buf s)\<rparr>"

definition udp20_hear :: "string \<Rightarrow> int \<Rightarrow> chat20 \<Rightarrow> chat20" where
  "udp20_hear d pid s =
     (let b = recv_into 256 d (own_buf s) in
      s\<lparr>own_buf := b, own_out := own_out s @ ''A new client connected!'' @ nl, kids := kids s @ born pid b\<rparr>)"

text \<open>Any sequence of events; a child that does not exist has no turn.\<close>

fun chat_run :: "('a \<Rightarrow> int \<Rightarrow> chat20 \<Rightarrow> chat20) \<Rightarrow> (kid \<Rightarrow> kid option) \<Rightarrow> 'a chat_event list \<Rightarrow> chat20 \<Rightarrow> chat20 option" where
  "chat_run new greet [] s = Some s"
| "chat_run new greet (NewClient a pid # es) s = chat_run new greet es (new a pid s)"
| "chat_run new greet (ToChild i e # es) s =
     (if i < length (kids s)
      then do {
        k \<leftarrow> kid_turn greet e (kids s ! i);
        chat_run new greet es (s\<lparr>kids := (kids s)[i := k]\<rparr>)
      }
      else chat_run new greet es s)"

text \<open>\<open>tcpServer\<close> reads a number before it takes clients: \<open>typed\<close> tells whether one was typed.\<close>

definition tcp20_server :: "int \<Rightarrow> (int \<Rightarrow> string) \<Rightarrow> bool \<Rightarrow> unit chat_event list \<Rightarrow> string \<Rightarrow> chat20 option" where
  "tcp20_server errno strerror typed es stack =
     (let s = \<lparr>own_buf = stack, kids = [], own_out = ''Errno: '' @ strerror errno\<rparr> in
      if typed then chat_run tcp20_accept tcp20_greet es s else Some s)"

definition udp20_server :: "string chat_event list \<Rightarrow> string \<Rightarrow> chat20 option" where
  "udp20_server es stack = chat_run udp20_hear udp20_greet es \<lparr>own_buf = stack, kids = [], own_out = []\<rparr>"

definition server20_main :: "int \<Rightarrow> (int \<Rightarrow> string) \<Rightarrow> bool \<Rightarrow> unit chat_event list \<Rightarrow> string \<Rightarrow> chat20 option" where
  "server20_main = tcp20_server"

section \<open>What a child can tell\<close>

text \<open>The events without the turns of the other children, and the states alike for child \<open>j\<close>.\<close>

definition not_of_others :: "nat \<Rightarrow> 'a chat_event \<Rightarrow> bool" where
  "not_of_others j e = (case e of NewClient _ _ \<Rightarrow> True | ToChild i _ \<Rightarrow> i = j)"

definition purge :: "nat \<Rightarrow> 'a chat_event list \<Rightarrow> 'a chat_event list" where
  "purge j es = filter (not_of_others j) es"

definition alike :: "nat \<Rightarrow> chat20 \<Rightarrow> chat20 \<Rightarrow> bool" where
  "alike j s t \<longleftrightarrow> own_buf s = own_buf t \<and> own_out s = own_out t \<and> length (kids s) = length (kids t) \<and>
     (j < length (kids s) \<longrightarrow> kids s ! j = kids t ! j)"

lemma purge_simps [simp]:
  "purge j [] = []" "purge j (NewClient a pid # es) = NewClient a pid # purge j es"
  "purge j (ToChild i e # es) = (if i = j then ToChild i e # purge j es else purge j es)"
  by (simp_all add: purge_def not_of_others_def)

lemma alike_refl [simp]: "alike j s s"
  by (simp add: alike_def)

lemma alike_other: "i \<noteq> j \<Longrightarrow> alike j (s\<lparr>kids := (kids s)[i := k]\<rparr>) t \<longleftrightarrow> alike j s t"
  by (simp add: alike_def)

lemma alike_other': "i \<noteq> j \<Longrightarrow> alike j s (t\<lparr>kids := (kids t)[i := k]\<rparr>) \<longleftrightarrow> alike j s t"
  by (simp add: alike_def)

lemma alike_own: "alike j s t \<Longrightarrow> alike j (s\<lparr>kids := (kids s)[j := k]\<rparr>) (t\<lparr>kids := (kids t)[j := k]\<rparr>)"
  by (simp add: alike_def)

text \<open>
  The contract of the main process: it does not look at its children, and adds one by its own state alone.
\<close>

locale fork_server =
  fixes new :: "'a \<Rightarrow> int \<Rightarrow> chat20 \<Rightarrow> chat20"
  assumes new_alike: "alike j s t \<Longrightarrow> alike j (new a pid s) (new a pid t)"
begin

lemma purged_alike:
  "alike j s t \<Longrightarrow> rel_option (alike j) (chat_run new greet (purge j es) s) (chat_run new greet (purge j es) t)"
proof (induction es arbitrary: s t)
  case (Cons e es)
  show ?case
  proof (cases e)
    case (NewClient a pid)
    then show ?thesis using Cons.IH [OF new_alike [OF Cons.prems]] by simp
  next
    case (ToChild i f)
    have own: "length (kids s) = length (kids t)" "j < length (kids s) \<Longrightarrow> kids s ! j = kids t ! j"
      using Cons.prems by (simp_all add: alike_def)
    show ?thesis
    proof (cases "i = j \<and> j < length (kids s)")
      case True
      then show ?thesis
        using own ToChild Cons.IH [OF alike_own [OF Cons.prems]]
        by (cases "kid_turn greet f (kids t ! j)") simp_all
    next
      case False
      then show ?thesis using own ToChild Cons.IH [OF Cons.prems] by auto
    qed
  qed
qed simp

lemma purged_run:
  "chat_run new greet es s = Some t \<Longrightarrow> \<exists>u. chat_run new greet (purge j es) s = Some u \<and> alike j t u"
proof (induction es arbitrary: s)
  case (Cons e es)
  show ?case
  proof (cases e)
    case (NewClient a pid)
    then show ?thesis using Cons by simp
  next
    case (ToChild i f)
    show ?thesis
    proof (cases "i < length (kids s)")
      case True
      then obtain k where k: "kid_turn greet f (kids s ! i) = Some k"
        and run: "chat_run new greet es (s\<lparr>kids := (kids s)[i := k]\<rparr>) = Some t"
        using Cons.prems ToChild by (auto simp: bind_eq_Some_conv)
      obtain u where u: "chat_run new greet (purge j es) (s\<lparr>kids := (kids s)[i := k]\<rparr>) = Some u" "alike j t u"
        using Cons.IH [OF run] by blast
      show ?thesis
      proof (cases "i = j")
        case True
        then show ?thesis using ToChild k u \<open>i < length (kids s)\<close> by simp
      next
        case False
        have "alike j (s\<lparr>kids := (kids s)[i := k]\<rparr>) s" by (simp add: alike_other False)
        from purged_alike [OF this, of greet es] u(1) obtain v where
          v: "chat_run new greet (purge j es) s = Some v" "alike j u v" by (auto simp: option_rel_Some1)
        then show ?thesis using ToChild False u(2) by (auto simp: alike_def)
      qed
    next
      case False
      then show ?thesis using Cons ToChild by auto
    qed
  qed
qed simp

lemma purged_fails: "chat_run new greet es s = None \<Longrightarrow> \<exists>j. chat_run new greet (purge j es) s = None"
proof (induction es arbitrary: s)
  case (Cons e es)
  show ?case
  proof (cases e)
    case (NewClient a pid)
    then show ?thesis using Cons by simp
  next
    case (ToChild i f)
    show ?thesis
    proof (cases "i < length (kids s)")
      case True
      show ?thesis
      proof (cases "kid_turn greet f (kids s ! i)")
        case None
        then show ?thesis using ToChild True by (intro exI [of _ i]) simp
      next
        case (Some k)
        then obtain j where j: "chat_run new greet (purge j es) (s\<lparr>kids := (kids s)[i := k]\<rparr>) = None"
          using Cons ToChild True by auto
        show ?thesis
        proof (cases "i = j")
          case True
          then show ?thesis using j Some ToChild \<open>i < length (kids s)\<close> by (intro exI [of _ j]) simp
        next
          case False
          have "alike j (s\<lparr>kids := (kids s)[i := k]\<rparr>) s" by (simp add: alike_other False)
          from purged_alike [OF this, of greet es] j show ?thesis
            using ToChild False by (intro exI [of _ j]) simp
        qed
      qed
    next
      case False
      then show ?thesis using Cons ToChild by auto
    qed
  qed
qed simp

end

interpretation tcp20: fork_server tcp20_accept
  by unfold_locales (auto simp: alike_def tcp20_accept_def nth_append)

interpretation udp20: fork_server udp20_hear
  by unfold_locales (auto simp: alike_def udp20_hear_def Let_def nth_append)


section \<open>The answers\<close>

text \<open>A piece as the clients send it: the whole buffer, with a terminated string in it.\<close>

definition whole_piece :: "string \<Rightarrow> bool" where
  "whole_piece d \<longleftrightarrow> length d = 256 \<and> NUL \<in> set d"

definition whole_event :: "'a chat_event \<Rightarrow> bool" where
  "whole_event e = (case e of ToChild _ (Receives d) \<Rightarrow> whole_piece d | _ \<Rightarrow> True)"

text \<open>A child that has sent \<open>g\<close> and printed \<open>p\<close> to greet its client, and answered all it got.\<close>

definition kid_ok :: "(string \<Rightarrow> bool) \<Rightarrow> string \<Rightarrow> kid \<Rightarrow> bool" where
  "kid_ok g p k \<longleftrightarrow> length (kid_buf k) = 256 \<and>
     (if kid_greeted k
      then (\<exists>h. g h \<and> kid_sent k = h # map az (kid_got k)) \<and>
        kid_out k = p @ concat (map (\<lambda>d. dec (kid_pid k) @ '' received '' @ cstr d @ nl) (kid_got k))
      else kid_got k = [] \<and> kid_sent k = [] \<and> kid_out k = [])"

lemma answer_whole:
  assumes "whole_piece d" and "kid_ok g p k" and "kid_greeted k"
  shows "\<exists>k'. kid_answer d k = Some k' \<and> kid_ok g p k'"
proof -
  have l: "length d = 256" "NUL \<in> set d" using assms(1) by (simp_all add: whole_piece_def)
  have r: "recv_into 256 d (kid_buf k) = d" using l assms(2) by (simp add: recv_into_def kid_ok_def)
  have "length (az d) = 256" using l by (simp add: az_def)
  then have "tcp20_serve d (kid_buf k) = (az d, az d)"
    unfolding tcp20_serve_def r Let_def using l by (simp add: az_update del: One_nat_def)
  moreover have "shown_text d = Some (cstr d)" using l by (simp add: shown_text_def)
  ultimately show ?thesis
    using assms(2,3) \<open>length (az d) = 256\<close> by (auto simp: kid_answer_def r kid_ok_def)
qed

lemma turn_whole:
  assumes "whole_event (ToChild i e)" and "kid_ok g p k"
    and "\<And>k. kid_ok g p k \<Longrightarrow> \<not> kid_greeted k \<Longrightarrow> \<exists>k'. greet k = Some k' \<and> kid_ok g p k'"
  shows "\<exists>k'. kid_turn greet e k = Some k' \<and> kid_ok g p k'"
  using assms answer_whole [of _ g p k] by (cases e) (auto simp: kid_turn_def whole_event_def)

lemma born_ok: "length b = 256 \<Longrightarrow> list_all (kid_ok g p) (born pid b)"
  by (simp add: born_def new_kid_def kid_ok_def)

context fork_server
begin

lemma whole_run:
  assumes greet: "\<And>k. kid_ok g p k \<Longrightarrow> \<not> kid_greeted k \<Longrightarrow> \<exists>k'. greet k = Some k' \<and> kid_ok g p k'"
    and keep: "\<And>a pid s. length (own_buf s) = 256 \<Longrightarrow> list_all (kid_ok g p) (kids s) \<Longrightarrow>
      length (own_buf (new a pid s)) = 256 \<and> list_all (kid_ok g p) (kids (new a pid s))"
  shows "list_all whole_event es \<Longrightarrow> length (own_buf s) = 256 \<Longrightarrow> list_all (kid_ok g p) (kids s) \<Longrightarrow>
    \<exists>t. chat_run new greet es s = Some t \<and> list_all (kid_ok g p) (kids t)"
proof (induction es arbitrary: s)
  case (Cons e es)
  show ?case
  proof (cases e)
    case (NewClient a pid)
    then show ?thesis using Cons keep by simp
  next
    case (ToChild i f)
    show ?thesis
    proof (cases "i < length (kids s)")
      case True
      then have "kid_ok g p (kids s ! i)" using Cons.prems(3) by (simp add: list_all_length)
      then obtain k where k: "kid_turn greet f (kids s ! i) = Some k" "kid_ok g p k"
        using turn_whole [of i f g p "kids s ! i" greet] Cons.prems(1) ToChild greet by (auto simp: whole_event_def)
      then have "list_all (kid_ok g p) ((kids s)[i := k])"
        using Cons.prems(3) set_update_subset_insert [of "kids s" i k] by (auto simp: list_all_iff)
      then show ?thesis using Cons.IH [of "s\<lparr>kids := (kids s)[i := k]\<rparr>"] Cons.prems k ToChild True by simp
    next
      case False
      then show ?thesis using Cons ToChild by simp
    qed
  qed
qed simp

end

lemma tcp20_greet_ok:
  "kid_ok (\<lambda>h. h = connected) [] k \<Longrightarrow> \<not> kid_greeted k \<Longrightarrow>
   \<exists>k'. tcp20_greet k = Some k' \<and> kid_ok (\<lambda>h. h = connected) [] k'"
  by (simp add: kid_ok_def tcp20_greet_def)

lemma udp20_greet_ok:
  assumes "kid_ok (\<lambda>h. shown_text h = Some udp20_hello) p k" and "\<not> kid_greeted k"
    and "p = ''sending '' @ udp20_hello @ '' '' @ nl"
  shows "\<exists>k'. udp20_greet k = Some k' \<and> kid_ok (\<lambda>h. shown_text h = Some udp20_hello) p k'"
proof -
  obtain h where h: "strcpy (kid_buf k) udp20_hello = Some h" "length h = 256" "shown_text h = Some udp20_hello"
    using assms(1) hello_copied by (auto simp: kid_ok_def)
  with assms show ?thesis by (simp add: kid_ok_def udp20_greet_def)
qed

lemma tcp20_whole:
  assumes "list_all whole_event es" and "length stack = 256"
  shows "\<exists>s. chat_run tcp20_accept tcp20_greet es \<lparr>own_buf = stack, kids = [], own_out = w\<rparr> = Some s \<and>
    list_all (kid_ok (\<lambda>h. h = connected) []) (kids s)"
proof (rule tcp20.whole_run [OF _ _ assms(1)])
  show "\<exists>k'. tcp20_greet k = Some k' \<and> kid_ok (\<lambda>h. h = connected) [] k'"
    if "kid_ok (\<lambda>h. h = connected) [] k" "\<not> kid_greeted k" for k using that by (rule tcp20_greet_ok)
qed (use assms(2) born_ok in \<open>auto simp: tcp20_accept_def\<close>)

lemma udp20_whole:
  assumes "list_all whole_event es" and "length stack = 256" and p: "p = ''sending '' @ udp20_hello @ '' '' @ nl"
  shows "\<exists>s. chat_run udp20_hear udp20_greet es \<lparr>own_buf = stack, kids = [], own_out = w\<rparr> = Some s \<and>
    list_all (kid_ok (\<lambda>h. shown_text h = Some udp20_hello) p) (kids s)"
proof (rule udp20.whole_run [OF _ _ assms(1)])
  show "\<exists>k'. udp20_greet k = Some k' \<and> kid_ok (\<lambda>h. shown_text h = Some udp20_hello) p k'"
    if "kid_ok (\<lambda>h. shown_text h = Some udp20_hello) p k" "\<not> kid_greeted k" for k
    using that p by (rule udp20_greet_ok)
qed (use assms(2) born_ok in \<open>auto simp: udp20_hear_def recv_into_def Let_def\<close>)



end
