(* ===== verification/SctpRaw.thy ===== *)
theory SctpRaw
  imports Echo
begin

text \<open>
  The programs of \<open>les24_SCTP_DCCP\<close> each by itself, with its error checks and its output, and that the two
  together hold the dialogue of \<open>Echo\<close>; and \<open>main\<close> of \<open>raw_client.c\<close> in \<open>les25_raw_sockets\<close>.
\<close>

section \<open>les24\<close>

text \<open>
  The client: fifteen messages, each with the number of its stream; a call that fails stores nothing,
  so its message is empty and the number is what the struct held. When no more messages come it
  waits. What is sent and printed; \<open>None\<close> when a text has no end in the buffer.
\<close>

fun sctp_client_loop :: "nat \<Rightarrow> (string \<times> u16) list \<Rightarrow> string \<Rightarrow> (string list \<times> string) option" where
  "sctp_client_loop 0 ms buffer = Some ([], [])"
| "sctp_client_loop (Suc n) [] buffer = Some ([], [])"
| "sctp_client_loop (Suc n) ((d, thr) # ms) buffer = do {
     let buffer = recv_into 256 d buffer;
     line \<leftarrow> shown_text buffer;
     let buffer = buffer[0 := CHR ''K'', 1 := CHR ''Z''];
     let a = take 256 buffer;
     let buffer = buffer[0 := NUL, 1 := CHR ''G''];
     (sent, out) \<leftarrow> sctp_client_loop n ms buffer;
     Some (a # sent, ''received: '' @ line @ '' (thr '' @ dec (uint thr) @ '')'' @ nl @ out)
   }"

text \<open>An error is reported, and the loop entered all the same.\<close>

definition sctp_client_main :: "int \<Rightarrow> (int \<Rightarrow> string) \<Rightarrow> (string \<times> u16) list \<Rightarrow> string \<Rightarrow> (string list \<times> string) option" where
  "sctp_client_main errno strerror ms stack =
     (let report = (if errno \<noteq> 0 then ''ERROR: '' @ strerror errno @ nl else []) in
      map_option (apsnd (\<lambda>out. report @ out)) (sctp_client_loop 15 ms stack))"

text \<open>The server, from round \<open>i\<close> on.\<close>

function sctp_server_loop :: "nat \<Rightarrow> string list \<Rightarrow> string \<Rightarrow> (string list \<times> string) option" where
  "sctp_server_loop i ds buffer =
     (if i < 15 then
        (let a = take 256 buffer in
         case ds of
           [] \<Rightarrow> Some ([a], [])
         | d # ds \<Rightarrow> do {
             let buffer = recv_into 256 d buffer;
             line \<leftarrow> shown_text buffer;
             let buffer = buffer[0 := letter (65 + int i), 1 := letter (90 - int i)];
             (sent, out) \<leftarrow> sctp_server_loop (i + 1) ds buffer;
             Some (a # sent, ''Got '' @ line @ nl @ out)
           })
      else Some ([], []))"
  by pat_completeness auto
termination by (relation "measure (\<lambda>(i, ds, b). 15 - i)") auto

declare sctp_server_loop.simps [simp del]

text \<open>\<open>errno\<close> after \<open>listen\<close> and after \<open>accept\<close>. What is sent, what is printed, and the result of \<open>main\<close>
  (which is 0 at its end).\<close>

definition sctp_server_main :: "int \<Rightarrow> int \<Rightarrow> (int \<Rightarrow> string) \<Rightarrow> string list \<Rightarrow> (string list \<times> string \<times> int) option" where
  "sctp_server_main errno errno' strerror ds =
     (if errno \<noteq> 0 then Some ([], ''ERROR: '' @ strerror errno @ nl, - 1)
      else if errno' \<noteq> 0 then Some ([], ''ERROR: '' @ strerror errno' @ nl, - 1)
      else map_option (\<lambda>(sent, out). (sent, out, 0)) (sctp_server_loop 0 ds sctp_start))"

text \<open>Each program with messages that agree with its buffer from the third letter on.\<close>

lemma server_turns:
  assumes "length rest = 254" and "shown_text (CHR ''K'' # CHR ''Z'' # rest) = Some t"
  shows "sctp_server_loop i (replicate (15 - i) (CHR ''K'' # CHR ''Z'' # rest)) (a # b # rest) =
    Some (if i < 15 then (a # b # rest) # map (\<lambda>j. letter (64 + int j) # letter (91 - int j) # rest) [i + 1..<15] else [],
          concat (replicate (15 - i) (''Got '' @ t @ nl)))"
proof (induction "15 - i" arbitrary: i a b)
  case 0
  then show ?case by (subst sctp_server_loop.simps) simp
next
  case (Suc k)
  then have i: "i < 15" and k: "15 - i = Suc (15 - (i + 1))" by simp_all
  have r: "recv_into 256 (CHR ''K'' # CHR ''Z'' # rest) (a # b # rest) = CHR ''K'' # CHR ''Z'' # rest"
    using assms(1) by (simp add: recv_into_def)
  let ?m = "\<lambda>i. letter (64 + int i) # letter (91 - int i) # rest"
  have IH: "sctp_server_loop (i + 1) (replicate (15 - (i + 1)) (CHR ''K'' # CHR ''Z'' # rest)) (?m (i + 1)) =
      Some (if i + 1 < 15 then ?m (i + 1) # map ?m [i + 1 + 1..<15] else [],
            concat (replicate (15 - (i + 1)) (''Got '' @ t @ nl)))"
    using Suc.hyps by (intro Suc.hyps(1)) simp
  have m: "(CHR ''K'' # CHR ''Z'' # rest)[0 := letter (65 + int i), 1 := letter (90 - int i)] = ?m (i + 1)"
    by simp
  have u: "[i + 1..<15] = (if i + 1 < 15 then (i + 1) # [i + 1 + 1..<15] else [])" by (simp add: upt_conv_Cons)
  have "sctp_server_loop i (replicate (15 - i) (CHR ''K'' # CHR ''Z'' # rest)) (a # b # rest) =
      Some ((a # b # rest) # (if i + 1 < 15 then ?m (i + 1) # map ?m [i + 1 + 1..<15] else []),
            (''Got '' @ t @ nl) @ concat (replicate (15 - (i + 1)) (''Got '' @ t @ nl)))"
    using i assms(1) unfolding k replicate_Suc
    by (subst sctp_server_loop.simps) (simp only: list.case Let_def r assms(2) Option.bind.simps m IH if_True
        case_prod_conv append.assoc, simp)
  moreover have "(if i + 1 < 15 then ?m (i + 1) # map ?m [i + 1 + 1..<15] else []) = map ?m [i + 1..<15]"
    unfolding u by (simp del: upt_Suc)
  ultimately show ?case using i unfolding k replicate_Suc by (simp only: if_True concat.simps)
qed

lemma client_turns:
  assumes "length rest = 254"
  shows "length b = 256 \<Longrightarrow> list_all2 (\<lambda>(d, thr) t. (\<exists>x y. d = x # y # rest) \<and> shown_text d = Some t) ms ts \<Longrightarrow> length ms \<le> n \<Longrightarrow>
    sctp_client_loop n ms b =
      Some (replicate (length ms) (CHR ''K'' # CHR ''Z'' # rest),
            concat (map2 (\<lambda>m t. ''received: '' @ t @ '' (thr '' @ dec (uint (snd m)) @ '')'' @ nl) ms ts))"
proof (induction n arbitrary: ms ts b)
  case (Suc n)
  show ?case
  proof (cases ms)
    case Nil
    then show ?thesis by simp
  next
    case (Cons m ms')
    obtain d thr where m: "m = (d, thr)" by (cases m)
    obtain t ts' x y where ts: "ts = t # ts'" "d = x # y # rest" "shown_text d = Some t"
        "list_all2 (\<lambda>(d, thr) t. (\<exists>x y. d = x # y # rest) \<and> shown_text d = Some t) ms' ts'"
      using Suc.prems(2) unfolding Cons m by (auto simp: list_all2_Cons1)
    have r: "recv_into 256 d b = x # y # rest"
      using assms Suc.prems(1) ts(2) by (simp add: recv_into_def)
    have "sctp_client_loop n ms' (NUL # CHR ''G'' # rest) =
        Some (replicate (length ms') (CHR ''K'' # CHR ''Z'' # rest),
              concat (map2 (\<lambda>m t. ''received: '' @ t @ '' (thr '' @ dec (uint (snd m)) @ '')'' @ nl) ms' ts'))"
      using assms ts(4) Suc.prems(3) Cons by (intro Suc.IH) simp_all
    moreover have "recv_into 256 (x # y # rest) b = x # y # rest" "shown_text (x # y # rest) = Some t"
      using r ts(3) unfolding ts(2) by simp_all
    ultimately show ?thesis using assms unfolding Cons m ts(1,2) by (simp add: Let_def)
  qed
qed simp

text \<open>The two together: each gets what the other sends. The client prints its greeting and fourteen texts that
  differ from it in their first two letters, the server prints the same text fifteen times.\<close>

lemma map_zip_thr: "map2 (\<lambda>m t. f (snd m) t) (map (\<lambda>d. (d, c)) ds) ts = map (f c) (take (length ds) ts)"
proof (induction ds arbitrary: ts)
  case (Cons d ds)
  then show ?case by (cases ts) simp_all
qed simp

theorem sctp_programs_talk:
  assumes "length stack = 256"
  shows "\<exists>fromServer fromClient.
    sctp_server_main 0 0 strerror fromClient = Some (fromServer, concat (replicate 15 (''Got KZllo, client!'' @ nl)), 0) \<and>
    sctp_client_main 0 strerror (map (\<lambda>d. (d, 0)) fromServer) stack = Some (fromClient,
      concat (map (\<lambda>t. ''received: '' @ t @ '' (thr '' @ dec 0 @ '')'' @ nl)
        (''Hello, client!'' # map (\<lambda>j. letter (64 + int j) # letter (91 - int j) # ''llo, client!'') [1..<15])))"
proof -
  let ?r = "''llo, client!'' @ replicate 242 NUL"
  let ?kz = "CHR ''K'' # CHR ''Z'' # ?r"
  let ?ts = "''Hello, client!'' # map (\<lambda>j. letter (64 + int j) # letter (91 - int j) # ''llo, client!'') [1..<15]"
  let ?sent = "(CHR ''H'' # CHR ''e'' # ?r) # map (\<lambda>j. letter (64 + int j) # letter (91 - int j) # ?r) [1..<15]"
  have l: "length ?r = 254" by simp
  have start: "sctp_start = CHR ''H'' # CHR ''e'' # ?r" by (simp add: sctp_start_def zero_padded_def)
  have texts: "shown_text (CHR ''H'' # CHR ''e'' # ?r) = Some ''Hello, client!''" "shown_text ?kz = Some ''KZllo, client!''"
    by (rule sctp_text; simp add: NUL_def)+
  have letters: "shown_text (letter (64 + int j) # letter (91 - int j) # ?r) = Some (letter (64 + int j) # letter (91 - int j) # ''llo, client!'')"
    if "j \<in> set [1..<15]" for j
    using that by (intro sctp_text letter_not_NUL) auto
  have "sctp_server_loop 0 (replicate 15 ?kz) sctp_start = Some (?sent, concat (replicate 15 (''Got KZllo, client!'' @ nl)))"
    using server_turns [OF l texts(2), of 0 "CHR ''H''" "CHR ''e''"] unfolding start by simp
  moreover have "list_all2 (\<lambda>(d, thr) t. (\<exists>x y. d = x # y # ?r) \<and> shown_text d = Some t) (map (\<lambda>d. (d, 0 :: u16)) ?sent) ?ts"
    using texts(1) letters by (auto simp: list_all2_map1 list_all2_map2 list.rel_refl_strong intro!: list.rel_refl_strong)
  then have "sctp_client_loop 15 (map (\<lambda>d. (d, 0 :: u16)) ?sent) stack = Some (replicate 15 ?kz,
      concat (map (\<lambda>t. ''received: '' @ t @ '' (thr '' @ dec 0 @ '')'' @ nl) ?ts))"
    using client_turns [OF l assms, of "map (\<lambda>d. (d, 0 :: u16)) ?sent" ?ts 15]
      map_zip_thr [of "\<lambda>c t. ''received: '' @ t @ '' (thr '' @ dec (uint c) @ '')'' @ nl" "0 :: u16" ?sent ?ts]
    by simp
  ultimately show ?thesis
    by (intro exI [of _ ?sent] exI [of _ "replicate 15 ?kz"]) (simp add: sctp_server_main_def sctp_client_main_def)
qed

section \<open>les25\<close>

text \<open>
  \<open>main\<close> of \<open>raw_client.c\<close>: the packet it sends, made in uninitialised memory \<open>pck\<close>, and what it prints of
  the one it gets, received over the uninitialised \<open>rcvpck\<close>. The status 0 or -1 when it returns; else it waits
  in \<open>recvfrom\<close>. \<open>None\<close> when the text received has no end in \<open>buff\<close>, or, with its frame, does not fit \<open>buffer\<close>.
\<close>

definition recv_text :: "u8 list \<Rightarrow> string option" where
  "recv_text rcvpck = shown_text (map char_of_byte (take 256 (drop 28 rcvpck)))"

definition raw_main :: "int \<Rightarrow> (int \<Rightarrow> string) \<Rightarrow> u8 list \<Rightarrow> u8 list \<Rightarrow> u8 list list \<Rightarrow> (u8 list list \<times> string \<times> int option) option" where
  "raw_main errno strerror pck rcvpck ds =
     (if errno \<noteq> 0 then Some ([], ''Error '' @ strerror errno @ nl, Some (- 1))
      else do {
        packet \<leftarrow> raw_packet pck;
        case raw_wait rcvpck ds of
          None \<Rightarrow> Some ([packet], [], None)
        | Some p \<Rightarrow> do {
            t \<leftarrow> recv_text p;
            let line = ''received: '' @ t @ nl;
            if length line < 512 then Some ([packet], line, Some 0) else None
          }
      })"

lemma cstr_length: "length (cstr b) \<le> length b"
  by (simp add: cstr_def length_takeWhile_le)

text \<open>The text received always fits; only one without an end is a danger.\<close>

theorem raw_main_prints:
  assumes "length pck = 264"
  shows "\<exists>packet. raw_packet pck = Some packet \<and> raw_main 0 strerror pck rcvpck ds =
    (case raw_wait rcvpck ds of
       None \<Rightarrow> Some ([packet], [], None)
     | Some p \<Rightarrow> map_option (\<lambda>t. ([packet], ''received: '' @ t @ nl, Some 0)) (recv_text p))"
proof -
  have packet: "\<exists>packet. raw_packet pck = Some packet"
    using assms by (simp add: raw_packet_def store_string_def store16_def store8_def Let_def)
  have fits: "length t < 500" if "recv_text p = Some t" for p t
    using that cstr_length [of "map char_of_byte (take 256 (drop 28 p))"]
    by (auto simp: recv_text_def shown_text_def split: if_splits)
  obtain packet where packet: "raw_packet pck = Some packet" using packet by blast
  show ?thesis
  proof (cases "raw_wait rcvpck ds")
    case None
    then show ?thesis using packet by (simp add: raw_main_def)
  next
    case (Some p)
    then show ?thesis using packet fits [of p] by (cases "recv_text p") (auto simp: raw_main_def nl_def)
  qed
qed

end
