(* ===== verification/Sockets.thy ===== *)
theory Sockets
  imports ChatServers SctpRaw
begin

text \<open>
  How the programs of \<open>les19\<close>, \<open>les20\<close>, \<open>les23\<close>, \<open>les24\<close> and \<open>les25\<close> set up their sockets, as the calls they make with
  the addresses they give, and which clients reach the servers written for them.
\<close>

section \<open>Calls\<close>

datatype transport = Tcp | Udp | Sctp

text \<open>An address and a port as they stand in \<open>sockaddr_in\<close>, in the order of the network.\<close>

record endpoint =
  sin_addr :: u32
  sin_port :: u16

definition INADDR_ANY :: u32 where "INADDR_ANY = 0"

definition endpoint_at :: "string \<Rightarrow> u16 \<Rightarrow> endpoint" where
  "endpoint_at a p = \<lparr>sin_addr = inet_addr a, sin_port = htons p\<rparr>"

text \<open>\<open>SendTo\<close> is the first datagram of a client that does not connect.\<close>

datatype sock_call =
    Socket transport | RawSocket transport
  | Bind endpoint | Bindx endpoint | Listen nat
  | Connect endpoint | SendTo endpoint
  | Broadcast | Join u32 | Events

section \<open>The programs\<close>

definition tcpServer19 :: "sock_call list" where
  "tcpServer19 = [Socket Tcp, Bind \<lparr>sin_addr = htonl INADDR_ANY, sin_port = htons 1555\<rparr>, Listen 5]"

definition udpServer19 :: "sock_call list" where
  "udpServer19 = [Socket Udp, Bind \<lparr>sin_addr = INADDR_ANY, sin_port = htons 1555\<rparr>]"

definition tcpclient19 :: "sock_call list" where
  "tcpclient19 = [Socket Tcp, Connect (endpoint_at ''192.168.0.30'' 1555)]"

definition udpclient19 :: "sock_call list" where
  "udpclient19 = [Socket Udp, SendTo (endpoint_at ''192.168.0.30'' 1555)]"

definition udpServer20 :: "sock_call list" where
  "udpServer20 = [Socket Udp, Bind (endpoint_at ''127.0.0.1'' 15555)]"

definition tcpServer20 :: "sock_call list" where
  "tcpServer20 = [Socket Tcp, Bind (endpoint_at ''127.0.0.1'' 15555), Listen 10]"

definition udpClient20 :: "sock_call list" where
  "udpClient20 = [Socket Udp, SendTo (endpoint_at ''127.0.0.1'' 25555)]"

definition tcpClient20 :: "sock_call list" where
  "tcpClient20 = [Socket Tcp, Connect (endpoint_at ''127.0.0.1'' 15555)]"

definition broadcastSrv23 :: "sock_call list" where
  "broadcastSrv23 = [Socket Udp, Broadcast, SendTo (endpoint_at ''192.168.0.255'' BEST_PORT_EVAR)]"

definition broadcast23 :: "sock_call list" where
  "broadcast23 = [Socket Udp, Broadcast, Bind (endpoint_at ''192.168.0.255'' BEST_PORT_EVAR)]"

definition multicastSrv23 :: "sock_call list" where
  "multicastSrv23 = [Socket Udp, SendTo (endpoint_at ''224.0.0.251'' BEST_PORT_EVAR)]"

definition multicast23 :: "sock_call list" where
  "multicast23 = [Socket Udp, Join (inet_addr ''224.0.0.1''), Bind (endpoint_at ''224.0.0.1'' BEST_PORT_EVAR)]"

definition SCTP_server24 :: "sock_call list" where
  "SCTP_server24 = [Socket Sctp, Bind (endpoint_at ''192.168.43.51'' BEST_PORT_EVAR),
     Bindx (endpoint_at ''192.168.0.60'' BEST_PORT_EVAR), Listen 10]"

definition SCTP_client24 :: "sock_call list" where
  "SCTP_client24 = [Socket Sctp, Events, Connect (endpoint_at ''127.0.0.1'' BEST_PORT_EVAR)]"

definition raw_client25 :: "sock_call list" where
  "raw_client25 = [RawSocket Udp, SendTo (endpoint_at ''127.0.0.1'' 1555)]"

text \<open>The two sockets of each server of \<open>les22\<close>, and what it waits for.\<close>

definition tcpSock22 :: "sock_call list" where
  "tcpSock22 = [Socket Tcp, Bind (endpoint_at ''127.0.0.1'' 15555), Listen 10]"

definition udpSock22 :: "sock_call list" where
  "udpSock22 = [Socket Udp, Bind (endpoint_at ''127.0.0.1'' 25555)]"

datatype watch = EpollIn transport | PollIn transport | SelectIn transport | SelectStdin

definition on_epoll22 :: "sock_call list \<times> sock_call list \<times> watch list" where
  "on_epoll22 = (tcpSock22, udpSock22, [EpollIn Tcp, EpollIn Udp])"

definition on_poll22 :: "sock_call list \<times> sock_call list \<times> watch list" where
  "on_poll22 = (tcpSock22, udpSock22, [PollIn Tcp, PollIn Udp])"

definition on_select22 :: "sock_call list \<times> sock_call list \<times> watch list" where
  "on_select22 = (tcpSock22, udpSock22, [SelectStdin, SelectIn Tcp, SelectIn Udp])"

section \<open>Who reaches whom\<close>

text \<open>A socket takes what is sent to an endpoint it is bound to, \<open>INADDR_ANY\<close> standing for every
  address of its host; connections only when it listens.\<close>

definition bound_to :: "sock_call list \<Rightarrow> endpoint \<Rightarrow> bool" where
  "bound_to cs e \<longleftrightarrow> list_ex (\<lambda>c. case c of
       Bind b \<Rightarrow> sin_port b = sin_port e \<and> (sin_addr b = INADDR_ANY \<or> sin_addr b = sin_addr e)
     | Bindx b \<Rightarrow> b = e
     | _ \<Rightarrow> False) cs"

definition is_listen :: "sock_call \<Rightarrow> bool" where
  "is_listen c = (case c of Listen _ \<Rightarrow> True | _ \<Rightarrow> False)"

definition takes :: "sock_call list \<Rightarrow> sock_call \<Rightarrow> bool" where
  "takes cs c = (case c of
       Connect e \<Rightarrow> bound_to cs e \<and> list_ex is_listen cs
     | SendTo e \<Rightarrow> bound_to cs e \<and> \<not> list_ex is_listen cs
     | _ \<Rightarrow> False)"

definition uses :: "sock_call list \<Rightarrow> transport \<Rightarrow> bool" where
  "uses cs t \<longleftrightarrow> list_ex (\<lambda>c. c = Socket t \<or> c = RawSocket t) cs"

definition reaches :: "sock_call list \<Rightarrow> sock_call list \<Rightarrow> bool" where
  "reaches client server \<longleftrightarrow>
     list_ex (\<lambda>t. uses client t \<and> uses server t) [Tcp, Udp, Sctp] \<and> list_ex (takes server) client"

lemma htons_inj: "htons a = htons b \<longleftrightarrow> a = b"
  by (metis htons_htons)

lemma addresses:
  "inet_addr ''224.0.0.1'' \<noteq> inet_addr ''224.0.0.251''" "inet_addr ''192.168.43.51'' \<noteq> inet_addr ''127.0.0.1''"
  "inet_addr ''192.168.0.60'' \<noteq> inet_addr ''127.0.0.1''" "inet_addr ''192.168.43.51'' \<noteq> INADDR_ANY"
  "inet_addr ''224.0.0.1'' \<noteq> INADDR_ANY" "htonl INADDR_ANY = INADDR_ANY"
  by code_simp+

lemmas setups = tcpServer19_def udpServer19_def tcpclient19_def udpclient19_def udpServer20_def tcpServer20_def
  udpClient20_def tcpClient20_def broadcastSrv23_def broadcast23_def multicastSrv23_def multicast23_def
  SCTP_server24_def SCTP_client24_def raw_client25_def tcpSock22_def udpSock22_def

text \<open>The UDP client of \<open>les20\<close> misses its server, but fits the server of \<open>les22\<close>. The raw client uses the port of
  the first UDP server and the clients of \<open>les19\<close>; it is not said that the
  host with the address of \<open>les19\<close>'s clients runs the server.\<close>

theorem who_reaches_whom:
  "reaches tcpclient19 tcpServer19" "reaches udpclient19 udpServer19" "reaches tcpClient20 tcpServer20"
  "reaches broadcastSrv23 broadcast23" "reaches raw_client25 udpServer19"
  "reaches tcpClient20 tcpSock22" "reaches udpClient20 udpSock22"
  "\<not> reaches udpClient20 udpServer20" "\<not> reaches multicastSrv23 multicast23" "\<not> reaches SCTP_client24 SCTP_server24"
  by (simp_all add: reaches_def uses_def takes_def bound_to_def is_listen_def endpoint_at_def htons_inj addresses setups)

section \<open>A client without a server\<close>

text \<open>What the SCTP client does when every call fails.\<close>

lemma sctp_client_idle:
  "length rest = 254 \<Longrightarrow> sctp_client_loop n (replicate n ([], thr)) (NUL # CHR ''G'' # rest) =
     Some (replicate n (CHR ''K'' # CHR ''Z'' # rest),
           concat (replicate n (''received: '' @ '' (thr '' @ dec (uint thr) @ '')'' @ nl)))"
  by (induction n) (simp_all add: recv_into_def shown_text_def cstr_def NUL_def Let_def)



end
