(* ===== verification/Screens.thy ===== *)
theory Screens
  imports Complex_Main LifeSim Nano MC
begin

text \<open>
  The windows of the three programs with a terminal interface, \<open>main.c\<close> of \<open>les10_my_nano\<close>,
  \<open>main.c\<close> of \<open>les11_my_mc\<close> and \<open>lifeSimulator.c\<close>: where they are, for a terminal of a given size, and
  that what is drawn stays in them. The calls of ncurses are recorded in order; what ncurses
  makes of them is outside the source.
\<close>

section \<open>Windows\<close>

text \<open>\<open>newwin\<close> and \<open>derwin\<close>: height, width, line and column. A window may have a frame, drawn by \<open>box\<close>
  on its outermost cells.\<close>

record rect =
  r_height :: int
  r_width :: int
  r_y :: int
  r_x :: int

definition newwin :: "int \<Rightarrow> int \<Rightarrow> int \<Rightarrow> int \<Rightarrow> rect" where
  "newwin h w y x = \<lparr>r_height = h, r_width = w, r_y = y, r_x = x\<rparr>"

lemma newwin_sel [simp]:
  "r_height (newwin h w y x) = h" "r_width (newwin h w y x) = w" "r_y (newwin h w y x) = y" "r_x (newwin h w y x) = x"
  by (simp_all add: newwin_def)

definition cell_in :: "int \<times> int \<Rightarrow> rect \<Rightarrow> bool" where
  "cell_in c r \<longleftrightarrow> r_y r \<le> fst c \<and> fst c < r_y r + r_height r \<and> r_x r \<le> snd c \<and> snd c < r_x r + r_width r"

definition border_cell :: "int \<times> int \<Rightarrow> rect \<Rightarrow> bool" where
  "border_cell c r \<longleftrightarrow> cell_in c r \<and>
     (fst c = r_y r \<or> fst c = r_y r + r_height r - 1 \<or> snd c = r_x r \<or> snd c = r_x r + r_width r - 1)"

text \<open>The inner window leaves the frame of the outer one free.\<close>

definition framed_by :: "rect \<Rightarrow> rect \<Rightarrow> bool" where
  "framed_by outer inner \<longleftrightarrow> r_y outer + 1 \<le> r_y inner \<and> r_y inner + r_height inner \<le> r_y outer + r_height outer - 1 \<and>
     r_x outer + 1 \<le> r_x inner \<and> r_x inner + r_width inner \<le> r_x outer + r_width outer - 1"

definition apart :: "rect \<Rightarrow> rect \<Rightarrow> bool" where
  "apart r q \<longleftrightarrow> r_y r + r_height r \<le> r_y q \<or> r_y q + r_height q \<le> r_y r \<or>
     r_x r + r_width r \<le> r_x q \<or> r_x q + r_width q \<le> r_x r"

definition shown_on :: "int \<Rightarrow> int \<Rightarrow> rect \<Rightarrow> bool" where
  "shown_on rows cols r \<longleftrightarrow> 0 < r_height r \<and> 0 < r_width r \<and> 0 \<le> r_y r \<and> 0 \<le> r_x r \<and>
     r_y r + r_height r \<le> rows \<and> r_x r + r_width r \<le> cols"

lemma apart_cells: "apart r q \<Longrightarrow> cell_in c r \<Longrightarrow> \<not> cell_in c q"
  by (auto simp: apart_def cell_in_def)

lemma framed_cells: "framed_by outer inner \<Longrightarrow> cell_in c inner \<Longrightarrow> cell_in c outer \<and> \<not> border_cell c outer"
  by (auto simp: framed_by_def cell_in_def border_cell_def)

text \<open>
  The interface of both programs with two panes: frames that are on the terminal and apart, and a
  pane in each frame. What follows is that neither pane is written over by the other or
  by a frame.
\<close>

locale two_panes =
  fixes fits :: "int \<Rightarrow> int \<Rightarrow> bool"
    and frame1 frame2 pane1 pane2 :: "int \<Rightarrow> int \<Rightarrow> rect"
  assumes frames_shown: "fits rows cols \<Longrightarrow> shown_on rows cols (frame1 rows cols) \<and> shown_on rows cols (frame2 rows cols)"
    and frames_apart: "fits rows cols \<Longrightarrow> apart (frame1 rows cols) (frame2 rows cols)"
    and panes_framed: "fits rows cols \<Longrightarrow> framed_by (frame1 rows cols) (pane1 rows cols) \<and> framed_by (frame2 rows cols) (pane2 rows cols)"
    and panes_nonempty: "fits rows cols \<Longrightarrow> 0 < r_height (pane1 rows cols) \<and> 0 < r_width (pane1 rows cols) \<and>
      0 < r_height (pane2 rows cols) \<and> 0 < r_width (pane2 rows cols)"
begin

lemma panes_shown: "fits rows cols \<Longrightarrow> shown_on rows cols (pane1 rows cols) \<and> shown_on rows cols (pane2 rows cols)"
  using frames_shown [of rows cols] panes_framed [of rows cols] panes_nonempty [of rows cols]
  by (auto simp: shown_on_def framed_by_def)

lemma panes_undisturbed:
  assumes "fits rows cols" and "cell_in c (pane1 rows cols)"
  shows "\<not> cell_in c (pane2 rows cols) \<and> \<not> border_cell c (frame1 rows cols) \<and> \<not> border_cell c (frame2 rows cols)"
proof -
  have 1: "cell_in c (frame1 rows cols) \<and> \<not> border_cell c (frame1 rows cols)"
    using framed_cells panes_framed [OF assms(1)] assms(2) by blast
  then have 2: "\<not> cell_in c (frame2 rows cols)" using apart_cells [OF frames_apart [OF assms(1)]] by blast
  moreover have "\<not> cell_in c (pane2 rows cols)"
    using 2 framed_cells panes_framed [OF assms(1)] by blast
  ultimately show ?thesis using 1 by (simp add: border_cell_def)
qed

lemma panes_undisturbed2:
  assumes "fits rows cols" and "cell_in c (pane2 rows cols)"
  shows "\<not> cell_in c (pane1 rows cols) \<and> \<not> border_cell c (frame1 rows cols) \<and> \<not> border_cell c (frame2 rows cols)"
proof -
  have "cell_in c (frame2 rows cols) \<and> \<not> border_cell c (frame2 rows cols)"
    using framed_cells panes_framed [OF assms(1)] assms(2) by blast
  moreover have "\<not> cell_in c (pane1 rows cols)" using panes_undisturbed [OF assms(1)] assms(2) by blast
  moreover have "\<not> cell_in c (frame1 rows cols)"
    using apart_cells [OF frames_apart [OF assms(1)]] calculation(1) by blast
  ultimately show ?thesis by (simp add: border_cell_def)
qed

end

section \<open>The editor\<close>

text \<open>The windows \<open>main\<close> creates, for \<open>rows\<close> lines of \<open>cols\<close> columns.\<close>

definition nano_hintBorder :: "int \<Rightarrow> int \<Rightarrow> rect" where
  "nano_hintBorder rows cols = newwin (HINT_WINDOW_HEIGHT + 2) cols (rows - (HINT_WINDOW_HEIGHT + 2)) 0"

definition nano_mainBorder :: "int \<Rightarrow> int \<Rightarrow> rect" where
  "nano_mainBorder rows cols = newwin (rows - (HINT_WINDOW_HEIGHT + 2)) cols 0 0"

definition nano_main_window :: "int \<Rightarrow> int \<Rightarrow> rect" where
  "nano_main_window rows cols = newwin (mainHeight rows) (cols - 2) 1 1"

definition nano_hint :: "int \<Rightarrow> int \<Rightarrow> rect" where
  "nano_hint rows cols = newwin HINT_WINDOW_HEIGHT (cols - 2) (mainHeight rows + 3) 1"

definition nano_fits :: "int \<Rightarrow> int \<Rightarrow> bool" where
  "nano_fits rows cols \<longleftrightarrow> 9 \<le> rows \<and> 3 \<le> cols"

interpretation nano_screen: two_panes nano_fits nano_mainBorder nano_hintBorder nano_main_window nano_hint
  by unfold_locales
    (auto simp: nano_fits_def nano_mainBorder_def nano_hintBorder_def nano_main_window_def nano_hint_def
      mainHeight_def HINT_WINDOW_HEIGHT_def shown_on_def apart_def framed_by_def)

section \<open>The file manager\<close>

text \<open>\<open>maxHeight\<close>, \<open>maxWidth\<close> and the windows of \<open>showInterface\<close>, \<open>main\<close> and \<open>drawProgressWindow\<close>.\<close>

definition mc_maxHeight :: "int \<Rightarrow> int" where "mc_maxHeight rows = rows - 1"
definition mc_margin :: "int \<Rightarrow> int" where "mc_margin cols = cols div 2"
definition PROG_HEIGHT :: int where "PROG_HEIGHT = 7"
definition PROG_WIDTH :: int where "PROG_WIDTH = 50"

definition leftWindowBorder :: "int \<Rightarrow> int \<Rightarrow> rect" where
  "leftWindowBorder rows cols = newwin (mc_maxHeight rows) (mc_margin cols) 0 0"

definition rightWindowBorder :: "int \<Rightarrow> int \<Rightarrow> rect" where
  "rightWindowBorder rows cols = newwin (mc_maxHeight rows) (mc_margin cols) 0 (mc_margin cols)"

definition leftDataWindow :: "int \<Rightarrow> int \<Rightarrow> rect" where
  "leftDataWindow rows cols = newwin (mc_maxHeight rows - 2) (mc_margin cols - 2) 1 1"

definition rightDataWindow :: "int \<Rightarrow> int \<Rightarrow> rect" where
  "rightDataWindow rows cols = newwin (mc_maxHeight rows - 2) (mc_margin cols - 2) 1 (mc_margin cols + 1)"

definition progressBarWindow :: "int \<Rightarrow> int \<Rightarrow> rect" where
  "progressBarWindow rows cols = newwin PROG_HEIGHT PROG_WIDTH
     (mc_maxHeight rows div 2 - PROG_HEIGHT div 2) (mc_margin cols - PROG_WIDTH div 2)"

definition mc_fits :: "int \<Rightarrow> int \<Rightarrow> bool" where
  "mc_fits rows cols \<longleftrightarrow> 4 \<le> rows \<and> 6 \<le> cols"

interpretation mc_screen: two_panes mc_fits leftWindowBorder rightWindowBorder leftDataWindow rightDataWindow
  by unfold_locales
    (auto simp: mc_fits_def leftWindowBorder_def rightWindowBorder_def leftDataWindow_def rightDataWindow_def
      mc_maxHeight_def mc_margin_def shown_on_def apart_def framed_by_def)

lemma progress_window_shown:
  "shown_on rows cols (progressBarWindow rows cols) \<longleftrightarrow> 7 \<le> rows \<and> 50 \<le> cols"
  by (auto simp: progressBarWindow_def shown_on_def mc_maxHeight_def mc_margin_def PROG_HEIGHT_def PROG_WIDTH_def)

text \<open>On a terminal of enough lines and columns, both panes of the editor and of the file manager are on
  it, apart, and free of the frames: no cell of a pane belongs to the other or to a border. The
  window of the progress bar needs 7 lines and 50 columns, and no less will do.\<close>

theorem panes_on_screen:
  "(9 \<le> rows \<and> 3 \<le> cols \<and> cell_in c (nano_main_window rows cols) \<longrightarrow>
      shown_on rows cols (nano_main_window rows cols) \<and> \<not> cell_in c (nano_hint rows cols) \<and>
      \<not> border_cell c (nano_mainBorder rows cols) \<and> \<not> border_cell c (nano_hintBorder rows cols)) \<and>
   (4 \<le> rows \<and> 6 \<le> cols \<and> cell_in c (leftDataWindow rows cols) \<longrightarrow>
      shown_on rows cols (leftDataWindow rows cols) \<and> \<not> cell_in c (rightDataWindow rows cols) \<and>
      \<not> border_cell c (leftWindowBorder rows cols) \<and> \<not> border_cell c (rightWindowBorder rows cols)) \<and>
   (4 \<le> rows \<and> 6 \<le> cols \<and> cell_in c (rightDataWindow rows cols) \<longrightarrow>
      shown_on rows cols (rightDataWindow rows cols) \<and> \<not> border_cell c (leftWindowBorder rows cols) \<and>
      \<not> border_cell c (rightWindowBorder rows cols)) \<and>
   (shown_on rows cols (progressBarWindow rows cols) \<longleftrightarrow> 7 \<le> rows \<and> 50 \<le> cols)"
  using nano_screen.panes_shown [of rows cols] nano_screen.panes_undisturbed [of rows cols c]
    mc_screen.panes_shown [of rows cols] mc_screen.panes_undisturbed [of rows cols c]
    mc_screen.panes_undisturbed2 [of rows cols c] progress_window_shown [of rows cols]
  unfolding nano_fits_def mc_fits_def by blast

theorem panes_on_screen_witness:
  "shown_on 24 80 (nano_main_window 24 80) \<and> \<not> cell_in (1, 1) (nano_hint 24 80) \<and>
   \<not> border_cell (1, 1) (leftWindowBorder 24 80) \<and> shown_on 24 80 (progressBarWindow 24 80)"
proof -
  have "cell_in (1, 1) (nano_main_window 24 80)" "cell_in (1, 1) (leftDataWindow 24 80)"
    by (simp_all add: cell_in_def nano_main_window_def mainHeight_def HINT_WINDOW_HEIGHT_def
      leftDataWindow_def mc_maxHeight_def mc_margin_def)
  then show ?thesis using panes_on_screen [of 24 80 "(1, 1)"] by simp
qed

section \<open>The progress bar\<close>

text \<open>
  \<open>progressUpdate\<close> while a file is copied: each pass reads \<open>progressNow\<close> in the condition and again
  for the percentage, and the copying thread may write in between; a pass is the pair of the values read.
  \<open>scaled now max\<close> is the number \<open>(float) now / (float) max * (PROG_WIDTH - 4)\<close>. The result is what
  each pass appends to the bar, and \<open>oldPercentage\<close> at the end. The second conversion, to a percentage
  printed above the bar, is in \<open>Interface\<close>.
\<close>

definition truncated :: "real \<Rightarrow> int" where
  "truncated x = (if 0 \<le> x then \<lfloor>x\<rfloor> else \<lceil>x\<rceil>)"

fun bar_loop :: "(int \<Rightarrow> int \<Rightarrow> real) \<Rightarrow> int \<Rightarrow> (int \<times> int) list \<Rightarrow> int \<Rightarrow> string \<times> int" where
  "bar_loop scaled m [] old = ([], old)"
| "bar_loop scaled m ((seen, now) # passes) old =
     (if seen < m then
        (let p = scaled now m in
         if p \<noteq> real_of_int old then
           (let diff = truncated (p - real_of_int old);
                (bar, last_old) = bar_loop scaled m passes (truncated p)
            in (replicate (nat diff) (CHR ''#'') @ bar, last_old))
         else bar_loop scaled m passes old)
      else ([], old))"

text \<open>The arithmetic of \<open>float\<close> rounds monotonically, and a quotient of at most 1 stays so.\<close>

definition scales :: "(int \<Rightarrow> int \<Rightarrow> real) \<Rightarrow> int \<Rightarrow> bool" where
  "scales scaled m \<longleftrightarrow>
     (\<forall>a b. 0 \<le> a \<and> a \<le> b \<and> b \<le> m \<longrightarrow> 0 \<le> scaled a m \<and> scaled a m \<le> scaled b m \<and> scaled b m \<le> 46)"

lemma truncated_diff: "real_of_int old \<le> p \<Longrightarrow> 0 \<le> old \<Longrightarrow> truncated (p - real_of_int old) = truncated p - old"
  by (simp add: truncated_def)

lemma bar_loop_length:
  assumes sc: "scales scaled m"
  shows "sorted (now # map snd passes) \<Longrightarrow> 0 \<le> now \<Longrightarrow> list_all (\<lambda>(seen, now). now \<le> m) passes \<Longrightarrow> now \<le> m \<Longrightarrow>
    0 \<le> old \<Longrightarrow> real_of_int old \<le> scaled now m \<Longrightarrow> bar_loop scaled m passes old = (bar, last_old) \<Longrightarrow>
    old + int (length bar) = last_old \<and> last_old \<le> 46 \<and> set bar \<subseteq> {CHR ''#''}"
proof (induction passes arbitrary: now old bar last_old)
  case Nil
  have "scaled now m \<le> 46" using sc Nil.prems(2,4) by (auto simp: scales_def)
  then have "real_of_int old \<le> 46" using Nil.prems(6) by linarith
  with Nil show ?case by simp
next
  case (Cons pass passes)
  obtain seen k where pass: "pass = (seen, k)" by (cases pass)
  have k: "now \<le> k" "0 \<le> k" "k \<le> m" "sorted (k # map snd passes)" "list_all (\<lambda>(seen, now). now \<le> m) passes"
    using Cons.prems(1,2,3) by (auto simp: pass)
  have mono: "scaled now m \<le> scaled k m" "0 \<le> scaled k m" "scaled k m \<le> 46"
    using sc [unfolded scales_def, rule_format, of now k] sc [unfolded scales_def, rule_format, of k k]
      k(1,2,3) Cons.prems(2) by simp_all
  have old: "real_of_int old \<le> scaled k m" using Cons.prems(6) mono(1) by linarith
  show ?case
  proof (cases "seen < m \<and> scaled k m \<noteq> real_of_int old")
    case True
    obtain bar' where bar': "bar_loop scaled m passes (truncated (scaled k m)) = (bar', last_old)"
      and bar: "bar = replicate (nat (truncated (scaled k m - real_of_int old))) (CHR ''#'') @ bar'"
      using Cons.prems(7) True by (auto simp: pass Let_def split: prod.splits)
    have t: "0 \<le> truncated (scaled k m)" "real_of_int (truncated (scaled k m)) \<le> scaled k m" "old \<le> truncated (scaled k m)"
      using mono(2) old by (simp_all add: truncated_def le_floor_iff)
    from Cons.IH [OF k(4,2,5,3) t(1,2) bar'] show ?thesis
      using t(3) truncated_diff [OF old Cons.prems(5)] by (auto simp: bar)
  next
    case False
    show ?thesis
    proof (cases "seen < m")
      case True
      then have "bar_loop scaled m passes old = (bar, last_old)" using Cons.prems(7) False by (simp add: pass Let_def)
      from Cons.IH [OF k(4,2,5,3) Cons.prems(5) old this] show ?thesis .
    next
      case late: False
      have "real_of_int old \<le> 46" using old mono(3) by linarith
      then show ?thesis using Cons.prems(7) late by (simp add: pass)
    qed
  qed
qed

text \<open>While the file has the size it had at the start, the bar grows to at most 46 characters, which is the room
  between the brackets. (When a file grows while it is copied, the bar runs over its frame.)\<close>

theorem progress_bar_fits:
  assumes "scales scaled m" and "sorted (map snd passes)" and "list_all (\<lambda>(seen, now). 0 \<le> now \<and> now \<le> m) passes"
  shows "length (fst (bar_loop scaled m passes 0)) \<le> 46 \<and> 2 + int (length (fst (bar_loop scaled m passes 0))) \<le> PROG_WIDTH - 2"
proof (cases passes)
  case (Cons pass rest)
  obtain bar last_old where b: "bar_loop scaled m passes 0 = (bar, last_old)" by fastforce
  have m: "0 \<le> m" using assms(3) Cons by auto
  then have s0: "real_of_int 0 \<le> scaled 0 m" using assms(1) by (auto simp: scales_def)
  have "sorted (0 # map snd passes)" using assms(2,3) by (auto simp: list_all_iff)
  moreover have "list_all (\<lambda>(seen, now). now \<le> m) passes" using assms(3) by (auto simp: list_all_iff)
  ultimately have "0 + int (length bar) = last_old \<and> last_old \<le> 46 \<and> set bar \<subseteq> {CHR ''#''}"
    using bar_loop_length [OF assms(1) _ _ _ m _ s0 b] by blast
  then show ?thesis by (simp add: b PROG_WIDTH_def)
qed (simp add: PROG_WIDTH_def)

lemma bar_overruns: "length (fst (bar_loop (\<lambda>a m. a / m * 46) 10 [(5, 20)] 0)) = 92"
  by (simp add: truncated_def)

theorem progress_bar_fits_witness:
  "length (fst (bar_loop (\<lambda>a m. a / m * 46) 10 [(0, 0), (3, 5), (5, 10)] 0)) \<le> 46"
proof -
  have "scales (\<lambda>a m. a / m * 46) 10" by (auto simp: scales_def)
  from progress_bar_fits [OF this, of "[(0, 0), (3, 5), (5, 10)]"] show ?thesis by simp
qed

section \<open>Starting a program\<close>

text \<open>\<open>runProgram\<close>, from the result of \<open>fork\<close>: the parent gets it back; the child becomes the program, or,
  when \<open>execl\<close> fails, leaves the function without a value and goes on as a second file manager.\<close>

datatype run_outcome = Returned_pid int | Replaced_by string | NoValue

definition runProgram :: "int \<Rightarrow> bool \<Rightarrow> string \<Rightarrow> run_outcome" where
  "runProgram sideProc exec_ok progPath =
     (if sideProc = 0 then (if exec_ok then Replaced_by progPath else NoValue) else Returned_pid sideProc)"

section \<open>The life simulator\<close>

definition BLOCK_WIDTH :: int where "BLOCK_WIDTH = 15"
definition BLOCK_HEIGHT :: int where "BLOCK_HEIGHT = 6"

datatype life_win = BuyerWin nat | ProvWin nat | StdScr

datatype scr_call =
    Derwin life_win rect
  | Box life_win
  | WMove life_win int int
  | WPrint life_win string
  | WRefresh life_win

definition buyer_w :: "nat \<Rightarrow> rect" where
  "buyer_w i = newwin BLOCK_HEIGHT BLOCK_WIDTH 0 (int i * BLOCK_WIDTH)"

definition prov_w :: "nat \<Rightarrow> rect" where
  "prov_w i = newwin BLOCK_HEIGHT BLOCK_WIDTH (BLOCK_HEIGHT + 1) (int i * BLOCK_WIDTH)"

definition graphical_update :: "scr_call list" where
  "graphical_update =
     concat (map (\<lambda>i. let w = BuyerWin i in
       [Derwin w (buyer_w i), Box w, WMove w 1 1, WPrint w (''Buyer#'' @ dec (int i + 1)),
        WMove w 3 1, WPrint w ''demands:'', WRefresh w]) [0..<N_BUYERS])
     @ concat (map (\<lambda>i. let w = ProvWin i in
       [Derwin w (prov_w i), Box w, WMove w 1 1, WPrint w (''Provider #'' @ dec (int i + 1)), WRefresh w]) [0..<N_PROVIDERS])
     @ [WRefresh StdScr]"

text \<open>The two status functions, whose calls in the threads are commented out.\<close>

definition print_provider_status :: "nat \<Rightarrow> bool \<Rightarrow> nat \<Rightarrow> scr_call list" where
  "print_provider_status who isDelivered storage =
     (let w = ProvWin who in
      (if isDelivered
       then [WMove w 2 1, WPrint w ''Sleeps'', WMove w 3 1, WPrint w ''             '']
       else [WMove w 2 1, WPrint w (''gained '' @ dec PROV_AMOUNT), WMove w 3 1, WPrint w (''to st #'' @ dec (int storage))])
      @ [WRefresh StdScr, WRefresh w])"

definition print_buyer_status :: "nat \<Rightarrow> bool \<Rightarrow> nat \<Rightarrow> (nat \<Rightarrow> int) \<Rightarrow> scr_call list" where
  "print_buyer_status who isEnter which demand =
     (let w = BuyerWin who in
      if isEnter
      then [WMove w 2 1, WPrint w (''on st #'' @ dec (int which)), WMove w 4 1, WPrint w ''        '',
            WMove w 4 1, WPrint w (dec (demand who)), WRefresh StdScr, WRefresh w]
      else [WMove w 2 1, WPrint w ''Sleeps       '', WRefresh w])"

text \<open>Every text is printed where the cursor was just put, on one line inside the frame of its window.\<close>

fun life_rect :: "life_win \<Rightarrow> rect" where
  "life_rect (BuyerWin i) = buyer_w i"
| "life_rect (ProvWin i) = prov_w i"
| "life_rect StdScr = newwin 0 0 0 0"

fun prints_inside :: "scr_call list \<Rightarrow> bool" where
  "prints_inside (WMove w y x # WPrint w' t # cs) \<longleftrightarrow>
     w' = w \<and> framed_by (life_rect w) (newwin 1 (int (length t)) (r_y (life_rect w) + y) (r_x (life_rect w) + x)) \<and> prints_inside cs"
| "prints_inside (WPrint w t # cs) \<longleftrightarrow> False"
| "prints_inside (c # cs) \<longleftrightarrow> prints_inside cs"
| "prints_inside [] \<longleftrightarrow> True"

lemma length_dec: "0 \<le> n \<Longrightarrow> n < 10 ^ k \<Longrightarrow> 0 < k \<Longrightarrow> length (dec n) \<le> k"
proof -
  assume n: "0 \<le> n" "n < 10 ^ k" "0 < k"
  then have "nat n < 10 ^ k" by (simp add: nat_less_iff)
  then show ?thesis using n length_nat_digits [of 10 "nat n" k] by (simp add: dec_def)
qed

text \<open>What a buyer wants only decreases.\<close>

lemma buy_demand: "0 \<le> d \<Longrightarrow> snd (buy r d) \<le> d"
  by (simp add: buy_def BUY_RESTRICT_def)

lemma buy_demand_eq: "0 \<le> d \<Longrightarrow> buy r d = (r', d') \<Longrightarrow> d' \<le> d"
  using buy_demand [of d r] by simp

lemma demands_step:
  assumes "life_inv s" and "life_step s t"
  shows "demands t b \<le> demands s b"
  using assms(2)
proof cases
  case (ls_prov p)
  then show ?thesis by (cases "prov s p") (simp_all add: prov_step_def lf_print_def)
next
  case (ls_buyer c)
  have "0 \<le> demands s c" using assms(1) by (simp add: life_inv_def stock_inv_def)
  then show ?thesis
    using ls_buyer
    by (cases "buyer s c") (auto simp: buyer_step_def lf_print_def split: prod.splits dest: buy_demand_eq)
qed

definition demand_inv :: "life \<Rightarrow> bool" where
  "demand_inv s \<longleftrightarrow> life_inv s \<and> (\<forall>b. demands s b \<le> START_DEMAND)"

interpretation demand_machine: invariant_machine "\<lambda>s. s = life_init" life_step demand_inv
proof
  show "demand_inv s" if "s = life_init" for s
    using that life_init_inv by (simp add: demand_inv_def life_init_def)
  show "demand_inv t" if "demand_inv s" "life_step s t" for s t
    using that life_step_inv demands_step unfolding demand_inv_def by (meson order_trans)
qed

text \<open>The windows of all threads are on a terminal of 13 lines and 45 columns and apart, and
  all that is drawn in them, with the demands of any reachable state, stays inside their frames.\<close>

theorem life_screen:
  assumes "13 \<le> rows" and "45 \<le> cols" and "who < N_BUYERS" and "which < N_STORAGES"
    and "reachable (\<lambda>s. s = life_init) life_step s" and "p < N_PROVIDERS" and "storage < N_STORAGES"
  shows "shown_on rows cols (buyer_w who) \<and> shown_on rows cols (prov_w p) \<and> apart (buyer_w who) (prov_w p) \<and>
    prints_inside graphical_update \<and>
    prints_inside (print_buyer_status who isEnter which (demands s)) \<and>
    prints_inside (print_provider_status p isDelivered storage)"
proof -
  have "demand_inv s" by (rule demand_machine.inv_reachable [OF assms(5)])
  then have demand: "0 \<le> demands s who" "demands s who \<le> START_DEMAND"
    by (simp_all add: demand_inv_def life_inv_def stock_inv_def)
  note defs = buyer_w_def prov_w_def BLOCK_HEIGHT_def BLOCK_WIDTH_def shown_on_def apart_def
  have "int who < 3" "int p < 2" using assms(3,6) by (simp_all add: N_BUYERS_def N_PROVIDERS_def)
  then have place: "shown_on rows cols (buyer_w who)" "shown_on rows cols (prov_w p)" "apart (buyer_w who) (prov_w p)"
    using assms(1,2) by (auto simp: defs)
  have short: "length (dec (int which)) \<le> 1" "length (dec (int storage)) \<le> 1" "length (dec PROV_AMOUNT) \<le> 3"
    "length (dec (demands s who)) \<le> 5"
    using length_dec [of "int which" 1] length_dec [of "int storage" 1] length_dec [of PROV_AMOUNT 3]
      length_dec [of "demands s who" 5] assms(4,7) demand
    by (auto simp: N_STORAGES_def PROV_AMOUNT_def START_DEMAND_def)
  have "prints_inside (print_buyer_status who isEnter which (demands s))"
    using short by (cases isEnter) (auto simp: print_buyer_status_def Let_def framed_by_def defs)
  moreover have "prints_inside (print_provider_status p isDelivered storage)"
    using short by (cases isDelivered) (auto simp: print_provider_status_def Let_def framed_by_def defs)
  moreover have "prints_inside graphical_update" by code_simp
  ultimately show ?thesis using place by blast
qed

theorem life_screen_witness:
  "prints_inside (print_buyer_status 2 True 4 (demands life_init)) \<and> shown_on 24 80 (buyer_w 2)"
  using life_screen [of 24 80 2 4 life_init 0 0 True True] reach_start [of "\<lambda>s. s = life_init" life_init life_step]
  by (simp add: N_BUYERS_def N_STORAGES_def N_PROVIDERS_def)

text \<open>The sleeping provider's text is shorter than the one it replaces, the end of which stays on the line.\<close>

lemma sleeps_is_shorter:
  "WPrint (ProvWin p) ''Sleeps'' \<in> set (print_provider_status p True i) \<and>
   WPrint (ProvWin p) (''gained '' @ dec PROV_AMOUNT) \<in> set (print_provider_status p False i) \<and>
   length ''Sleeps'' < length (''gained '' @ dec PROV_AMOUNT)"
  by (simp add: print_provider_status_def Let_def)

end
