(* ===== verification/Interface.thy ===== *)
theory Interface
  imports Screens
begin

text \<open>
  The calls by which the editor and the file manager create, fill and delete their windows: what \<open>main\<close> of
  \<open>les10_my_nano\<close> does before its loop, and \<open>showInterface\<close>, \<open>drawProgressWindow\<close>, \<open>progressUpdate\<close>
  and the frame of \<open>main\<close> of \<open>les11_my_mc\<close>. Every window is created before it is used, in any
  interleaving with the thread of the progress bar; three windows are lost with every copy.
\<close>

section \<open>Calls\<close>

datatype 'w win_op =
    InitScr 'w | EndWin | Refresh_std | Cbreak | CursOff
  | Newwin 'w rect | DerWin 'w rect | DelWin 'w
  | BoxW 'w | MoveW 'w int int | PrintW 'w string | CharW 'w char | RefreshW 'w
  | Keypad 'w | Nodelay 'w

section \<open>The editor\<close>

datatype nano_win = NanoStd | MainBorder | HintBorder | MainWin | HintWin

definition nano_clear_hint :: "nano_win win_op list" where
  "nano_clear_hint = [PrintW HintWin keys_line, RefreshW HintWin]"

definition nano_setup :: "int \<Rightarrow> int \<Rightarrow> nano_win win_op list" where
  "nano_setup rows cols =
     [InitScr NanoStd,
      Newwin HintBorder (nano_hintBorder rows cols), Newwin MainBorder (nano_mainBorder rows cols),
      Newwin MainWin (nano_main_window rows cols), Newwin HintWin (nano_hint rows cols),
      BoxW MainBorder, BoxW HintBorder, Refresh_std, RefreshW MainBorder, RefreshW HintBorder]
     @ nano_clear_hint
     @ [Keypad NanoStd, Keypad MainWin, Keypad HintWin, Cbreak, PrintW MainWin [], RefreshW MainWin]"

section \<open>The file manager\<close>

datatype mc_win = McStd | LeftBorder | RightBorder | LeftData | RightData | ProgressBar | Percent

definition showInterface :: "int \<Rightarrow> int \<Rightarrow> mc_win win_op list" where
  "showInterface rows cols =
     [Newwin LeftBorder (leftWindowBorder rows cols), Newwin RightBorder (rightWindowBorder rows cols),
      BoxW LeftBorder, BoxW RightBorder, MoveW McStd (mc_maxHeight rows) 0,
      PrintW McStd ''CTRL + X to exit | F5 to copy'', Refresh_std, RefreshW RightBorder, RefreshW LeftBorder]"

definition mc_setup :: "int \<Rightarrow> int \<Rightarrow> mc_win win_op list" where
  "mc_setup rows cols =
     InitScr McStd # showInterface rows cols
     @ [Newwin LeftData (leftDataWindow rows cols), Newwin RightData (rightDataWindow rows cols),
        Nodelay LeftData, Keypad LeftData, Keypad McStd, Keypad RightData, CursOff, Cbreak]"

definition mc_teardown :: "mc_win win_op list" where
  "mc_teardown = [DelWin RightData, DelWin LeftData, DelWin RightBorder, DelWin LeftBorder, DelWin McStd, EndWin]"

text \<open>\<open>drawProgressWindow\<close> before it copies.\<close>

definition progress_frame :: "int \<Rightarrow> int \<Rightarrow> mc_win win_op list" where
  "progress_frame rows cols =
     [Newwin ProgressBar (progressBarWindow rows cols), BoxW ProgressBar, MoveW ProgressBar 1 1,
      PrintW ProgressBar ''copying is in progress'', MoveW ProgressBar 2 1, RefreshW ProgressBar]"

text \<open>\<open>removeWindow\<close>, before a program is started.\<close>

definition removeWindow :: "mc_win win_op list" where "removeWindow = [EndWin]"

text \<open>
  \<open>progressUpdate\<close> after it is woken. A pass of its loop reads \<open>progressNow\<close> in the condition, for
  the bar, for the percentage and for the text; the copying thread may write in between. The numbers of
  type \<open>off_t\<close> are printed by \<open>%i\<close>, which takes their low 32 bits.
\<close>

record pass =
  ps_seen :: int
  ps_bar :: int
  ps_percent :: int
  ps_shown :: int

definition as_int :: "int \<Rightarrow> int" where
  "as_int n = sint (word_of_int n :: i32)"

definition percent_text :: "(int \<Rightarrow> int \<Rightarrow> real) \<Rightarrow> int \<Rightarrow> pass \<Rightarrow> string" where
  "percent_text percent m p =
     dec (as_int (ps_shown p)) @ '' | '' @ dec (as_int m) @ '' completed '' @ dec (truncated (percent (ps_percent p) m)) @ ''%''"

fun progress_passes :: "(int \<Rightarrow> int \<Rightarrow> real) \<Rightarrow> (int \<Rightarrow> int \<Rightarrow> real) \<Rightarrow> int \<Rightarrow> pass list \<Rightarrow> int \<Rightarrow> mc_win win_op list" where
  "progress_passes scaled percent m [] old = []"
| "progress_passes scaled percent m (p # ps) old =
     (if ps_seen p < m then
        [MoveW Percent 0 0, PrintW Percent (percent_text percent m p), RefreshW Percent] @
        (let x = scaled (ps_bar p) m in
         if x \<noteq> real_of_int old then
           [MoveW Percent 0 0, RefreshW Percent] @
           replicate (nat (truncated (x - real_of_int old))) (CharW ProgressBar (CHR ''#'')) @
           [RefreshW ProgressBar] @ progress_passes scaled percent m ps (truncated x)
         else progress_passes scaled percent m ps old)
      else [])"

definition progress_thread :: "(int \<Rightarrow> int \<Rightarrow> real) \<Rightarrow> (int \<Rightarrow> int \<Rightarrow> real) \<Rightarrow> int \<Rightarrow> pass list \<Rightarrow> mc_win win_op list" where
  "progress_thread scaled percent m ps =
     [DerWin Percent (newwin 1 (PROG_WIDTH - 2) 2 1),
      MoveW ProgressBar 3 1, CharW ProgressBar (CHR ''[''), MoveW ProgressBar 3 (PROG_WIDTH - 2),
      CharW ProgressBar (CHR '']''), MoveW ProgressBar 3 2]
     @ progress_passes scaled percent m ps 0 @ [DelWin Percent]"

text \<open>What is drawn as the bar is what \<open>bar_loop\<close> says.\<close>

fun bar_chars :: "mc_win win_op list \<Rightarrow> string" where
  "bar_chars (CharW w c # ops) = (if w = ProgressBar then c # bar_chars ops else bar_chars ops)"
| "bar_chars (_ # ops) = bar_chars ops"
| "bar_chars [] = []"

lemma bar_chars_append [simp]: "bar_chars (xs @ ys) = bar_chars xs @ bar_chars ys"
  by (induction xs rule: bar_chars.induct) auto

lemma bar_chars_replicate [simp]: "bar_chars (replicate n (CharW ProgressBar c)) = replicate n c"
  by (induction n) simp_all

lemma progress_bar_drawn:
  "bar_chars (progress_passes scaled percent m ps old) = fst (bar_loop scaled m (map (\<lambda>p. (ps_seen p, ps_bar p)) ps) old)"
  by (induction ps arbitrary: old) (auto simp: Let_def split: prod.splits)

section \<open>Use of windows\<close>

fun win_used :: "'w win_op \<Rightarrow> 'w option" where
  "win_used (DelWin w) = Some w" | "win_used (BoxW w) = Some w" | "win_used (MoveW w y x) = Some w"
| "win_used (PrintW w t) = Some w" | "win_used (CharW w c) = Some w" | "win_used (RefreshW w) = Some w"
| "win_used (Keypad w) = Some w" | "win_used (Nodelay w) = Some w"
| "win_used _ = None"

fun win_made :: "'w win_op \<Rightarrow> 'w option" where
  "win_made (InitScr w) = Some w" | "win_made (Newwin w r) = Some w" | "win_made (DerWin w r) = Some w" | "win_made _ = None"

text \<open>The windows that exist after a call, and that no call uses another.\<close>

definition live_after :: "'w set \<Rightarrow> 'w win_op \<Rightarrow> 'w set" where
  "live_after L c = (case c of DelWin w \<Rightarrow> L - {w} | _ \<Rightarrow> L \<union> set_option (win_made c))"

fun uses_ok :: "'w set \<Rightarrow> 'w win_op list \<Rightarrow> bool" where
  "uses_ok L [] \<longleftrightarrow> True"
| "uses_ok L (c # cs) \<longleftrightarrow> set_option (win_used c) \<subseteq> L \<and> uses_ok (live_after L c) cs"

text \<open>Windows created and not deleted. A variable that gets a new window loses the old one.\<close>

definition left_open :: "'w win_op list \<Rightarrow> int" where
  "left_open cs = int (length (filter (\<lambda>c. win_made c \<noteq> None) cs)) - int (length (filter (\<lambda>c. \<exists>w. c = DelWin w) cs))"

definition deletes :: "'w win_op list \<Rightarrow> 'w set" where
  "deletes cs = {w. DelWin w \<in> set cs}"

definition touches :: "'w win_op list \<Rightarrow> 'w set" where
  "touches cs = (\<Union>c \<in> set cs. set_option (win_used c) \<union> set_option (win_made c))"

definition lives :: "'w win_op list \<Rightarrow> 'w set \<Rightarrow> 'w set" where
  "lives cs L = fold (\<lambda>c L. live_after L c) cs L"

lemma touches_simps [simp]:
  "touches [] = {}" "touches (c # cs) = set_option (win_used c) \<union> set_option (win_made c) \<union> touches cs"
  "touches (cs @ ds) = touches cs \<union> touches ds"
  by (auto simp: touches_def)

lemma deletes_simps [simp]:
  "deletes [] = {}" "deletes (c # cs) = (case c of DelWin w \<Rightarrow> {w} | _ \<Rightarrow> {}) \<union> deletes cs"
  "deletes (cs @ ds) = deletes cs \<union> deletes ds"
  by (auto simp: deletes_def split: win_op.splits)

lemma left_open_simps [simp]:
  "left_open [] = 0"
  "left_open (c # cs) = (if win_made c = None then 0 else 1) - (case c of DelWin w \<Rightarrow> 1 | _ \<Rightarrow> 0) + left_open cs"
  by (simp_all add: left_open_def split: win_op.splits)

lemma left_open_append [simp]: "left_open (cs @ ds) = left_open cs + left_open ds"
  by (simp add: left_open_def)

lemma live_after_mono: "L \<subseteq> M \<Longrightarrow> live_after L c \<subseteq> live_after M c"
  by (auto simp: live_after_def split: win_op.splits)

lemma uses_ok_mono: "L \<subseteq> M \<Longrightarrow> uses_ok L cs \<Longrightarrow> uses_ok M cs"
proof (induction cs arbitrary: L M)
  case (Cons c cs)
  then show ?case using live_after_mono [OF Cons.prems(1), of c] by auto
qed simp

lemma uses_ok_append: "uses_ok L (cs @ ds) \<longleftrightarrow> uses_ok L cs \<and> uses_ok (lives cs L) ds"
  by (induction cs arbitrary: L) (simp_all add: lives_def)

lemma lives_keep: "W \<subseteq> L \<Longrightarrow> deletes cs \<inter> W = {} \<Longrightarrow> W \<subseteq> lives cs L"
proof (induction cs arbitrary: L)
  case (Cons c cs)
  have "W \<subseteq> live_after L c" using Cons.prems by (cases c) (auto simp: live_after_def)
  then show ?case using Cons.IH [of "live_after L c"] Cons.prems(2) by (auto simp: lives_def)
qed (simp add: lives_def)

lemma lives_append [simp]: "lives (cs @ ds) L = lives ds (lives cs L)"
  by (simp add: lives_def)

text \<open>Calls that only use windows that exist.\<close>

lemma uses_ok_plain: "touches cs \<subseteq> L \<Longrightarrow> deletes cs = {} \<Longrightarrow> uses_ok L cs"
proof (induction cs arbitrary: L)
  case (Cons c cs)
  have "L \<subseteq> live_after L c" using Cons.prems(2) by (cases c) (auto simp: live_after_def)
  then have "uses_ok (live_after L c) cs" using Cons.prems by (intro Cons.IH) auto
  with Cons.prems show ?case by simp
qed simp

lemma uses_ok_drop: "w \<notin> touches cs \<Longrightarrow> uses_ok L cs \<Longrightarrow> uses_ok (L - {w}) cs"
proof (induction cs arbitrary: L)
  case (Cons c cs)
  have "live_after L c - {w} \<subseteq> live_after (L - {w}) c"
    using Cons.prems(1) by (cases c) (auto simp: live_after_def)
  then have "uses_ok (live_after (L - {w}) c) cs"
    using Cons.IH [of "live_after L c"] Cons.prems uses_ok_mono by auto
  with Cons.prems show ?case by auto
qed simp

text \<open>Two threads that do not delete what the other touches.\<close>

lemma uses_ok_after:
  "uses_ok L ys \<Longrightarrow> (\<And>w. x = DelWin w \<Longrightarrow> w \<notin> touches ys) \<Longrightarrow> uses_ok (live_after L x) ys"
proof (cases x)
  case (DelWin w)
  assume "uses_ok L ys" "\<And>w. x = DelWin w \<Longrightarrow> w \<notin> touches ys"
  then show ?thesis using DelWin uses_ok_drop [of w ys L] by (simp add: live_after_def)
qed (auto simp: live_after_def intro: uses_ok_mono)

lemma uses_ok_shuffle:
  "zs \<in> shuffles xs ys \<Longrightarrow> uses_ok L xs \<Longrightarrow> uses_ok L ys \<Longrightarrow> deletes xs \<inter> touches ys = {} \<Longrightarrow>
   deletes ys \<inter> touches xs = {} \<Longrightarrow> uses_ok L zs"
proof (induction zs arbitrary: xs ys L)
  case (Cons z zs)
  from Cons.prems(1) consider
      (left) xs' where "xs = z # xs'" "zs \<in> shuffles xs' ys"
    | (right) ys' where "ys = z # ys'" "zs \<in> shuffles xs ys'"
    by (cases xs; cases ys) auto
  then show ?case
  proof cases
    case left
    have "uses_ok (live_after L z) ys"
      using Cons.prems(3,4) unfolding left(1) by (intro uses_ok_after) auto
    then have "uses_ok (live_after L z) zs"
      using Cons.IH [OF left(2), of "live_after L z"] Cons.prems(2,4,5) left(1) by auto
    then show ?thesis using Cons.prems(2) left(1) by simp
  next
    case right
    have "uses_ok (live_after L z) xs"
      using Cons.prems(2,5) unfolding right(1) by (intro uses_ok_after) auto
    then have "uses_ok (live_after L z) zs"
      using Cons.IH [OF right(2), of "live_after L z"] Cons.prems(3,4,5) right(1) by auto
    then show ?thesis using Cons.prems(3) right(1) by simp
  qed
qed simp

lemma deletes_shuffle: "zs \<in> shuffles xs ys \<Longrightarrow> deletes zs = deletes xs \<union> deletes ys"
  unfolding deletes_def using set_shuffles [of zs xs ys] by auto

lemma left_open_shuffle: "zs \<in> shuffles xs ys \<Longrightarrow> left_open zs = left_open xs + left_open ys"
proof -
  assume zs: "zs \<in> shuffles xs ys"
  have "length (filter P zs) = length (filter P xs) + length (filter P ys)" for P :: "'a win_op \<Rightarrow> bool"
    using filter_shuffles [of P xs ys] zs length_shuffles by blast
  then show ?thesis by (simp add: left_open_def)
qed

section \<open>All runs\<close>

text \<open>
  The calls of a run with \<open>n\<close> copies: in between, the main thread draws in the windows of the lists; while
  it does so after a copy, and redraws the frames, the other thread may still be drawing.
\<close>

definition draws :: "mc_win win_op list \<Rightarrow> bool" where
  "draws cs \<longleftrightarrow> touches cs \<subseteq> {McStd, LeftData, RightData} \<and> deletes cs = {} \<and> left_open cs = 0"

inductive mc_calls :: "int \<Rightarrow> int \<Rightarrow> nat \<Rightarrow> mc_win win_op list \<Rightarrow> bool" for rows cols where
  mc_begins: "mc_calls rows cols 0 (mc_setup rows cols)"
| mc_draws: "mc_calls rows cols n cs \<Longrightarrow> draws ds \<Longrightarrow> mc_calls rows cols n (cs @ ds)"
| mc_copies: "mc_calls rows cols n cs \<Longrightarrow> draws ds \<Longrightarrow>
    zs \<in> shuffles (showInterface rows cols @ ds) (progress_thread scaled percent m ps) \<Longrightarrow>
    mc_calls rows cols (n + 1) (cs @ progress_frame rows cols @ zs)"

definition mc_windows :: "mc_win set" where
  "mc_windows = {McStd, LeftBorder, RightBorder, LeftData, RightData}"

lemma passes_plain:
  "touches (progress_passes scaled percent m ps old) \<subseteq> {Percent, ProgressBar} \<and>
   deletes (progress_passes scaled percent m ps old) = {} \<and> left_open (progress_passes scaled percent m ps old) = 0"
proof (induction ps arbitrary: old)
  case (Cons p ps)
  have chars: "touches (replicate n (CharW ProgressBar c)) \<subseteq> {Percent, ProgressBar}"
    "deletes (replicate n (CharW ProgressBar c)) = {}" "left_open (replicate n (CharW ProgressBar c)) = 0" for n c
    by (induction n) simp_all
  show ?case using Cons.IH chars by (auto simp: Let_def)
qed simp

lemma thread_uses:
  assumes "ProgressBar \<in> L"
  shows "uses_ok L (progress_thread scaled percent m ps)" and "deletes (progress_thread scaled percent m ps) = {Percent}"
    and "touches (progress_thread scaled percent m ps) \<subseteq> {Percent, ProgressBar}"
    and "left_open (progress_thread scaled percent m ps) = 0"
proof -
  note pl = passes_plain [of scaled percent m ps 0]
  let ?a = "[DerWin Percent (newwin 1 (PROG_WIDTH - 2) 2 1),
      MoveW ProgressBar 3 1, CharW ProgressBar (CHR ''[''), MoveW ProgressBar 3 (PROG_WIDTH - 2),
      CharW ProgressBar (CHR '']''), MoveW ProgressBar 3 2]"
  have a: "uses_ok L ?a" "{Percent, ProgressBar} \<subseteq> lives ?a L"
    using assms by (simp_all add: live_after_def lives_def)
  have "uses_ok (lives ?a L) (progress_passes scaled percent m ps 0)"
    by (rule uses_ok_plain) (use pl a(2) in auto)
  moreover have "{Percent} \<subseteq> lives (progress_passes scaled percent m ps 0) (lives ?a L)"
    by (rule lives_keep) (use pl a(2) in auto)
  ultimately show "uses_ok L (progress_thread scaled percent m ps)"
    using a(1) unfolding progress_thread_def uses_ok_append by simp
  show "deletes (progress_thread scaled percent m ps) = {Percent}" "touches (progress_thread scaled percent m ps) \<subseteq> {Percent, ProgressBar}"
    using pl by (auto simp: progress_thread_def)
  show "left_open (progress_thread scaled percent m ps) = 0" using pl by (simp add: progress_thread_def)
qed

lemma interface_uses:
  assumes "McStd \<in> L"
  shows "uses_ok L (showInterface rows cols)" and "deletes (showInterface rows cols) = {}"
    and "touches (showInterface rows cols) = {McStd, LeftBorder, RightBorder}" and "left_open (showInterface rows cols) = 2"
  using assms by (auto simp: showInterface_def live_after_def)

lemma frame_uses:
  "uses_ok L (progress_frame rows cols)" "deletes (progress_frame rows cols) = {}"
  "ProgressBar \<in> lives (progress_frame rows cols) L" "left_open (progress_frame rows cols) = 1"
  by (simp_all add: progress_frame_def live_after_def lives_def)

lemma setup_uses:
  "uses_ok {} (mc_setup rows cols)" "mc_windows \<subseteq> lives (mc_setup rows cols) {}" "left_open (mc_setup rows cols) = 5"
  by (simp_all add: mc_setup_def showInterface_def live_after_def lives_def mc_windows_def)

lemma draws_use:
  assumes "draws ds" and "mc_windows \<subseteq> L"
  shows "uses_ok L ds" and "mc_windows \<subseteq> lives ds L" and "left_open ds = 0"
proof -
  show "uses_ok L ds" by (rule uses_ok_plain) (use assms in \<open>auto simp: draws_def mc_windows_def\<close>)
  show "mc_windows \<subseteq> lives ds L" by (rule lives_keep) (use assms in \<open>auto simp: draws_def\<close>)
  show "left_open ds = 0" using assms(1) by (simp add: draws_def)
qed

lemma copy_uses:
  assumes "draws ds" and L: "mc_windows \<subseteq> L" "ProgressBar \<in> L"
    and zs: "zs \<in> shuffles (showInterface rows cols @ ds) (progress_thread scaled percent m ps)"
  shows "uses_ok L zs" and "mc_windows \<subseteq> lives zs L" and "left_open zs = 2"
proof -
  let ?main = "showInterface rows cols @ ds"
  note thread = thread_uses [OF L(2), of scaled percent m ps]
  have std: "McStd \<in> L" using L(1) by (auto simp: mc_windows_def)
  note face = interface_uses [OF std, of rows cols]
  have "mc_windows \<subseteq> lives (showInterface rows cols) L" by (rule lives_keep) (use L(1) face(2) in auto)
  from draws_use [OF assms(1) this] face have main: "uses_ok L ?main" "left_open ?main = 2"
    by (simp_all add: uses_ok_append)
  have del: "deletes ?main = {}" using face(2) assms(1) by (simp add: draws_def)
  have "deletes (progress_thread scaled percent m ps) \<inter> touches ?main = {}"
    using thread(2) face(3) assms(1) by (auto simp: draws_def)
  moreover have "deletes ?main \<inter> touches (progress_thread scaled percent m ps) = {}" unfolding del by simp
  ultimately show "uses_ok L zs" by (intro uses_ok_shuffle [OF zs main(1) thread(1)])
  have "deletes zs = {Percent}" using deletes_shuffle [OF zs] del thread(2) by simp
  then show "mc_windows \<subseteq> lives zs L" by (intro lives_keep L(1)) (simp add: mc_windows_def)
  show "left_open zs = 2" using left_open_shuffle [OF zs] main(2) thread(4) by simp
qed

lemma mc_calls_uses:
  "mc_calls rows cols n cs \<Longrightarrow> uses_ok {} cs \<and> mc_windows \<subseteq> lives cs {} \<and> left_open cs = 5 + 3 * int n"
proof (induction rule: mc_calls.induct)
  case mc_begins
  then show ?case using setup_uses by simp
next
  case (mc_draws n cs ds)
  then show ?case using draws_use [of ds "lives cs {}"] by (simp add: uses_ok_append)
next
  case (mc_copies n cs ds zs scaled percent m ps)
  let ?L = "lives (progress_frame rows cols) (lives cs {})"
  have "mc_windows \<subseteq> ?L" by (rule lives_keep) (use mc_copies.IH frame_uses(2) in auto)
  from copy_uses [OF mc_copies(2) this frame_uses(3) mc_copies(3)] show ?case
    using mc_copies.IH frame_uses(1,4) by (simp add: uses_ok_append)
qed



text \<open>The editor uses its windows after it has made them.\<close>

theorem nano_windows: "uses_ok {} (nano_setup rows cols)"
  by (simp add: nano_setup_def nano_clear_hint_def live_after_def)

end
