(* ===== verification/Nested.thy ===== *)
theory Nested
  imports Interface
begin

text \<open>
  The file manager of \<open>les11_my_mc\<close> with the processes it starts. A program that cannot be executed leaves
  a second file manager, a copy of the first, which takes the keys; the first waits for it. The copy has no
  thread for the progress bar, since \<open>fork\<close> copies the calling thread alone.
\<close>

section \<open>Processes that wait for one another\<close>

text \<open>How \<open>fork\<close> and \<open>execl\<close> go when a file is run; a program that runs is waited for.\<close>

datatype start = ForkFails | ExecFails | Runs

text \<open>In a copy the thread of the progress bar misses every signal.\<close>

fun without_thread :: "keypress \<Rightarrow> keypress" where
  "without_thread (F5 awake sz results target) = F5 False sz results target"
| "without_thread k = k"

text \<open>
  One key, for the process that runs, the head of the list; the others wait, each for the one before it. A
  process that has run a file has the path of this at the end of \<open>mc_ran\<close>.
\<close>

definition after_run :: "start \<Rightarrow> mc \<Rightarrow> mc list \<Rightarrow> mc list" where
  "after_run st t rest =
     (case runProgram (if st = ForkFails then - 1 else 0) (st = Runs) (last (mc_ran t)) of
        Returned_pid _ \<Rightarrow> t # rest
      | Replaced_by _ \<Rightarrow> t # rest
      | NoValue \<Rightarrow> t # t # rest)"

definition procs_turn :: "world \<Rightarrow> keypress \<Rightarrow> start \<Rightarrow> mc list \<Rightarrow> mc list option" where
  "procs_turn w k st ps =
     (case ps of
        [] \<Rightarrow> Some []
      | s # rest \<Rightarrow>
          if mc_hangs s then Some (s # rest)
          else do {
            t \<leftarrow> mc_step w (if rest = [] then k else without_thread k) s;
            if mc_ran t \<noteq> mc_ran s then Some (after_run st t rest)
            else if mc.isInterrupted t \<and> \<not> mc_hangs t then do {
              memFree (rightDir t) (rDirSize t);
              memFree (leftDir t) (lDirSize t);
              Some rest
            }
            else Some (t # rest)
          })"

fun procs_run :: "(world \<times> keypress \<times> start) list \<Rightarrow> mc list \<Rightarrow> mc list option" where
  "procs_run [] ps = Some ps"
| "procs_run ((w, k, st) # ks) ps = do {
     ps \<leftarrow> procs_turn w k st ps;
     procs_run ks ps
   }"

definition procs_main :: "world \<Rightarrow> string \<Rightarrow> (world \<times> keypress \<times> start) list \<Rightarrow> mc list option" where
  "procs_main w c ks = do {
     s \<leftarrow> mc_start w c;
     procs_run ks [s]
   }"

section \<open>Every process is sound\<close>

lemma after_run_all: "P t \<Longrightarrow> list_all P rest \<Longrightarrow> list_all P (after_run st t rest)"
  by (simp add: after_run_def split: run_outcome.splits)

lemma procs_turn_inv:
  assumes "list_all (mc_inv W D) ps" and "w \<in> W"
  shows "\<exists>qs. procs_turn w k st ps = Some qs \<and> list_all (mc_inv W D) qs"
proof (cases ps)
  case (Cons s rest)
  let ?k = "if rest = [] then k else without_thread k"
  show ?thesis
  proof (cases "mc_hangs s")
    case False
    then obtain t where t: "mc_step w ?k s = Some t" "mc_inv W D t"
      using mc_step_inv [of W D s w ?k] assms Cons by auto
    then have "memFree (rightDir t) (rDirSize t) = Some ()" "memFree (leftDir t) (lDirSize t) = Some ()"
      by (auto simp: mc_inv_def window_ok_def memFree_def)
    moreover have "list_all (mc_inv W D) (after_run st t rest)" "list_all (mc_inv W D) rest"
      using assms(1) Cons t(2) by (auto intro: after_run_all)
    ultimately show ?thesis
      using Cons False t by (simp add: procs_turn_def)
  qed (use assms Cons in \<open>simp add: procs_turn_def\<close>)
qed (simp add: procs_turn_def)

lemma procs_run_inv:
  "list_all (mc_inv W D) ps \<Longrightarrow> fst ` set ks \<subseteq> W \<Longrightarrow> \<exists>qs. procs_run ks ps = Some qs \<and> list_all (mc_inv W D) qs"
proof (induction ks arbitrary: ps)
  case (Cons e ks)
  obtain w k st where e: "e = (w, k, st)" by (cases e)
  obtain qs where "procs_turn w k st ps = Some qs" "list_all (mc_inv W D) qs"
    using procs_turn_inv [OF Cons.prems(1)] Cons.prems(2) e by fastforce
  then show ?case using Cons.IH [of qs] Cons.prems(2) e by auto
qed simp

section \<open>What the waiting ones see\<close>

text \<open>The processes that wait stay as they are until those before them have ended.\<close>

lemma procs_turn_rest:
  assumes "procs_turn w k st (xs @ rest) = Some qs" and "xs \<noteq> []"
  shows "\<exists>ys. qs = ys @ rest"
proof -
  obtain s xs' where xs: "xs = s # xs'" using assms(2) by (cases xs) auto
  have ran: "\<exists>ys. after_run st t (xs' @ rest) = ys @ rest" for t
    by (cases "runProgram (if st = ForkFails then - 1 else 0) (st = Runs) (last (mc_ran t))")
      (simp_all add: after_run_def)
  have "qs = xs' @ rest \<or> (\<exists>t. qs = (t # xs') @ rest) \<or> (\<exists>t. qs = after_run st t (xs' @ rest))"
    using assms(1) unfolding xs procs_turn_def by (auto simp: bind_eq_Some_conv split: if_splits)
  then show ?thesis using ran by blast
qed

lemma procs_run_rest:
  "procs_run ks (xs @ rest) = Some qs \<Longrightarrow>
   (\<exists>ys. qs = ys @ rest) \<or> (\<exists>ks' ks''. ks = ks' @ ks'' \<and> procs_run ks' (xs @ rest) = Some rest)"
proof (induction ks arbitrary: xs)
  case (Cons e ks)
  obtain w k st where e: "e = (w, k, st)" by (cases e)
  show ?case
  proof (cases "xs = []")
    case True
    then show ?thesis by (intro disjI2 exI [of _ "[]"] exI [of _ "e # ks"]) simp
  next
    case False
    obtain ps where ps: "procs_turn w k st (xs @ rest) = Some ps" "procs_run ks ps = Some qs"
      using Cons.prems e by (auto simp: bind_eq_Some_conv)
    obtain ys where ys: "ps = ys @ rest" using procs_turn_rest [OF ps(1) False] by blast
    from Cons.IH [of ys] ps(2) consider (there) "\<exists>zs. qs = zs @ rest"
      | (ended) ks' ks'' where "ks = ks' @ ks''" "procs_run ks' (ys @ rest) = Some rest"
      unfolding ys by blast
    then show ?thesis
    proof cases
      case ended
      then have "procs_run (e # ks') (xs @ rest) = Some rest" using ps(1) e ys by simp
      then show ?thesis using ended(1) by (intro disjI2 exI [of _ "e # ks'"] exI [of _ ks'']) simp
    qed blast
  qed
qed auto

section \<open>Copying in a copy\<close>

lemma hung_run: "mc_hangs v \<Longrightarrow> procs_run ks (v # rest) = Some (v # rest)"
  by (induction ks) (auto simp: procs_turn_def)

lemma redraws_keep:
  "redraw_left w k s = Some t \<Longrightarrow> mc_ran t = mc_ran s" "redraw_right w k s = Some t \<Longrightarrow> mc_ran t = mc_ran s"
  by (auto simp: redraw_left_def redraw_right_def)

lemma copy_without_thread:
  assumes "0 < sz" and "mc_step w (F5 False sz results target) s = Some t"
  shows "mc_hangs t \<and> mc_ran t = mc_ran s"
proof -
  obtain s' where s': "(if currentWindowType s = LEFT_WINDOW then redraw_left w (selectedPosition s) s
      else redraw_right w (selectedPosition s) s) = Some s'" "press_f5 w False sz results target s' = Some t"
    using assms(2) by (auto simp: mc_step_def bind_eq_Some_conv)
  have "mc_ran s' = mc_ran s" using s'(1) redraws_keep by (auto split: if_splits)
  then show ?thesis
    using s'(2) assms(1)
    by (auto simp: press_f5_def drawProgressWindow_def Let_def copy_returns_def bind_eq_Some_conv split: if_splits)
qed

text \<open>C11: a file that cannot be executed. The manager that starts it waits, with the state it had, for a second manager,
  and goes on unchanged once this one has ended. If anything is copied there, which is not an empty
  file, neither goes on: the second has no thread to reset \<open>progressMax\<close>, and takes no key any more.\<close>

theorem failed_exec:
  assumes "mc_step w Enter s = Some t" and "mc_ran t \<noteq> mc_ran s" and "\<not> mc_hangs s"
    and "procs_run ((w, Enter, ExecFails) # ks) (s # rest) = Some qs"
  shows "((\<exists>ys. qs = ys @ t # rest) \<or> (\<exists>ks' ks''. ks = ks' @ ks'' \<and> procs_run ks' (t # t # rest) = Some (t # rest)))
    \<and> (\<forall>w' awake sz results target st u us. 0 < sz \<and> \<not> mc_hangs u \<and>
        procs_turn w' (F5 awake sz results target) st (u # t # rest) = Some us \<longrightarrow>
        (\<forall>ks. procs_run ks us = Some us) \<and> (\<exists>v. us = v # t # rest))"
proof -
  have "procs_turn w Enter ExecFails (s # rest) = Some (t # t # rest)"
    using assms(1,2,3) by (simp add: procs_turn_def after_run_def runProgram_def)
  then have run: "procs_run ks ([t] @ (t # rest)) = Some qs" using assms(4) by simp
  have "(\<forall>ks. procs_run ks us = Some us) \<and> (\<exists>v. us = v # t # rest)"
    if sz: "0 < sz" and u: "\<not> mc_hangs u" and turn: "procs_turn w' (F5 awake sz results target) st (u # t # rest) = Some us"
    for w' awake sz results target st u us
  proof -
    obtain v where step: "mc_step w' (F5 False sz results target) u = Some v" and us: "mc_hangs v \<Longrightarrow> mc_ran v = mc_ran u \<Longrightarrow> us = v # t # rest"
      using u turn by (auto simp: procs_turn_def bind_eq_Some_conv split: if_splits)
    with copy_without_thread [OF sz step] have "mc_hangs v" "us = v # t # rest" by blast+
    then show ?thesis using hung_run by blast
  qed
  then show ?thesis using procs_run_rest [OF run] by auto
qed

theorem failed_exec_witness:
  "let e = \<lparr>d_name = ''x'', d_type = DT_REG\<rparr>;
       w = \<lparr>realpath = (\<lambda>c n. Some ''/x''), chdir = (\<lambda>c p. Some p), scandir = (\<lambda>c p. Some [e]), st_size = (\<lambda>c n. 5)\<rparr>;
       s = \<lparr>cwd = ''/'', leftDir = Some [e], rightDir = Some [e], lDirSize = 1, rDirSize = 1, leftDirPath = ''/'',
        rightDirPath = ''/'', selectedPosition = 0, currentWindowType = LEFT_WINDOW, isInterrupted = False,
        mc_ran = [], mc_copied = [], mc_hangs = False, leftData = [], rightData = []\<rparr>
   in \<exists>t v. procs_run [(w, Enter, ExecFails)] [s] = Some [t, t] \<and> mc_ran t = [''/x''] \<and>
        procs_turn w (F5 True 5 [Bytes ''hello''] (Some [])) Runs [t, t] = Some [v, t] \<and>
        procs_run [(w, CtrlX True, Runs), (w, Tab, Runs)] [v, t] = Some [v, t]"
proof -
  let ?e = "\<lparr>d_name = ''x'', d_type = DT_REG\<rparr>"
  let ?w = "\<lparr>realpath = (\<lambda>c n. Some ''/x''), chdir = (\<lambda>c p. Some p), scandir = (\<lambda>c p. Some [?e]), st_size = (\<lambda>c n. 5)\<rparr>"
  let ?s = "\<lparr>cwd = ''/'', leftDir = Some [?e], rightDir = Some [?e], lDirSize = 1, rDirSize = 1, leftDirPath = ''/'',
        rightDirPath = ''/'', selectedPosition = 0, currentWindowType = LEFT_WINDOW, isInterrupted = False,
        mc_ran = [], mc_copied = [], mc_hangs = False, leftData = [], rightData = []\<rparr>"
  let ?f5 = "F5 True 5 [Bytes ''hello''] (Some [])"
  have step: "\<exists>t. mc_step ?w Enter ?s = Some t \<and> mc_ran t = [''/x''] \<and> \<not> mc_hangs t \<and>
      procs_run [(?w, Enter, ExecFails)] [?s] = Some [t, t] \<and> procs_turn ?w ?f5 Runs [t, t] \<noteq> None"
    by (rule exI [of _ "the (mc_step ?w Enter ?s)"]) code_simp
  then obtain t where t: "mc_step ?w Enter ?s = Some t" "mc_ran t = [''/x'']" "\<not> mc_hangs t"
    "procs_run [(?w, Enter, ExecFails)] [?s] = Some [t, t]" "procs_turn ?w ?f5 Runs [t, t] \<noteq> None" by blast
  then obtain us where us: "procs_turn ?w ?f5 Runs [t, t] = Some us" by blast
  have "mc_ran t \<noteq> mc_ran ?s" "\<not> mc_hangs ?s" "(0 :: int) < 5" using t(2) by simp_all
  with failed_exec [OF t(1) _ _ t(4)] t(3) us obtain v where "us = [v, t]" "procs_run ks us = Some us" for ks by blast
  then show ?thesis unfolding Let_def using t us by blast
qed

end
