(* ===== verification/Plugins.thy ===== *)
theory Plugins
  imports Calculators
begin

text \<open>
  \<open>main\<close> of \<open>les9_dynamic_libs\<close> over the characters that are typed: the libraries are named and opened, then
  the menu is shown until a number is typed that it does not have. How a \<open>float\<close> is read and printed is
  a parameter, as its arithmetic is.
\<close>

section \<open>Input\<close>

text \<open>\<open>%i\<close> of \<open>scanf\<close>, which takes a plus sign as well.\<close>

definition scanf_i :: "string \<Rightarrow> (i32 \<times> string) option" where
  "scanf_i s =
     (let t = dropWhile is_space s in
      if t \<noteq> [] \<and> hd t = CHR ''+'' \<and> tl t \<noteq> [] \<and> is_digit (hd (tl t)) then scan_i (tl t) else scan_i t)"

text \<open>The rest of a line and its end are read; and one more character.\<close>

definition dump_line :: "string \<Rightarrow> string" where
  "dump_line fp = drop 1 (dropWhile (\<lambda>ch. ch \<noteq> CHR 0x0A) fp)"

definition getchar :: "string \<Rightarrow> string" where
  "getchar fp = drop 1 fp"

text \<open>\<open>%f\<close>: the number and how many characters it took, \<open>None\<close> when there is no number.\<close>

record 'f float_io =
  scan_f :: "string \<Rightarrow> ('f \<times> nat) option"
  print_f :: "'f \<Rightarrow> string"
  zero_f :: 'f

definition read_operand :: "'f float_io \<Rightarrow> string \<Rightarrow> 'f \<times> string" where
  "read_operand io s = (case scan_f io s of None \<Rightarrow> (zero_f io, s) | Some (x, n) \<Rightarrow> (x, drop n s))"

lemma scan_i_consumes: "scan_i s = Some (n, r) \<Longrightarrow> length r < length s"
proof -
  assume scan: "scan_i s = Some (n, r)"
  define t where "t = dropWhile is_space s"
  define u where "u = (if t \<noteq> [] \<and> hd t = CHR ''-'' then tl t else t)"
  obtain b v where bv: "radix u = (b, v)" by fastforce
  have u: "u \<noteq> []" "is_digit (hd u)" and r: "r = dropWhile (\<lambda>c. xdigit_val c < b) v"
    using scan bv unfolding scan_i_def t_def [symmetric] Let_def u_def [symmetric] by (auto split: if_splits)
  obtain c u' where cu: "u = c # u'" using u(1) by (cases u) auto
  have digit: "xdigit_val c < 10" using u(2) digit_val_less [of c] by (simp add: cu xdigit_digit)
  have "xdigit_val (CHR ''0'') = 0" by (simp add: xdigit_val_def)
  with bv cu digit have "v = u \<and> xdigit_val c < b \<or> length v < length u"
    by (auto simp: radix_def split: list.splits if_splits)
  then have "length r < length u"
    using length_dropWhile_le [of "\<lambda>c. xdigit_val c < b" v] length_dropWhile_le [of "\<lambda>c. xdigit_val c < b" u']
    by (auto simp: r cu)
  also have "length u \<le> length t" by (simp add: u_def)
  also have "length t \<le> length s" by (simp add: t_def length_dropWhile_le)
  finally show ?thesis .
qed

lemma scanf_i_consumes: "scanf_i s = Some (n, r) \<Longrightarrow> length r < length s"
proof -
  assume s: "scanf_i s = Some (n, r)"
  have "length (tl (dropWhile is_space s)) \<le> length s" "length (dropWhile is_space s) \<le> length s"
    using length_dropWhile_le [of is_space s] by (simp_all add: le_diff_conv)
  then show ?thesis
    using s scan_i_consumes by (fastforce simp: scanf_i_def Let_def split: if_splits)
qed

lemma reads_shorten:
  "length (snd (read_operand io s)) \<le> length s" "length (dump_line s) \<le> length s" "length (getchar s) \<le> length s"
  using length_dropWhile_le [of "\<lambda>ch. ch \<noteq> CHR 0x0A" s]
  by (auto simp: read_operand_def dump_line_def getchar_def split: option.splits)

section \<open>The menu\<close>

text \<open>The text printed until the program ends; \<open>None\<close> when no number was typed, since \<open>operation\<close> is not initialised.\<close>

function calc9_loop :: "'f float_io \<Rightarrow> 'f library list \<Rightarrow> string \<Rightarrow> string option" where
  "calc9_loop io libs inp =
     (case scanf_i inp of
        None \<Rightarrow> None
      | Some (operation, r) \<Rightarrow>
          (let head = concat (menu9 libs) @ ''Select operation:'' @ nl;
               (a, r1) = read_operand io r;
               (b, r2) = read_operand io r1
           in case calc9_turn libs (sint operation) a b of
                None \<Rightarrow> Some (head @ ''No such operation. Stopping program...'')
              | Some result \<Rightarrow>
                  map_option (\<lambda>out. head @ ''Enter first operand:'' @ ''Enter second operand:''
                      @ ''Result = '' @ print_f io result @ nl @ ''PRESS ANY KEY...'' @ out)
                    (calc9_loop io libs (getchar (dump_line r2)))))"
  by pat_completeness auto
termination
proof (relation "measure (\<lambda>(io, libs, inp). length inp)")
  fix io :: "'f float_io" and libs :: "'f library list" and inp head :: string
    and p and operation r q a r1 q' b r2 result
  assume scan: "scanf_i inp = Some p" "(operation, r) = p"
    and reads: "q = read_operand io r" "(a, r1) = q" "q' = read_operand io r1" "(b, r2) = q'"
  have "length (getchar (dump_line r2)) \<le> length r2" using reads_shorten(2,3) order_trans by blast
  also have "\<dots> \<le> length r1" using reads reads_shorten(1) [of io r1] by (metis snd_conv)
  also have "\<dots> \<le> length r" using reads reads_shorten(1) [of io r] by (metis snd_conv)
  also have "\<dots> < length inp" using scan scanf_i_consumes by blast
  finally show "((io, libs, getchar (dump_line r2)), io, libs, inp) \<in> measure (\<lambda>(io, libs, inp). length inp)" by simp
qed simp

declare calc9_loop.simps [simp del]

section \<open>The program\<close>

text \<open>What the loop over \<open>pluginsList\<close> prints: a message for each name without a library; \<open>err\<close> is \<open>dlerror\<close>.\<close>

definition not_opened :: "(string \<Rightarrow> string) \<Rightarrow> string \<Rightarrow> string" where
  "not_opened err buff =
     ''Error while opening '' @ [CHR 0x22] @ buff @ [CHR 0x22] @ '' because of: '' @ nl @ err buff @ nl"

function plugin_errors :: "(string \<Rightarrow> 'f library option) \<Rightarrow> (string \<Rightarrow> string) \<Rightarrow> string \<Rightarrow> nat \<Rightarrow> string \<Rightarrow> string" where
  "plugin_errors dl err pl i name =
     (if length pl \<le> i then []
      else if is_separator (pl ! i) then
        (let buff = cstr (name @ [NUL]);
             e = (case dl buff of None \<Rightarrow> not_opened err buff | Some l \<Rightarrow> []) in
         if pl ! i = NUL then e
         else if length pl \<le> i + 1 then e
         else e @ plugin_errors dl err pl (i + 2) [pl ! (i + 1)])
      else plugin_errors dl err pl (i + 1) (name @ [pl ! i]))"
  by pat_completeness auto
termination by (relation "measure (\<lambda>(dl, err, pl, i, n). length pl - i)") auto

declare plugin_errors.simps [simp del]

text \<open>\<open>%s\<close> of \<open>scanf\<close>: the next word and what follows it. At the end of the input nothing is assigned.\<close>

definition read_word :: "string \<Rightarrow> string \<times> string" where
  "read_word s =
     (let t = dropWhile is_space s in (takeWhile (\<lambda>c. \<not> is_space c) t, dropWhile (\<lambda>c. \<not> is_space c) t))"

definition calc9_main :: "(string \<Rightarrow> 'f library option) \<Rightarrow> (string \<Rightarrow> string) \<Rightarrow> 'f float_io \<Rightarrow> string \<Rightarrow> string \<Rightarrow> string option" where
  "calc9_main dl err io stack inp = do {
     let (w, rest) = read_word inp;
     pluginsList \<leftarrow> (if w = [] then Some stack else strcpy stack w);
     libs \<leftarrow> load_plugins dl pluginsList;
     out \<leftarrow> calc9_loop io libs rest;
     Some (''Enter libraries to open:'' @ nl @ plugin_errors dl err pluginsList 0 []
       @ ''Total opened libraries: '' @ dec (int (length libs)) @ nl @ out)
   }"

section \<open>How it ends\<close>

lemma loop_stops:
  "calc9_loop io libs inp = Some out \<Longrightarrow>
   \<exists>pre. out = pre @ concat (menu9 libs) @ ''Select operation:'' @ nl @ ''No such operation. Stopping program...''"
proof (induction io libs inp arbitrary: out rule: calc9_loop.induct)
  case (1 io libs inp)
  obtain operation r where scan: "scanf_i inp = Some (operation, r)"
    using "1.prems" by (subst (asm) calc9_loop.simps) (auto split: option.splits)
  obtain a r1 b r2 where reads: "read_operand io r = (a, r1)" "read_operand io r1 = (b, r2)" by fastforce
  show ?case
  proof (cases "calc9_turn libs (sint operation) a b")
    case None
    then have "out = concat (menu9 libs) @ ''Select operation:'' @ nl @ ''No such operation. Stopping program...''"
      using "1.prems" scan reads by (subst (asm) calc9_loop.simps) simp
    then show ?thesis by (intro exI [of _ "[]"]) simp
  next
    case (Some result)
    let ?pre = "concat (menu9 libs) @ ''Select operation:'' @ nl @ ''Enter first operand:'' @ ''Enter second operand:''
        @ ''Result = '' @ print_f io result @ nl @ ''PRESS ANY KEY...''"
    from "1.prems" scan reads Some obtain out' where
      rest: "calc9_loop io libs (getchar (dump_line r2)) = Some out'" and out: "out = ?pre @ out'"
      by (subst (asm) calc9_loop.simps) auto
    obtain pre where "out' = pre @ concat (menu9 libs) @ ''Select operation:'' @ nl @ ''No such operation. Stopping program...''"
      using "1.IH" [OF scan refl refl reads(1) [symmetric] refl reads(2) [symmetric] refl Some rest] by blast
    then show ?thesis using out by (intro exI [of _ "?pre @ pre"]) simp
  qed
qed

lemma read_word_line: "list_all (\<lambda>c. \<not> is_space c) w \<Longrightarrow> w \<noteq> [] \<Longrightarrow> read_word (w @ nl @ rest) = (w, nl @ rest)"
proof -
  assume w: "list_all (\<lambda>c. \<not> is_space c) w" "w \<noteq> []"
  have "dropWhile is_space (w @ nl @ rest) = w @ nl @ rest" using w by (cases w) simp_all
  moreover have "is_space (CHR 0x0A)" by (simp add: is_space_def)
  ultimately show ?thesis
    using w by (simp add: read_word_def nl_def Let_def list_all_iff takeWhile_append2 dropWhile_append2 takeWhile_tail)
qed

text \<open>The program with up to sixteen well-formed names: it counts and offers the libraries that were found, and when it ends,
  it does so by a number that its menu does not have.\<close>

theorem calc9_program:
  assumes "plugin_name w" and "list_all plugin_name ws" and "length ws < 16"
    and "list_all (\<lambda>c. \<not> is_space c) (w @ commas ws)" and "length (w @ commas ws) < length stack"
    and "calc9_loop io (List.map_filter dl (w # ws)) (nl @ rest) = Some out"
  shows "\<exists>errs pre. calc9_main dl err io stack (w @ commas ws @ nl @ rest) =
    Some (''Enter libraries to open:'' @ nl @ errs @
      ''Total opened libraries: '' @ dec (int (length (List.map_filter dl (w # ws)))) @ nl @
      pre @ concat (menu9 (List.map_filter dl (w # ws))) @ ''Select operation:'' @ nl @ ''No such operation. Stopping program...'')"
proof -
  let ?w = "w @ commas ws"
  have ne: "?w \<noteq> []" using assms(1) by (simp add: plugin_name_def)
  have word: "read_word (w @ commas ws @ nl @ rest) = (?w, nl @ rest)"
    using read_word_line [OF assms(4) ne] by simp
  have copy: "strcpy stack ?w = Some (w @ commas ws @ NUL # drop (Suc (length ?w)) stack)"
    using assms(5) by (simp add: strcpy_def)
  have libs: "load_plugins dl (w @ commas ws @ NUL # drop (Suc (length ?w)) stack) = Some (List.map_filter dl (w # ws))"
    by (rule plugins_loaded [OF assms(1,2,3), THEN conjunct1])
  obtain pre where pre: "out = pre @ concat (menu9 (List.map_filter dl (w # ws))) @ ''Select operation:'' @ nl @ ''No such operation. Stopping program...''"
    using loop_stops [OF assms(6)] by blast
  let ?pl = "w @ commas ws @ NUL # drop (Suc (length ?w)) stack"
  have "calc9_main dl err io stack (w @ commas ws @ nl @ rest) =
      Some (''Enter libraries to open:'' @ nl @ plugin_errors dl err ?pl 0 []
        @ ''Total opened libraries: '' @ dec (int (length (List.map_filter dl (w # ws)))) @ nl @ out)"
    unfolding calc9_main_def word Let_def prod.case
    by (simp only: ne if_False copy libs assms(6) Option.bind.simps)
  then show ?thesis unfolding pre by blast
qed

end
