(* ===== verification/Layouts.thy ===== *)
theory Layouts
  imports Packets
begin

text \<open>
  The packed structs of \<open>les26_syn_storm\<close> as lists of bit fields, and that the offsets by which \<open>Packets\<close>
  reads and writes them are those of the fields the code names.
\<close>

type_synonym layout = "(string \<times> nat) list"

text \<open>Fields of a packed struct follow one another, least significant bits first.\<close>

fun bit_offset :: "string \<Rightarrow> layout \<Rightarrow> nat option" where
  "bit_offset f [] = None"
| "bit_offset f ((g, n) # l) = (if f = g then Some 0 else map_option ((+) n) (bit_offset f l))"

definition byte_offset :: "string \<Rightarrow> layout \<Rightarrow> nat option" where
  "byte_offset f l = (case bit_offset f l of None \<Rightarrow> None | Some b \<Rightarrow> if b mod 8 = 0 then Some (b div 8) else None)"

definition bits_of :: "string \<Rightarrow> layout \<Rightarrow> nat option" where
  "bits_of f l = map_of l f"

definition sizeof :: "layout \<Rightarrow> nat" where
  "sizeof l = (sum_list (map snd l) + 7) div 8"

definition tcp_pseudo_header :: layout where
  "tcp_pseudo_header =
     [(''saddr'', 32), (''daddr'', 32), (''zeros'', 8), (''protocol'', 8), (''tcp_len'', 16), (''sport'', 16),
      (''dport'', 16), (''snum'', 32), (''sacknum'', 32), (''dataofft'', 4), (''reserved'', 4), (''flags'', 8),
      (''window'', 16), (''csum'', 16), (''urg'', 16), (''opts'', 160)]"

text \<open>The names \<open>flags\<close>, \<open>csum\<close>, \<open>saddr\<close> are those of the IP header; the TCP part has others.\<close>

definition syn_packet :: layout where
  "syn_packet =
     [(''version'', 4), (''IHL'', 4), (''DSCP'', 6), (''ECN'', 2), (''payload'', 16), (''id'', 16), (''flags'', 3),
      (''offt'', 13), (''ttl'', 8), (''proto'', 8), (''csum'', 16), (''saddr'', 32), (''daddr'', 32),
      (''sport'', 16), (''dport'', 16), (''snum'', 32), (''anum'', 32), (''dataOfft'', 4), (''reserved'', 3),
      (''flag'', 9), (''winsz'', 16), (''chsum'', 16), (''urg'', 16), (''opts'', 160)]"

section \<open>Fields\<close>

definition put16 :: "layout \<Rightarrow> string \<Rightarrow> u16 \<Rightarrow> u8 list \<Rightarrow> u8 list option" where
  "put16 l f v m = do { p \<leftarrow> byte_offset f l; store16 p v m }"

definition put32 :: "layout \<Rightarrow> string \<Rightarrow> u32 \<Rightarrow> u8 list \<Rightarrow> u8 list option" where
  "put32 l f v m = do { p \<leftarrow> byte_offset f l; store32 p v m }"

definition put8 :: "layout \<Rightarrow> string \<Rightarrow> u8 \<Rightarrow> u8 list \<Rightarrow> u8 list option" where
  "put8 l f v m = do { p \<leftarrow> byte_offset f l; store8 p v m }"

text \<open>A field within one byte.\<close>

definition get_bits :: "layout \<Rightarrow> string \<Rightarrow> u8 list \<Rightarrow> u8 option" where
  "get_bits l f m = do {
     b \<leftarrow> bit_offset f l;
     n \<leftarrow> bits_of f l;
     byte \<leftarrow> load8 m (b div 8);
     Some (take_bit n (drop_bit (b mod 8) byte))
   }"

definition assign_field :: "layout \<Rightarrow> string \<Rightarrow> layout \<Rightarrow> string \<Rightarrow> u8 list \<Rightarrow> u8 list \<Rightarrow> u8 list option" where
  "assign_field k g l f src dst = do {
     q \<leftarrow> byte_offset g k;
     n \<leftarrow> bits_of g k;
     p \<leftarrow> byte_offset f l;
     copy_field src q (n div 8) p dst
   }"

text \<open>The pseudo header, field by field.\<close>

definition pseudo_by_fields :: "u8 list \<Rightarrow> u8 list \<Rightarrow> u8 list option" where
  "pseudo_by_fields pck tph =
     (let T = tcp_pseudo_header; P = syn_packet in do {
        tph \<leftarrow> put32 T ''saddr'' (inet_addr ''192.168.0.60'') tph;
        tph \<leftarrow> put32 T ''daddr'' (inet_addr ''192.168.0.30'') tph;
        tph \<leftarrow> put8 T ''protocol'' 0x6 tph;
        tph \<leftarrow> put16 T ''tcp_len'' (htons 40) tph;
        tph \<leftarrow> put16 T ''sport'' (htons 1333) tph;
        tph \<leftarrow> put16 T ''dport'' (htons 1555) tph;
        tph \<leftarrow> assign_field P ''snum'' T ''snum'' pck tph;
        tph \<leftarrow> assign_field P ''anum'' T ''sacknum'' pck tph;
        dataofft \<leftarrow> get_bits P ''dataOfft'' pck;
        reserved \<leftarrow> get_bits P ''flags'' pck;
        tph \<leftarrow> put8 T ''dataofft'' (nibbles dataofft reserved) tph;
        tph \<leftarrow> assign_field P ''winsz'' T ''window'' pck tph;
        tph \<leftarrow> put16 T ''csum'' 0 tph;
        tph \<leftarrow> assign_field P ''urg'' T ''urg'' pck tph;
        p \<leftarrow> byte_offset ''opts'' T;
        q \<leftarrow> byte_offset ''opts'' P;
        store_bytes p (takeWhile (\<lambda>b. b \<noteq> 0) (drop q pck) @ [0]) tph
      })"

lemma offsets_T:
  "byte_offset ''saddr'' tcp_pseudo_header = Some 0" "byte_offset ''daddr'' tcp_pseudo_header = Some 4"
  "byte_offset ''protocol'' tcp_pseudo_header = Some 9" "byte_offset ''tcp_len'' tcp_pseudo_header = Some 10"
  "byte_offset ''sport'' tcp_pseudo_header = Some 12" "byte_offset ''dport'' tcp_pseudo_header = Some 14"
  "byte_offset ''snum'' tcp_pseudo_header = Some 16" "byte_offset ''sacknum'' tcp_pseudo_header = Some 20"
  "byte_offset ''dataofft'' tcp_pseudo_header = Some 24" "byte_offset ''window'' tcp_pseudo_header = Some 26"
  "byte_offset ''csum'' tcp_pseudo_header = Some 28" "byte_offset ''urg'' tcp_pseudo_header = Some 30"
  "byte_offset ''opts'' tcp_pseudo_header = Some 32"
  by code_simp+

lemma offsets_P:
  "byte_offset ''snum'' syn_packet = Some 24" "byte_offset ''anum'' syn_packet = Some 28"
  "byte_offset ''winsz'' syn_packet = Some 34" "byte_offset ''urg'' syn_packet = Some 38" "byte_offset ''opts'' syn_packet = Some 40"
  "bit_offset ''dataOfft'' syn_packet = Some 256" "bit_offset ''flags'' syn_packet = Some 48"
  "bits_of ''dataOfft'' syn_packet = Some 4" "bits_of ''flags'' syn_packet = Some 3" "bits_of ''snum'' syn_packet = Some 32"
  "bits_of ''anum'' syn_packet = Some 32" "bits_of ''winsz'' syn_packet = Some 16" "bits_of ''urg'' syn_packet = Some 16"
  by code_simp+

lemma nibbles_bits: "nibbles (take_bit 4 a) (take_bit 3 b) = nibbles a (b AND 7)"
proof -
  have "take_bit 4 a = a AND 15" "take_bit 3 b = b AND 7" by (simp_all add: take_bit_eq_mask mask_eq_exp_minus_1)
  then show ?thesis by (simp add: nibbles_def and.assoc)
qed

text \<open>The model of the pseudo header by offsets is the code's by names, and the sizes are those of the structs.\<close>

theorem pseudo_fields:
  "syn_pseudo pck tph = pseudo_by_fields pck tph" "sizeof syn_packet = syn_packet_size" "sizeof tcp_pseudo_header = 52"
proof -
  show "sizeof syn_packet = syn_packet_size" "sizeof tcp_pseudo_header = 52" by code_simp+
  show "syn_pseudo pck tph = pseudo_by_fields pck tph"
    unfolding syn_pseudo_def pseudo_by_fields_def Let_def put8_def put16_def put32_def assign_field_def get_bits_def
      offsets_T offsets_P Option.bind.simps
    by (cases "load8 pck 32"; cases "load8 pck 6") (simp_all add: nibbles_bits)
qed

text \<open>Where the code takes the fields by pointers: the checksums of both headers and the bounds of the summed regions.\<close>

theorem pointer_fields:
  "byte_offset ''csum'' syn_packet = Some 10" "byte_offset ''sport'' syn_packet = Some 20" "byte_offset ''chsum'' syn_packet = Some (20 + 16)"
  "byte_offset ''saddr'' syn_packet = Some 12" "byte_offset ''ttl'' syn_packet = Some 8"
  by code_simp+

end
