(* ===== verification/Spec2Isabelle.thy ===== *)
theory Spec2Isabelle
  imports Packets KModules Malloc LifeLiveness FSMServer Shell Nano MC ShmChat MsgChat MyErrno Calculators Echo ShellSession Hierarchy ThreadId Signals Basics Datagrams Refinements Sockets Nested Plugins Layouts
begin

text \<open>
  A verification library for the C programs of the summer school repository: some thirty small
  programs, one directory \<open>lesN_...\<close> each, that do not call one another. What they share is
  a checksum routine copied into five files, the C library, and the kernel's interfaces. The
  library has a theory for each program or group of programs, over two theories of shared
  ground, and this root, which imports them all.

  The theories.
  \<^item> \<open>Prelude\<close>: machine integers (\<open>n word\<close> values at the width of the C types), byte order, a C
    object as the list of its bytes with loads and stores that are \<open>None\<close> outside of it, decimal and
    hexadecimal output, the reachable states of a step relation, and the locales
    \<open>invariant_machine\<close>, interpreted by every state machine below, \<open>simulation\<close>, for those that
    implement a more abstract one, and \<open>ending_machine\<close>, for those whose runs all end.
  \<^item> \<open>CLib\<close>: NUL-terminated strings in buffers, \<open>inet_addr\<close>, the number conversions of
    \<open>sscanf\<close>, and the lemmas that a printed number is read back.
  \<^item> \<open>Checksum\<close>: the five copies of the Internet checksum (\<open>checksum\<close> in \<open>les26\<close>, \<open>les27\<close>
    and twice in \<open>les28\<close>, \<open>gen_crc16\<close> in \<open>les31\<close>), the one's complement sum they compute, and the
    locale \<open>inet_checksum\<close> with what a protocol relies on, interpreted by all five.
  \<^item> \<open>Packets\<close>: the packets built byte by byte in \<open>les26_syn_storm\<close>, \<open>les27_channel_level\<close>,
    and \<open>ping.c\<close> and \<open>tracert.c\<close> of \<open>les28_ping_tracert\<close>, and the probing loop of \<open>tracert\<close>;
    \<open>Layouts\<close>: the structs of \<open>les26\<close> field by field, which the offsets used agree with.
  \<^item> \<open>Kernel\<close>, \<open>Firewall\<close>, \<open>KPing\<close>, \<open>KModules\<close>: the kernel modules of \<open>les30_firewall\<close>,
    \<open>les31_kernel_ping\<close> and \<open>les29_linux_modules\<close>. Calls into the kernel are recorded with the
    results the kernel gave; the resources held and the use of a released object are functions
    of that record. The locale \<open>one_shot_reader\<close> is the contract of the three read functions.
  \<^item> \<open>Malloc\<close>: \<open>les12_malloc\<close>, the chunk table over \<open>sbrk\<close>, the logging \<open>malloc\<close>, and \<open>main\<close>.
  \<^item> \<open>LifeSim\<close>: \<open>lifeSimulator.c\<close> of \<open>les14_threads\<close>, providers and buyers as interleaved
    state machines over storages with mutexes; \<open>LifeLiveness\<close>: the simulation can always end.
  \<^item> \<open>Refinements\<close>: what \<open>LifeSim\<close> and \<open>FSMServer\<close> promise, as machines of their own (a market, a
    dispatcher), and that the programs refine them, by the locale \<open>simulation\<close> of the prelude.
  \<^item> \<open>Multiproto\<close>: \<open>les22_multiprotocol_server\<close>, the server over \<open>epoll\<close>, \<open>poll\<close> and
    \<open>select\<close>, with the locale \<open>answering\<close> as the contract of one turn.
  \<^item> \<open>FSMServer\<close>: \<open>server.c\<close> of \<open>les21_FSM\<close>, the main process, its ten handlers, the message
    queue between them and signals.
  \<^item> \<open>Shell\<close>: \<open>interpretator.c\<close> of \<open>les15_pipes\<close>, from the bytes of a line to the processes;
    \<open>ShellSession\<close>: its whole loop, and the wiring of the unused \<open>pipeline\<close>.
  \<^item> \<open>Hierarchy\<close>: the process tree of \<open>les13_fork\<close>.
  \<^item> \<open>Datagrams\<close>: \<open>les23_broadcast_sock\<close>, the UDP half of \<open>les20\<close>, and \<open>les19\<close> and \<open>les20\<close> from
    their arguments on.
  \<^item> \<open>ChatServers\<close>: \<open>server.c\<close> of \<open>les20\<close>, the main process with a child for each client, and that a
    child is not affected by the others, over the locale \<open>fork_server\<close>.
  \<^item> \<open>SctpRaw\<close>: the programs of \<open>les24\<close> and \<open>les25\<close> from their error checks on.
  \<^item> \<open>Sockets\<close>: the calls by which these programs set up their sockets, and which clients reach
    the servers written for them.
  \<^item> \<open>Screens\<close>: the windows of the editor, the file manager and the simulator, with the locale
    \<open>two_panes\<close> as the contract of the first two, and the bar that shows progress; \<open>Interface\<close>: the
    calls by which editor and file manager create, fill and delete them.
  \<^item> \<open>ThreadId\<close>, \<open>Signals\<close>, \<open>Basics\<close>: \<open>threadId.c\<close> of \<open>les14_threads\<close>, \<open>les18_signals\<close>, and the first
    exercises \<open>les2\<close>, \<open>les3\<close>, \<open>les4\<close>, \<open>les6\<close> and \<open>les7\<close>.
  \<^item> \<open>Nano\<close>: the editor and \<open>reverse.c\<close> of \<open>les10_my_nano\<close>.
  \<^item> \<open>MC\<close>: the file manager of \<open>les11_my_mc\<close>, its windows over a file system that is a
    parameter, and copying beside the thread of the progress bar; \<open>Nested\<close>: the processes it starts.
  \<^item> \<open>MsgChat\<close>, \<open>ShmChat\<close>: the chats of \<open>les16_IPC_objects\<close> over message queues and of
    \<open>les17_shared_memory\<close> over a shared buffer with semaphores, servers and clients interleaved.
  \<^item> \<open>MyErrno\<close>: \<open>my_errno.c\<close> of \<open>les14_threads\<close>, three threads with a buffer each.
  \<^item> \<open>Calculators\<close>: the calculators of \<open>les1\<close>, \<open>les8\<close> and \<open>les9\<close> over a parameter for the
    arithmetic of \<open>float\<close>, and the list of plugins of \<open>les9_dynamic_libs\<close>; \<open>Plugins\<close>:
    that program over what is typed.
  \<^item> \<open>Echo\<close>: the buffers that go back and forth between clients and servers in \<open>les19_sockets\<close>,
    \<open>les20_multiclient_chat\<close> and \<open>les24_SCTP_DCCP\<close>, and the packet of \<open>les25_raw_sockets\<close>.

  Correspondence. Functions, structs and constants keep their names where these are free; a
  prefix tells programs apart (\<open>fw_\<close>, \<open>kp_\<close>, \<open>ma_\<close>, \<open>sh_\<close>). State that a program keeps in
  globals and locals is a record; a C function is one definition that takes and returns it.
  Undefined behaviour (an access outside an object, a string without terminator) is \<open>None\<close>,
  so a theorem that a result is \<open>Some\<close> says that it does not occur. Memory that the code does
  not initialise is a parameter, usually called \<open>stack\<close>, \<open>heap\<close> or \<open>garbage\<close>. What the kernel,
  the network and other processes answer is a parameter as well: an argument of the definition,
  or an event of the sequence it runs over. Printed text is part of the state.

  What the lemmas show. The properties, numbered C1 and up, stand in the theories with a sentence
  each. They are of these kinds: invariants of all reachable states (clients of the queue server,
  goods and locks of the simulator, buffers of the ping module, blocks of the allocator);
  refinements of abstract machines (the simulator, the queue server, copying in the file manager);
  functional descriptions of whole programs or operations on every branch (checksums, packets,
  probes, the interpreter's sessions, answers of the servers); equivalences between copies of an
  algorithm (checksums, the three servers) and of a process among others with the same process alone;
  ends of runs that are interleaved in every way (the threads that print their numbers, the tree of
  processes); round trips through text (ports and addresses
  written to sysfs files); what is left after errors (module loads, a connection refused, a
  program not executed); and exact conditions under which code that is wrong in general does
  what it should (the SYN segment, the second word of a pipe, freeing).

  Bounds. The loops of the model terminate by measures that the code's own bounds give, except the
  loops that run for ever by design, which are step relations or run over a finite sequence of
  events. \<open>read_file\<close> has fuel; two reads suffice, which its lemma states.

  Not modelled. \<open>client.c\<close> of \<open>les21_FSM\<close> does not compile; the Erlang half of the repository is
  another language. Of the programs modelled, what ncurses keeps of a window and its
  colours, the creation of queues and semaphores, joining threads where nothing follows, and texts
  printed only to report them are left out where the theories say so.
\<close>

end
